(* ===== verification/Prelude.thy ===== *)
theory Prelude
  imports Main "HOL-Library.Word"
begin

text \<open>
  Shared vocabulary of the development: the machine types, the way a call that
  does not return (\<^verbatim>\<open>bmk_platform_halt\<close>, a failed \<^verbatim>\<open>bmk_assert\<close>) is represented,
  and the generic facts about words, powers of two and lists that the component
  theories rely on.
\<close>

unbundle bit_operations_syntax

section \<open>Machine types and results\<close>

text \<open>\<^verbatim>\<open>unsigned long\<close>, \<^verbatim>\<open>size_t\<close> and \<^verbatim>\<open>lfatomic_t\<close> are 64 bits wide on the amd64 port.\<close>

type_synonym u64 = "64 word"
type_synonym u32 = "32 word"
type_synonym u16 = "16 word"
type_synonym u8 = "8 word"

text \<open>The byte of a character constant.\<close>

abbreviation "chr8 c \<equiv> (of_char c :: u8)"

text \<open>
  A call either returns or stops the machine. The message is the one the source
  hands to \<^verbatim>\<open>bmk_platform_halt\<close>; a failed assertion carries the asserted text.
  \<open>Undefined\<close> marks a C operation without defined behaviour (an access outside an
  object), which a correctness theorem must exclude, and \<open>NoReturn\<close> a loop that does
  not end.
\<close>

datatype halt = Halt string | Assert string | Undefined string | NoReturn

type_synonym 'a res = "halt + 'a"

definition bindE :: "'a res \<Rightarrow> ('a \<Rightarrow> 'b res) \<Rightarrow> 'b res" where
  "bindE m f = (case m of Inl e \<Rightarrow> Inl e | Inr x \<Rightarrow> f x)"

definition assertE :: "string \<Rightarrow> bool \<Rightarrow> unit res" where
  "assertE msg b = (if b then Inr () else Inl (Assert msg))"

definition loopE :: "'a option \<Rightarrow> 'a res" where
  "loopE r = (case r of None \<Rightarrow> Inl NoReturn | Some x \<Rightarrow> Inr x)"

named_theorems res_simps \<open>evaluation of results\<close>
named_theorems word_facts \<open>bit-level identities shared by the components\<close>

lemma bindE_Inl [simp, res_simps]: "bindE (Inl e) f = Inl e"
  by (simp add: bindE_def)

lemma bindE_Inr [simp, res_simps]: "bindE (Inr x) f = f x"
  by (simp add: bindE_def)

lemma bindE_eq_Inr [res_simps]: "bindE m f = Inr y \<longleftrightarrow> (\<exists>x. m = Inr x \<and> f x = Inr y)"
  by (cases m) simp_all

lemma assertE_eq_Inr [simp, res_simps]: "assertE msg b = Inr u \<longleftrightarrow> b"
  by (simp add: assertE_def)

lemma assertE_True [simp, res_simps]: "assertE msg True = Inr ()"
  by (simp add: assertE_def)

lemma loopE_Some [simp, res_simps]: "loopE (Some x) = Inr x"
  by (simp add: loopE_def)

lemma loopE_eq_Inr [res_simps]: "loopE r = Inr x \<longleftrightarrow> r = Some x"
  by (cases r) (simp_all add: loopE_def)

section \<open>Words\<close>

lemma word_and_not_mask: "(x :: 'a::len word) AND NOT (mask k) = x - take_bit k x"
proof -
  have "x = (x AND NOT (mask k)) + take_bit k x"
    by (subst disjunctive_add) (auto intro!: bit_word_eqI simp: bit_simps)
  then show ?thesis by (simp add: algebra_simps)
qed

lemma word_or_mask [word_facts]: "(x :: 'a::len word) OR mask k = x - take_bit k x + mask k"
proof -
  have "x OR mask k = (x AND NOT (mask k)) OR mask k"
    by (intro bit_word_eqI) (auto simp: bit_simps)
  also have "\<dots> = (x AND NOT (mask k)) + mask k"
    by (subst disjunctive_add) (auto simp: bit_simps)
  finally show ?thesis by (simp add: word_and_not_mask)
qed

lemma take_bit_add_push_int: "j \<le> k \<Longrightarrow> take_bit j (x + push_bit k y) = take_bit j (x :: int)"
proof -
  assume "j \<le> k"
  then have "(2 :: int) ^ k = 2 ^ (k - j) * 2 ^ j" by (simp flip: power_add)
  then have "x + y * 2 ^ k = x + (y * 2 ^ (k - j)) * 2 ^ j" by simp
  then show ?thesis by (simp only: take_bit_eq_mod push_bit_eq_mult mod_mult_self1)
qed

lemma take_bit_add_push [simp]: "take_bit k (x + push_bit k y) = take_bit k (x :: 'a::len word)"
  by transfer (simp add: take_bit_add_push_int)

lemma word_or_mask_add_push [word_facts]:
  "(x + push_bit k y) OR mask k = (x OR mask k) + push_bit k (y :: 'a::len word)"
  by (simp add: word_or_mask)

lemma sint_of_int_range: "- (2 ^ 63) \<le> k \<Longrightarrow> k < 2 ^ 63 \<Longrightarrow> sint (word_of_int k :: u64) = k"
  by (simp add: sint_sbintrunc' signed_take_bit_int_eq_self)

lemma sint_small_range:
  assumes "unat w < 2 ^ 63"
  shows "sint (w :: u64) = int (unat w)" and "sint (- w :: u64) = - int (unat w)"
proof -
  have hi: "int (unat w) < 2 ^ 63"
    using assms by (metis of_nat_less_iff of_nat_numeral of_nat_power)
  have "0 \<le> int (unat w)" "(0 :: int) < 2 ^ 63" by simp_all
  with hi have "- (2 ^ 63) \<le> int (unat w)" "- (2 ^ 63) \<le> - int (unat w)" "- int (unat w) < 2 ^ 63"
    by linarith+
  then show "sint (w :: u64) = int (unat w)" "sint (- w :: u64) = - int (unat w)"
    using sint_of_int_range [OF _ hi] sint_of_int_range [of "- int (unat w)"] by simp_all
qed

lemma unat_take_bit_mod [word_facts]: "unat (take_bit k (w :: 'a::len word)) = unat w mod 2 ^ k"
  by (simp add: unsigned_take_bit_eq take_bit_nat_def)

section \<open>Natural numbers\<close>

lemma mod_add_left_inj:
  fixes a i j m :: nat
  assumes "(a + i) mod m = (a + j) mod m" "i < m" "j < m"
  shows "i = j"
proof -
  have "(int a + int i) mod int m = (int a + int j) mod int m"
    using assms(1) by (metis of_nat_add of_nat_mod)
  then have "(int a + int i - int a) mod int m = (int a + int j - int a) mod int m"
    by (rule mod_diff_cong) simp
  then show ?thesis using assms(2,3) by simp
qed

lemma wrap_diff:
  fixes a b N :: nat
  assumes "b \<le> a" "a < N"
  shows "(a + N - b) mod N = a - b"
proof -
  have "a + N - b = N + (a - b)" using assms(1) by simp
  then show ?thesis using assms(2) by (simp only: mod_add_self1 mod_less)
qed

section \<open>Lists\<close>

lemma map_upt_Cons: "0 < l \<Longrightarrow> map f [0..<l] = f 0 # map (\<lambda>i. f (Suc i)) [0..<l - 1]"
  by (cases l) (simp_all add: upt_conv_Cons map_Suc_upt [symmetric] comp_def del: upt_Suc)

end
