(* ===== verification/Index_Queue.thy ===== *)
theory Index_Queue
  imports Prelude
begin

text \<open>
  The contract of a bounded first-in first-out queue of small indices, the only
  thing the clients of \<^verbatim>\<open>lfring.h\<close> (the scheduler's run queues, the free list of
  thread slots, the netdom transfer rings) rely on. The operations are partial, as
  the ring's loops are; the laws say that they return. A sequence of calls then
  behaves as the same sequence on a plain list.
\<close>

datatype ring_call = Enqueue u64 | Dequeue

text \<open>Running a sequence of calls collects what the dequeues returned.\<close>

fun run_calls :: "('q \<Rightarrow> u64 \<Rightarrow> 'q option) \<Rightarrow> ('q \<Rightarrow> (u64 \<times> 'q) option) \<Rightarrow>
    'q \<Rightarrow> ring_call list \<Rightarrow> (u64 list \<times> 'q) option" where
  "run_calls enq deq q [] = Some ([], q)"
| "run_calls enq deq q (Enqueue x # cs) =
     (case enq q x of None \<Rightarrow> None | Some q' \<Rightarrow> run_calls enq deq q' cs)"
| "run_calls enq deq q (Dequeue # cs) =
     (case deq q of None \<Rightarrow> None
      | Some (x, q') \<Rightarrow> map_option (\<lambda>(xs, r). (x # xs, r)) (run_calls enq deq q' cs))"

text \<open>The same sequence on the abstract queue; \<open>e\<close> is what an empty queue answers.\<close>

fun spec_calls :: "u64 \<Rightarrow> u64 list \<Rightarrow> ring_call list \<Rightarrow> u64 list \<times> u64 list" where
  "spec_calls e xs [] = ([], xs)"
| "spec_calls e xs (Enqueue x # cs) = spec_calls e (xs @ [x]) cs"
| "spec_calls e [] (Dequeue # cs) = (let (ys, r) = spec_calls e [] cs in (e # ys, r))"
| "spec_calls e (x # xs) (Dequeue # cs) = (let (ys, r) = spec_calls e xs cs in (x # ys, r))"

text \<open>Callers never put more than \<open>cap\<close> indices in, and only indices below a bound.\<close>

fun calls_fit :: "nat \<Rightarrow> (u64 \<Rightarrow> bool) \<Rightarrow> nat \<Rightarrow> ring_call list \<Rightarrow> bool" where
  "calls_fit cap ok k [] = True"
| "calls_fit cap ok k (Enqueue x # cs) = (k < cap \<and> ok x \<and> calls_fit cap ok (Suc k) cs)"
| "calls_fit cap ok k (Dequeue # cs) = calls_fit cap ok (k - 1) cs"

locale index_queue =
  fixes enq :: "'q \<Rightarrow> u64 \<Rightarrow> 'q option"
    and deq :: "'q \<Rightarrow> (u64 \<times> 'q) option"
    and items :: "'q \<Rightarrow> u64 list"
    and invar :: "'q \<Rightarrow> bool"
    and valid :: "u64 \<Rightarrow> bool"
    and capacity :: nat
    and empty_mark :: u64
  assumes enq_law: "invar q \<Longrightarrow> length (items q) < capacity \<Longrightarrow> valid x \<Longrightarrow>
      \<exists>q'. enq q x = Some q' \<and> invar q' \<and> items q' = items q @ [x]"
    and deq_Cons_law: "invar q \<Longrightarrow> items q = x # xs \<Longrightarrow>
      \<exists>q'. deq q = Some (x, q') \<and> invar q' \<and> items q' = xs"
    and deq_Nil_law: "invar q \<Longrightarrow> items q = [] \<Longrightarrow>
      \<exists>q'. deq q = Some (empty_mark, q') \<and> invar q' \<and> items q' = []"
    and valid_law: "invar q \<Longrightarrow> x \<in> set (items q) \<Longrightarrow> valid x"
    and empty_mark_law: "\<not> valid empty_mark"
begin

lemma calls_refine:
  assumes "invar q" "calls_fit capacity valid (length (items q)) cs"
  shows "\<exists>q'. run_calls enq deq q cs = Some (fst (spec_calls empty_mark (items q) cs), q') \<and>
    invar q' \<and> items q' = snd (spec_calls empty_mark (items q) cs)"
  using assms
proof (induction cs arbitrary: q)
  case (Cons c cs)
  show ?case
  proof (cases c)
    case (Enqueue x)
    then obtain q' where q': "enq q x = Some q'" "invar q'" "items q' = items q @ [x]"
      using enq_law Cons.prems by fastforce
    then show ?thesis using Cons.IH [of q'] Cons.prems Enqueue by simp
  next
    case Dequeue
    show ?thesis
    proof (cases "items q")
      case Nil
      then obtain q' where q': "deq q = Some (empty_mark, q')" "invar q'" "items q' = []"
        using deq_Nil_law Cons.prems by blast
      then show ?thesis using Cons.IH [of q'] Cons.prems Dequeue Nil
        by (auto simp: split_beta)
    next
      case (Cons y ys)
      then obtain q' where q': "deq q = Some (y, q')" "invar q'" "items q' = ys"
        using deq_Cons_law Cons.prems by blast
      then show ?thesis using Cons.IH [of q'] Cons.prems Dequeue Cons
        by (auto simp: split_beta)
    qed
  qed
qed simp

text \<open>A dequeue answers with the empty mark exactly when nothing is queued.\<close>

lemma deq_empty_iff:
  assumes "invar q" "deq q = Some (x, q')"
  shows "x = empty_mark \<longleftrightarrow> items q = []"
proof (cases "items q")
  case Nil
  then show ?thesis using deq_Nil_law [OF assms(1)] assms(2) by auto
next
  case (Cons y ys)
  then have "x = y" using deq_Cons_law [OF assms(1)] assms(2) by fastforce
  moreover have "valid y" using valid_law [OF assms(1)] Cons by simp
  ultimately show ?thesis using empty_mark_law Cons by auto
qed

text \<open>Taking an index out and handing it back keeps every index in exactly one place.\<close>

lemma enq_preserves_distinct:
  assumes "invar q" "length (items q) < capacity" "valid x" "enq q x = Some q'"
    "distinct (items q)" "x \<notin> set (items q)"
  shows "distinct (items q')"
  using enq_law [OF assms(1-3)] assms(4-6) by auto

end

end
