(* ===== verification/Lfring.thy ===== *)
theory Lfring
  imports Index_Queue
begin

text \<open>
  The lock-free ring of \<^verbatim>\<open>include/bmk-core/lfring.h\<close>: a FIFO of indices below
  \<open>2 ^ order\<close> kept in \<open>2 ^ (order + 1)\<close> entries. Each entry packs a cycle number, a safe
  bit and an index. The operations are translated with their bit arithmetic on 64-bit
  words and run by one caller at a time. The well-formedness predicate below describes
  every entry exactly, and the operations refine the queue contract \<open>index_queue\<close>: the
  loops return, in the first iteration, and the ring behaves as a list.
\<close>

section \<open>The ring and its address arithmetic\<close>

text \<open>
  The head and tail counters, the threshold that bounds the number of unsuccessful
  dequeues, and the array of \<open>2 ^ (order + 1)\<close> entries (\<^verbatim>\<open>struct __lfring\<close>). All are
  64-bit and wrap around; the threshold is read as a signed value (\<^verbatim>\<open>lfsatomic_t\<close>).
\<close>

record lfring =
  lf_head :: u64
  lf_threshold :: u64
  lf_tail :: u64
  lf_array :: "u64 list"

text \<open>
  \<^verbatim>\<open>LF_CACHE_SHIFT\<close> is 7 (128-byte lines) and entries are 8 bytes, so 16 entries share a line.
\<close>

definition LFRING_MIN :: nat where
  "LFRING_MIN = 7 - 3"

definition LFRING_EMPTY :: u64 where
  "LFRING_EMPTY = NOT 0"

text \<open>
  \<^verbatim>\<open>__lfring_cmp(x, op, y)\<close>: counters are compared by the sign of their difference.
\<close>

definition lfring_cmp_lt :: "u64 \<Rightarrow> u64 \<Rightarrow> bool" where
  "lfring_cmp_lt x y \<longleftrightarrow> sint (x - y) < 0"

definition lfring_cmp_le :: "u64 \<Rightarrow> u64 \<Rightarrow> bool" where
  "lfring_cmp_le x y \<longleftrightarrow> sint (x - y) \<le> 0"

definition lfring_cmp_ge :: "u64 \<Rightarrow> u64 \<Rightarrow> bool" where
  "lfring_cmp_ge x y \<longleftrightarrow> sint (x - y) \<ge> 0"

text \<open>
  Consecutive positions are spread over different cache lines by rotating the index bits.
\<close>

definition lfring_raw_map :: "u64 \<Rightarrow> nat \<Rightarrow> u64 \<Rightarrow> u64" where
  "lfring_raw_map idx order n =
     drop_bit (order - LFRING_MIN) (idx AND (n - 1)) OR (push_bit LFRING_MIN idx AND (n - 1))"

definition lfring_map :: "u64 \<Rightarrow> nat \<Rightarrow> u64 \<Rightarrow> u64" where
  "lfring_map idx order n = lfring_raw_map idx (order + 1) n"

definition lfring_threshold3 :: "u64 \<Rightarrow> u64 \<Rightarrow> u64" where
  "lfring_threshold3 half n = half + n - 1"

definition lfring_pow2 :: "nat \<Rightarrow> u64" where
  "lfring_pow2 order = push_bit order 1"

text \<open>
  The loops of the initialisers: write \<open>f i\<close> for \<open>k\<close> consecutive positions from \<open>i\<close> on.
\<close>

fun init_entries :: "nat \<Rightarrow> u64 \<Rightarrow> (u64 \<Rightarrow> u64) \<Rightarrow> nat \<Rightarrow> nat \<Rightarrow> u64 list \<Rightarrow> u64 list" where
  "init_entries order n f i 0 arr = arr"
| "init_entries order n f i (Suc k) arr =
     init_entries order n f (Suc i) k
       (arr[unat (lfring_map (of_nat i) order n) := f (of_nat i)])"

definition lfring_init_empty :: "lfring \<Rightarrow> nat \<Rightarrow> lfring" where
  "lfring_init_empty q order =
     (let n = lfring_pow2 (order + 1) in
      \<lparr>lf_head = 0, lf_threshold = - 1, lf_tail = 0,
       lf_array = map (\<lambda>e. - 1) (take (unat n) (lf_array q)) @ drop (unat n) (lf_array q)\<rparr>)"

definition lfring_init_full :: "lfring \<Rightarrow> nat \<Rightarrow> lfring" where
  "lfring_init_full q order =
     (let half = lfring_pow2 order; n = half * 2;
          a1 = init_entries order n (\<lambda>i. lfring_raw_map (n + i) order half) 0 (unat half) (lf_array q);
          a2 = init_entries order n (\<lambda>i. - 1) (unat half) (unat n - unat half) a1 in
      \<lparr>lf_head = 0, lf_threshold = lfring_threshold3 half n, lf_tail = half, lf_array = a2\<rparr>)"

text \<open>
  The three loops of \<^verbatim>\<open>lfring_init_fill\<close> meet their bounds when \<open>s \<le> e \<le> n\<close>.
\<close>

definition lfring_init_fill :: "lfring \<Rightarrow> nat \<Rightarrow> nat \<Rightarrow> nat \<Rightarrow> lfring" where
  "lfring_init_fill q s e order =
     (let half = lfring_pow2 order; n = half * 2;
          a1 = init_entries order n (\<lambda>i. 2 * n - 1) 0 s (lf_array q);
          a2 = init_entries order n (\<lambda>i. n + i) s (e - s) a1;
          a3 = init_entries order n (\<lambda>i. - 1) e (unat n - e) a2 in
      \<lparr>lf_head = of_nat s, lf_threshold = lfring_threshold3 half n, lf_tail = of_nat e,
       lf_array = a3\<rparr>)"

section \<open>Enqueue and dequeue\<close>

text \<open>
  One caller at a time: between the load of an entry and the compare-and-exchange on it
  nothing else writes, so the exchange succeeds and the \<^verbatim>\<open>retry\<close> label is not taken. The
  outer \<^verbatim>\<open>while (1)\<close> goes on to the next position when the entry is not usable; it has no
  bound of its own, so the loop is partial.
\<close>

partial_function (option) lfring_enqueue_loop ::
    "nat \<Rightarrow> u64 \<Rightarrow> bool \<Rightarrow> lfring \<Rightarrow> lfring option" where
  "lfring_enqueue_loop order eidx nonempty q =
     (let half = lfring_pow2 order; n = half * 2;
          tail = lf_tail q;
          q1 = q\<lparr>lf_tail := tail + 1\<rparr>;
          tcycle = push_bit 1 tail OR (2 * n - 1);
          tidx = unat (lfring_map tail order n);
          entry = lf_array q1 ! tidx;
          ecycle = entry OR (2 * n - 1) in
      if lfring_cmp_lt ecycle tcycle \<and>
         (entry = ecycle \<or> (entry = ecycle XOR n \<and> lfring_cmp_le (lf_head q1) tail))
      then let q2 = q1\<lparr>lf_array := (lf_array q1)[tidx := tcycle XOR eidx]\<rparr> in
           Some (if \<not> nonempty \<and> lf_threshold q2 \<noteq> lfring_threshold3 half n
                 then q2\<lparr>lf_threshold := lfring_threshold3 half n\<rparr> else q2)
      else lfring_enqueue_loop order eidx nonempty q1)"

declare lfring_enqueue_loop.simps [code]

definition lfring_enqueue :: "lfring \<Rightarrow> nat \<Rightarrow> u64 \<Rightarrow> bool \<Rightarrow> lfring option" where
  "lfring_enqueue q order eidx nonempty =
     (let n = lfring_pow2 order * 2 in lfring_enqueue_loop order (eidx XOR (n - 1)) nonempty q)"

text \<open>
  \<^verbatim>\<open>__lfring_catchup\<close>: the exchange on the tail fails only if the tail moved since it was
  read; then head and tail are read again and the second exchange succeeds.
\<close>

definition lfring_catchup :: "lfring \<Rightarrow> u64 \<Rightarrow> u64 \<Rightarrow> lfring" where
  "lfring_catchup q tail head =
     (if lf_tail q = tail then q\<lparr>lf_tail := head\<rparr>
      else if lfring_cmp_ge (lf_tail q) (lf_head q) then q
      else q\<lparr>lf_tail := lf_head q\<rparr>)"

text \<open>
  The inner \<^verbatim>\<open>do ... while\<close> recomputes the replacement entry; with one caller at a time
  its exchange succeeds at once, or is not attempted (\<^verbatim>\<open>break\<close>, or a newer cycle).
\<close>

partial_function (option) lfring_dequeue_loop ::
    "nat \<Rightarrow> bool \<Rightarrow> lfring \<Rightarrow> (u64 \<times> lfring) option" where
  "lfring_dequeue_loop order nonempty q =
     (let n = lfring_pow2 (order + 1);
          head = lf_head q;
          q1 = q\<lparr>lf_head := head + 1\<rparr>;
          hcycle = push_bit 1 head OR (2 * n - 1);
          hidx = unat (lfring_map head order n);
          entry = lf_array q1 ! hidx;
          ecycle = entry OR (2 * n - 1) in
      if ecycle = hcycle
      then Some (entry AND (n - 1), q1\<lparr>lf_array := (lf_array q1)[hidx := entry OR (n - 1)]\<rparr>)
      else
        let entry_new = (if entry OR n \<noteq> ecycle then entry AND NOT n
                         else hcycle XOR (NOT entry AND n));
            q2 = (if entry OR n \<noteq> ecycle \<and> entry = entry_new then q1
                  else if lfring_cmp_lt ecycle hcycle
                  then q1\<lparr>lf_array := (lf_array q1)[hidx := entry_new]\<rparr>
                  else q1) in
        if \<not> nonempty
        then if lfring_cmp_le (lf_tail q2) (head + 1)
             then let q3 = lfring_catchup q2 (lf_tail q2) (head + 1) in
                  Some (LFRING_EMPTY, q3\<lparr>lf_threshold := lf_threshold q3 - 1\<rparr>)
             else let q3 = q2\<lparr>lf_threshold := lf_threshold q2 - 1\<rparr> in
                  if sint (lf_threshold q2) \<le> 0 then Some (LFRING_EMPTY, q3)
                  else lfring_dequeue_loop order nonempty q3
        else lfring_dequeue_loop order nonempty q2)"

declare lfring_dequeue_loop.simps [code]

definition lfring_dequeue :: "lfring \<Rightarrow> nat \<Rightarrow> bool \<Rightarrow> (u64 \<times> lfring) option" where
  "lfring_dequeue q order nonempty =
     (if \<not> nonempty \<and> sint (lf_threshold q) < 0 then Some (LFRING_EMPTY, q)
      else lfring_dequeue_loop order nonempty q)"

section \<open>What a well-formed ring looks like\<close>

text \<open>
  The orders for which the address arithmetic is defined: the rotation needs at least
  \<open>LFRING_MIN\<close> index bits, and the signed comparison of cycles needs room above them.
  The program uses 9 (netdom), 15 (threads) and 17 (block queue nodes).
\<close>

definition ring_order :: "nat \<Rightarrow> bool" where
  "ring_order order \<longleftrightarrow> 4 \<le> order \<and> order \<le> 60"

definition rsize :: "nat \<Rightarrow> u64" where
  "rsize order = lfring_pow2 (Suc order)"

definition rcycle :: "nat \<Rightarrow> u64" where
  "rcycle order = push_bit (Suc (Suc order)) 1"

text \<open>The all-ones entry of the cycle that position \<open>p\<close> belongs to, and the place of \<open>p\<close>.\<close>

definition cyc :: "nat \<Rightarrow> u64 \<Rightarrow> u64" where
  "cyc order p = push_bit 1 p OR mask (Suc (Suc order))"

definition slot :: "nat \<Rightarrow> u64 \<Rightarrow> nat" where
  "slot order p = unat (lfring_map p order (rsize order))"

text \<open>
  Position \<open>p\<close> holds index \<open>x\<close>; or its entry was consumed in the previous cycle, with the
  safe bit set or cleared.
\<close>

definition busy :: "nat \<Rightarrow> u64 \<Rightarrow> u64 \<Rightarrow> u64 \<Rightarrow> bool" where
  "busy order e p x \<longleftrightarrow> e OR mask (Suc (Suc order)) = cyc order p \<and> e AND mask (Suc order) = x"

definition vacant :: "nat \<Rightarrow> u64 \<Rightarrow> u64 \<Rightarrow> bool" where
  "vacant order e p \<longleftrightarrow>
     e = cyc order p - rcycle order \<or> e = (cyc order p - rcycle order) XOR rsize order"

text \<open>The queued indices, oldest first, and the state every call leaves behind.\<close>

definition lfring_list :: "nat \<Rightarrow> lfring \<Rightarrow> u64 list" where
  "lfring_list order q =
     map (\<lambda>i. (lf_array q ! slot order (lf_head q + of_nat i)) AND mask (Suc order))
       [0..<unat (lf_tail q - lf_head q)]"

definition entry_ok :: "nat \<Rightarrow> lfring \<Rightarrow> nat \<Rightarrow> bool" where
  "entry_ok order q i \<longleftrightarrow>
     (let p = lf_head q + of_nat i; e = lf_array q ! slot order p in
      if i < unat (lf_tail q - lf_head q)
      then e OR mask (Suc (Suc order)) = cyc order p
      else vacant order e p)"

definition lfring_wf :: "nat \<Rightarrow> lfring \<Rightarrow> bool" where
  "lfring_wf order q \<longleftrightarrow>
     ring_order order \<and> length (lf_array q) = 2 ^ Suc order \<and>
     unat (lf_tail q - lf_head q) \<le> 2 ^ order \<and>
     (\<forall>i < 2 ^ Suc order. entry_ok order q i) \<and>
     (if lf_tail q = lf_head q then - 1 \<le> sint (lf_threshold q)
      else lf_threshold q = lfring_threshold3 (lfring_pow2 order) (rsize order))"

text \<open>What \<^verbatim>\<open>lfring_init_full\<close> fills in: the indices below \<open>2 ^ order\<close>, in rotated order.\<close>

definition full_entries :: "nat \<Rightarrow> u64 list" where
  "full_entries order =
     map (\<lambda>i. lfring_raw_map (rsize order + of_nat i) order (lfring_pow2 order)) [0..<2 ^ order]"

section \<open>Bit-level facts\<close>

lemma pow2_eq: "lfring_pow2 order = 2 ^ order"
  by (simp add: lfring_pow2_def push_bit_eq_mult)

lemma pow2_minus_1: "lfring_pow2 k - 1 = mask k"
  by (simp add: pow2_eq mask_eq_exp_minus_1)

lemma double_pow2_minus_1: "2 * lfring_pow2 k - 1 = mask (k + 1)"
  by (simp add: pow2_eq mask_eq_exp_minus_1)

lemma bit_raw_map:
  assumes "4 \<le> m"
  shows "bit (lfring_raw_map p m (lfring_pow2 m)) j \<longleftrightarrow>
    j < 64 \<and> (if j < 4 then m - 4 + j < 64 \<and> bit p (m - 4 + j) else j < m \<and> bit p (j - 4))"
  using assms 
  by (auto simp: lfring_raw_map_def LFRING_MIN_def pow2_minus_1 bit_simps add.commute)

lemma raw_map_eq_iff:
  assumes "4 \<le> m" "m \<le> 64"
  shows "lfring_raw_map p m (lfring_pow2 m) = lfring_raw_map p' m (lfring_pow2 m)
    \<longleftrightarrow> take_bit m p = take_bit m p'"
proof
  assume eq: "lfring_raw_map p m (lfring_pow2 m) = lfring_raw_map p' m (lfring_pow2 m)"
  show "take_bit m p = take_bit m p'"
  proof (rule bit_word_eqI)
    fix j assume j: "j < LENGTH(64)"
    show "bit (take_bit m p) j = bit (take_bit m p') j"
    proof (cases "j < m")
      case True
      let ?j = "if m - 4 \<le> j then j - (m - 4) else j + 4"
      have "bit (lfring_raw_map p m (lfring_pow2 m)) ?j = bit (lfring_raw_map p' m (lfring_pow2 m)) ?j"
        by (simp only: eq)
      with True assms j show ?thesis by (auto simp: bit_raw_map bit_take_bit_iff split: if_splits)
    qed (simp add: bit_simps)
  qed
next
  assume "take_bit m p = take_bit m p'"
  then have b: "j < m \<Longrightarrow> bit p j = bit p' j" for j by (metis bit_take_bit_iff)
  show "lfring_raw_map p m (lfring_pow2 m) = lfring_raw_map p' m (lfring_pow2 m)"
  proof (rule bit_word_eqI)
    fix j assume "j < LENGTH(64)"
    then show "bit (lfring_raw_map p m (lfring_pow2 m)) j = bit (lfring_raw_map p' m (lfring_pow2 m)) j"
      using assms by (auto simp: bit_raw_map b)
  qed
qed

lemma take_bit_raw_map:
  assumes "4 \<le> m"
  shows "take_bit m (lfring_raw_map p m (lfring_pow2 m)) = lfring_raw_map p m (lfring_pow2 m)"
  using assms by (intro bit_word_eqI) (auto simp: bit_take_bit_iff bit_raw_map)

lemma unat_raw_map_less:
  assumes "4 \<le> m" 
  shows "unat (lfring_raw_map p m (lfring_pow2 m)) < 2 ^ m"
  by (metis assms take_bit_raw_map take_bit_nat_less_exp unsigned_take_bit_eq)

lemma pow2_double: "lfring_pow2 order * 2 = rsize order"
  by (simp add: pow2_eq rsize_def)

lemma pow2_plus_1: "lfring_pow2 (order + 1) = rsize order"
  by (simp add: rsize_def)

lemma rsize_minus_1: "rsize order - 1 = mask (Suc order)"
  by (simp add: rsize_def pow2_minus_1)

lemma double_rsize_minus_1: "2 * rsize order - 1 = mask (Suc (Suc order))"
  using double_pow2_minus_1[of "Suc order"] by (simp add: rsize_def)

lemma bit_rsize: "bit (rsize order) j \<longleftrightarrow> j = Suc order \<and> j < 64"
  by (auto simp: rsize_def lfring_pow2_def bit_simps)

lemma cyc_add: "cyc order (p + rsize order) = cyc order p + rcycle order"
proof -
  have "push_bit 1 (p + rsize order) = push_bit 1 p + rcycle order"
    by (simp add: rsize_def rcycle_def pow2_eq push_bit_eq_mult algebra_simps)
  then show ?thesis unfolding cyc_def rcycle_def
    by (simp only: word_or_mask_add_push)
qed

lemma cyc_or_mask: "cyc order p OR mask (Suc (Suc order)) = cyc order p"
  by (simp add: cyc_def or.assoc)

lemma prev_cyc: "cyc order p - rcycle order = cyc order (p - rsize order)"
  using cyc_add[of order "p - rsize order"] by simp

lemma or_mask_xor_rsize: 
  "(c XOR rsize order) OR mask (Suc (Suc order)) = c OR mask (Suc (Suc order))"
  by (intro bit_word_eqI) (auto simp: bit_simps bit_rsize)

lemma slot_less: "ring_order order \<Longrightarrow> slot order p < 2 ^ Suc order"
  using unat_raw_map_less[of "Suc order" p]
  by (simp add: slot_def lfring_map_def ring_order_def rsize_def)

lemma slot_eq_iff: "ring_order order \<Longrightarrow>
    slot order p = slot order p' \<longleftrightarrow> take_bit (Suc order) p = take_bit (Suc order) p'"
  using raw_map_eq_iff[of "Suc order" p p'] 
  by (simp add: slot_def lfring_map_def ring_order_def rsize_def word_unat_eq_iff)

lemma vacant_or_mask: "vacant order e p \<Longrightarrow> e OR mask (Suc (Suc order)) = cyc order p - rcycle order"
  by (auto simp: vacant_def prev_cyc or_mask_xor_rsize cyc_or_mask)

lemma sint_neg_rcycle: "ring_order order \<Longrightarrow> sint (- rcycle order) < 0"
proof -
  assume "ring_order order"
  then have "bit (NOT (mask (Suc (Suc order))) :: u64) 63"
    by (simp add: bit_simps ring_order_def)
  moreover have "- rcycle order = NOT (mask (Suc (Suc order)))"
    by (simp only: rcycle_def push_bit_of_1 minus_exp_eq_not_mask)
  ultimately show ?thesis by (simp add: bit_last_iff[symmetric])
qed

lemma vacant_cmp: "ring_order order \<Longrightarrow> vacant order e p \<Longrightarrow> lfring_cmp_lt (e OR mask (Suc (Suc order))) (cyc order p)"
  by (simp only: vacant_or_mask lfring_cmp_lt_def) (simp add: sint_neg_rcycle)

lemma vacant_test: "vacant order e p \<Longrightarrow>
    e = e OR mask (Suc (Suc order)) \<or> e = (e OR mask (Suc (Suc order))) XOR rsize order"
  using vacant_or_mask[of order e p] by (auto simp: vacant_def)

lemma busy_store:
  assumes "take_bit (Suc order) x = x"
  shows "busy order (cyc order p XOR (x XOR mask (Suc order))) p x"
proof -
  have b: "bit x j \<Longrightarrow> j < Suc order" for j
    by (metis assms bit_take_bit_iff)
  have "(cyc order p XOR (x XOR mask (Suc order))) OR mask (Suc (Suc order)) = cyc order p"
    by (intro bit_word_eqI) (auto simp: bit_simps cyc_def dest: b)
  moreover have "(cyc order p XOR (x XOR mask (Suc order))) AND mask (Suc order) = x"
    by (intro bit_word_eqI) (auto simp: bit_simps cyc_def dest: b)
  ultimately show ?thesis by (simp add: busy_def)
qed

lemma or_mask_pred: 
  "e OR mask (Suc order) = e OR mask (Suc (Suc order)) \<or> e OR mask (Suc order) = (e OR mask (Suc (Suc order))) XOR rsize order"
proof (cases "bit e (Suc order)")
  case True
  then have "e OR mask (Suc order) = e OR mask (Suc (Suc order))"
    by (intro bit_word_eqI) (auto simp: bit_simps less_Suc_eq)
  then show ?thesis ..
next
  case False
  then have "e OR mask (Suc order) = (e OR mask (Suc (Suc order))) XOR rsize order"
    by (intro bit_word_eqI) (auto simp: bit_simps bit_rsize less_Suc_eq)
  then show ?thesis ..
qed

lemma busy_consume: "busy order e p x \<Longrightarrow> vacant order (e OR mask (Suc order)) (p + rsize order)"
  using or_mask_pred[of e order] by (simp add: busy_def vacant_def cyc_add)

lemma vacant_next:
  "vacant order (cyc order p XOR (NOT e AND rsize order)) (p + rsize order)"
proof (cases "bit e (Suc order)")
  case True
  then have "NOT e AND rsize order = 0"
    by (intro bit_word_eqI) (auto simp: bit_simps bit_rsize)
  then show ?thesis by (simp add: vacant_def cyc_add)
next
  case False
  then have "NOT e AND rsize order = rsize order"
    by (intro bit_word_eqI) (auto simp: bit_simps bit_rsize)
  then show ?thesis by (simp add: vacant_def cyc_add)
qed

lemma vacant_skip:
  assumes "vacant order e p" 
  shows "e OR rsize order = e OR mask (Suc (Suc order))"
  using assms unfolding vacant_def prev_cyc
  by (elim disjE; intro bit_word_eqI) (auto simp: bit_simps bit_rsize cyc_def)

section \<open>Positions and slots\<close>

lemma slot_inj:
  assumes o: "ring_order order" and i: "i < 2 ^ Suc order" and j: "j < 2 ^ Suc order"
    and eq: "slot order (p + of_nat i) = slot order (p + of_nat j)"
  shows "i = j"
proof -
  have k: "Suc order \<le> 64" using o by (simp add: ring_order_def)
  then have d: "(2::nat) ^ Suc order dvd 2 ^ 64" by (rule le_imp_power_dvd)
  have u: "unat (p + of_nat l) mod 2 ^ Suc order = (unat p + l) mod 2 ^ Suc order" for l
  proof -
    have "p + of_nat l = of_nat (unat p + l)" by simp
    then have "unat (p + of_nat l) = (unat p + l) mod 2 ^ 64"
      by (simp only: unat_of_nat) simp
    then show ?thesis by (simp only: mod_mod_cancel[OF d])
  qed
  have "unat (take_bit (Suc order) (p + of_nat i)) = unat (take_bit (Suc order) (p + of_nat j))"
    using eq slot_eq_iff[OF o] by simp
  then have "(unat p + i) mod 2 ^ Suc order = (unat p + j) mod 2 ^ Suc order"
    by (simp only: unat_take_bit_mod u)
  then show ?thesis using i j by (rule mod_add_left_inj)
qed

section \<open>The operations refine the list\<close>

lemma wf_length: "lfring_wf order q \<Longrightarrow> length (lfring_list order q) \<le> 2 ^ order"
  by (simp add: lfring_wf_def lfring_list_def)

lemma slot_rsize: "ring_order order \<Longrightarrow> slot order (p + rsize order) = slot order p"
  using take_bit_add_push [of "Suc order" p 1]
  by (simp add: slot_eq_iff rsize_def lfring_pow2_def del: take_bit_add_push)

lemma of_nat_rsize: "of_nat (2 ^ Suc order) = rsize order"
  by (simp add: rsize_def pow2_eq)

lemma enqueue_guard:
  assumes "ring_order order" "vacant order e p" "lfring_cmp_le h p"
  shows "lfring_cmp_lt (e OR mask (Suc (Suc order))) (cyc order p)"
    and "(e = e OR mask (Suc (Suc order)) \<or>
      e = (e OR mask (Suc (Suc order))) XOR rsize order \<and> lfring_cmp_le h p) = True"
proof -
  show "lfring_cmp_lt (e OR mask (Suc (Suc order))) (cyc order p)"
    using assms(1,2) by (rule vacant_cmp)
  show "(e = e OR mask (Suc (Suc order)) \<or>
      e = (e OR mask (Suc (Suc order))) XOR rsize order \<and> lfring_cmp_le h p) = True"
    using vacant_test [OF assms(2)] assms(3) by metis
qed

lemma enqueue_loop_unfold:
  "lfring_enqueue_loop order eidx nonempty q =
     (let t = lf_tail q; e = lf_array q ! slot order t; ec = e OR mask (Suc (Suc order)) in
      if lfring_cmp_lt ec (cyc order t) \<and>
         (e = ec \<or> e = ec XOR rsize order \<and> lfring_cmp_le (lf_head q) t)
      then let q2 = q\<lparr>lf_tail := t + 1,
             lf_array := (lf_array q)[slot order t := cyc order t XOR eidx]\<rparr> in
           Some (if \<not> nonempty \<and> lf_threshold q2 \<noteq> lfring_threshold3 (lfring_pow2 order) (rsize order)
                 then q2\<lparr>lf_threshold := lfring_threshold3 (lfring_pow2 order) (rsize order)\<rparr> else q2)
      else lfring_enqueue_loop order eidx nonempty (q\<lparr>lf_tail := t + 1\<rparr>))"
  by (cases q, subst lfring_enqueue_loop.simps)
     (simp only: Let_def pow2_double double_rsize_minus_1 cyc_def slot_def lfring.simps)

lemma enqueue_step:
  assumes wf: "lfring_wf order q" and room: "length (lfring_list order q) < 2 ^ order"
  shows "lfring_enqueue q order x False = Some
    \<lparr>lf_head = lf_head q, lf_threshold = lfring_threshold3 (lfring_pow2 order) (rsize order),
     lf_tail = lf_tail q + 1, 
     lf_array = (lf_array q)[slot order (lf_tail q) := cyc order (lf_tail q) XOR (x XOR mask (Suc order))]\<rparr>"
proof -
  let ?l = "unat (lf_tail q - lf_head q)"
  have tl: "lf_head q + of_nat ?l = lf_tail q" by simp
  have o: "ring_order order" using wf by (simp add: lfring_wf_def)
  have l: "?l < 2 ^ order" using room by (simp add: lfring_list_def)
  have v: "vacant order (lf_array q ! slot order (lf_tail q)) (lf_tail q)"
  proof -
    have "?l < 2 ^ Suc order" using l by simp
    with wf have "entry_ok order q ?l" by (simp add: lfring_wf_def)
    then show ?thesis by (simp add: entry_ok_def Let_def)
  qed
  have "?l < 2 ^ 63"
  proof -
    have "order < 63" using o by (simp add: ring_order_def)
    then have "(2::nat) ^ order < 2 ^ 63" by (rule power_strict_increasing) simp
    with l show ?thesis by linarith
  qed
  then have "sint (- (lf_tail q - lf_head q)) \<le> 0" by (simp only: sint_small_range)
  then have le: "lfring_cmp_le (lf_head q) (lf_tail q)"
    by (simp add: lfring_cmp_le_def)
  note guard = enqueue_guard [OF o v le]
  show ?thesis
    unfolding lfring_enqueue_def pow2_double rsize_minus_1 Let_def
    by (subst enqueue_loop_unfold, simp only: Let_def guard simp_thms if_True, cases q) simp
qed

lemma order_bound: "ring_order order \<Longrightarrow> (2::nat) ^ Suc order < 2 ^ 63"
  unfolding ring_order_def by (rule power_strict_increasing) simp_all

lemma array_update_slot:
  assumes "ring_order order" "length a = 2 ^ Suc order" "i < 2 ^ Suc order" "k < 2 ^ Suc order"
  shows "a[slot order (h + of_nat k) := v] ! slot order (h + of_nat i) =
    (if i = k then v else a ! slot order (h + of_nat i))"
  using slot_inj [OF assms(1), of i k h] assms slot_less [OF assms(1)]
  by (auto simp: nth_list_update)

lemma unat_succ: "unat (w :: u64) < 2 ^ 63 \<Longrightarrow> unat (w + 1) = Suc (unat w)"
  by (simp add: unat_word_ariths)

lemma lfring_enqueue_refines:
  assumes wf: "lfring_wf order q" and room: "length (lfring_list order q) < 2 ^ order"
    and x: "take_bit (Suc order) x = x"
  shows "\<exists>q'. lfring_enqueue q order x False = Some q' \<and> lfring_wf order q' \<and>
    lfring_list order q' = lfring_list order q @ [x]"
proof -
  let ?h = "lf_head q" and ?t = "lf_tail q"
  let ?l = "unat (?t - ?h)" and ?T = "lfring_threshold3 (lfring_pow2 order) (rsize order)"
  let ?v = "cyc order ?t XOR (x XOR mask (Suc order))"
  let ?a' = "(lf_array q)[slot order ?t := ?v]"
  have o: "ring_order order" and len: "length (lf_array q) = 2 ^ Suc order"
    using wf by (simp_all add: lfring_wf_def)
  have l: "?l < 2 ^ order" using room by (simp add: lfring_list_def)
  then have l': "?l < 2 ^ Suc order" by simp
  have tl: "?h + of_nat ?l = ?t" by simp
  have "?l < 2 ^ 63" using l' order_bound [OF o] by linarith
  then have l1: "unat (?t + 1 - ?h) = Suc ?l"
    using unat_succ [of "?t - ?h"] by (simp add: algebra_simps)
  have arr: "?a' ! slot order (?h + of_nat i) =
      (if i = ?l then ?v else lf_array q ! slot order (?h + of_nat i))"
    if "i < 2 ^ Suc order" for i
    using array_update_slot [OF o len that l', of ?h ?v] by simp
  have b: "busy order ?v ?t x" by (rule busy_store [OF x])
  define q' where "q' = \<lparr>lf_head = ?h, lf_threshold = ?T, lf_tail = ?t + 1, lf_array = ?a'\<rparr>"
  have "entry_ok order q' i" if i: "i < 2 ^ Suc order" for i
  proof -
    have "entry_ok order q i" using wf i by (simp add: lfring_wf_def)
    then show ?thesis using arr [OF i] b l1
      by (auto simp: entry_ok_def Let_def q'_def busy_def less_Suc_eq split: if_splits)
  qed
  then have "lfring_wf order q'"
    using o len l l1 by (auto simp: lfring_wf_def q'_def)
  moreover have "lfring_list order q' = lfring_list order q @ [x]"
    using l1 l' b arr arr [OF l'] by (auto simp: lfring_list_def q'_def busy_def)
  ultimately show ?thesis
    using enqueue_step [OF wf room, of x] unfolding q'_def by blast
qed

lemma dequeue_loop_unfold:
  "lfring_dequeue_loop order nonempty q =
     (let h = lf_head q; e = lf_array q ! slot order h; ec = e OR mask (Suc (Suc order));
          q1 = q\<lparr>lf_head := h + 1\<rparr> in
      if ec = cyc order h
      then Some (e AND mask (Suc order),
             q1\<lparr>lf_array := (lf_array q)[slot order h := e OR mask (Suc order)]\<rparr>)
      else
        let e' = (if e OR rsize order \<noteq> ec then e AND NOT (rsize order)
                  else cyc order h XOR (NOT e AND rsize order));
            q2 = (if e OR rsize order \<noteq> ec \<and> e = e' then q1
                  else if lfring_cmp_lt ec (cyc order h)
                  then q1\<lparr>lf_array := (lf_array q)[slot order h := e']\<rparr>
                  else q1) in
        if \<not> nonempty
        then if lfring_cmp_le (lf_tail q2) (h + 1)
             then let q3 = lfring_catchup q2 (lf_tail q2) (h + 1) in
                  Some (LFRING_EMPTY, q3\<lparr>lf_threshold := lf_threshold q3 - 1\<rparr>)
             else let q3 = q2\<lparr>lf_threshold := lf_threshold q2 - 1\<rparr> in
                  if sint (lf_threshold q2) \<le> 0 then Some (LFRING_EMPTY, q3)
                  else lfring_dequeue_loop order nonempty q3
        else lfring_dequeue_loop order nonempty q2)"
  by (cases q, subst lfring_dequeue_loop.simps)
     (simp only: Let_def pow2_plus_1 rsize_minus_1 double_rsize_minus_1 cyc_def slot_def lfring.simps)

lemma threshold3_nonneg: "ring_order order \<Longrightarrow>
    0 \<le> sint (lfring_threshold3 (lfring_pow2 order) (rsize order))"
proof -
  assume o: "ring_order order"
  let ?k = "2 ^ order + 2 ^ Suc order - 1 :: nat"
  have "order \<le> 60" using o by (simp add: ring_order_def)
  then have "(2::nat) ^ order \<le> 2 ^ 60" by (rule power_increasing) simp
  then have k: "?k < 2 ^ 63" by simp
  have "lfring_threshold3 (lfring_pow2 order) (rsize order) = of_nat ?k"
    by (simp add: lfring_threshold3_def rsize_def pow2_eq of_nat_diff)
  moreover have "unat (of_nat ?k :: u64) < 2 ^ 63"
    using k by (metis le_less_trans unat_of_nat mod_less_eq_dividend)
  ultimately show ?thesis by (simp only: sint_small_range)
qed

lemma dequeue_step_nonempty:
  assumes wf: "lfring_wf order q" and ne: "lf_tail q \<noteq> lf_head q"
  shows "lfring_dequeue q order False = Some
    ((lf_array q ! slot order (lf_head q)) AND mask (Suc order),
     q\<lparr>lf_head := lf_head q + 1,
       lf_array := (lf_array q)[slot order (lf_head q) :=
         (lf_array q ! slot order (lf_head q)) OR mask (Suc order)]\<rparr>)"
proof -
  have o: "ring_order order" and "entry_ok order q 0"
    using wf by (simp_all add: lfring_wf_def)
  moreover have "0 < unat (lf_tail q - lf_head q)"
    using ne by (simp add: unat_gt_0)
  ultimately have e: "(lf_array q ! slot order (lf_head q)) OR mask (Suc (Suc order)) = cyc order (lf_head q)"
    by (simp add: entry_ok_def Let_def)
  have t: "\<not> sint (lf_threshold q) < 0"
    using wf ne threshold3_nonneg [OF o] by (simp add: lfring_wf_def)
  show ?thesis
    unfolding lfring_dequeue_def
    by (subst dequeue_loop_unfold, simp only: Let_def e t simp_thms if_True if_False)
qed

lemma vacant_neq: "ring_order order \<Longrightarrow> vacant order e p \<Longrightarrow> e OR mask (Suc (Suc order)) \<noteq> cyc order p"
  using vacant_cmp [of order e p] by (auto simp: lfring_cmp_lt_def)

lemma dequeue_step_empty:
  assumes wf: "lfring_wf order q" and e: "lf_tail q = lf_head q"
  shows "lfring_dequeue q order False = Some (LFRING_EMPTY,
    if sint (lf_threshold q) < 0 then q
    else q\<lparr>lf_head := lf_head q + 1, lf_tail := lf_head q + 1,
       lf_threshold := lf_threshold q - 1,
       lf_array := (lf_array q)[slot order (lf_head q) :=
         cyc order (lf_head q) XOR (NOT (lf_array q ! slot order (lf_head q)) AND rsize order)]\<rparr>)"
proof (cases "sint (lf_threshold q) < 0")
  case True
  then show ?thesis by (simp add: lfring_dequeue_def)
next
  case False
  have o: "ring_order order" and "entry_ok order q 0"
    using wf by (simp_all add: lfring_wf_def)
  then have v: "vacant order (lf_array q ! slot order (lf_head q)) (lf_head q)"
    using e by (simp add: entry_ok_def Let_def)
  have le: "lfring_cmp_le (lf_head q) (lf_head q + 1)" by (simp add: lfring_cmp_le_def)
  show ?thesis using False e le
    unfolding lfring_dequeue_def
    by (subst dequeue_loop_unfold) (simp add: Let_def vacant_neq [OF o v] vacant_skip [OF v] vacant_cmp [OF o v] lfring_catchup_def)
qed

lemma sint_pred: "0 \<le> sint (w :: u64) \<Longrightarrow> sint (w - 1) = sint w - 1"
proof -
  assume nn: "0 \<le> sint w"
  have "sint w < 2 ^ 63" using sint_lt [of w] by simp
  with nn have "sint (word_of_int (sint w - 1) :: u64) = sint w - 1"
    by (intro sint_of_int_range) auto
  then show ?thesis by simp
qed

lemma head_succ: "lf_head q + 1 + of_nat i = lf_head q + of_nat (Suc i)"
  by simp

lemma lfring_dequeue_refines_Cons:
  assumes wf: "lfring_wf order q" and xs: "lfring_list order q = x # xs"
  shows "\<exists>q'. lfring_dequeue q order False = Some (x, q') \<and> lfring_wf order q' \<and>
    lfring_list order q' = xs"
proof -
  let ?h = "lf_head q" and ?t = "lf_tail q"
  let ?l = "unat (?t - ?h)" and ?v = "(lf_array q ! slot order (lf_head q)) OR mask (Suc order)"
  let ?a' = "(lf_array q)[slot order ?h := ?v]"
  have o: "ring_order order" and len: "length (lf_array q) = 2 ^ Suc order"
    and lb: "?l \<le> 2 ^ order" and ok: "i < 2 ^ Suc order \<Longrightarrow> entry_ok order q i" for i
    using wf by (simp_all add: lfring_wf_def)
  have "length (lfring_list order q) = ?l" by (simp add: lfring_list_def)
  then have l0: "0 < ?l" using xs by simp
  then have ne: "?t \<noteq> ?h" by auto
  have l1: "unat (?t - (?h + 1)) = ?l - 1"
    using ne unat_minus_one [of "?t - ?h"] by (simp add: algebra_simps)
  have arr: "?a' ! slot order (?h + of_nat i) =
      (if i = 0 then ?v else lf_array q ! slot order (?h + of_nat i))"
    if "i < 2 ^ Suc order" for i
    using array_update_slot [OF o len that, of 0 ?h ?v] by simp
  have "busy order (lf_array q ! slot order ?h) ?h ((lf_array q ! slot order ?h) AND mask (Suc order))"
    using ok [of 0] l0 by (simp add: busy_def entry_ok_def Let_def)
  from busy_consume [OF this] have v: "vacant order ?v (?h + rsize order)" .
  define q' where "q' = q\<lparr>lf_head := ?h + 1, lf_array := ?a'\<rparr>"
  have "entry_ok order q' i" if i: "i < 2 ^ Suc order" for i
  proof (cases "Suc i = 2 ^ Suc order")
    case True
    have p: "?h + 1 + of_nat i = ?h + rsize order"
      by (simp only: head_succ True of_nat_rsize)
    have "\<not> i < ?l - 1" using lb True by simp
    then show ?thesis using l1 v len slot_less [OF o, of ?h]
      by (simp add: entry_ok_def Let_def q'_def p slot_rsize [OF o] del: of_nat_Suc)
  next
    case False
    with i have i': "Suc i < 2 ^ Suc order" by simp
    show ?thesis using ok [OF i'] arr [OF i'] l1 l0
      by (auto simp add: entry_ok_def Let_def q'_def head_succ simp del: of_nat_Suc split: if_splits)
  qed
  then have "lfring_wf order q'"
    using wf ne l1 lb threshold3_nonneg [OF o] by (auto simp: lfring_wf_def q'_def)
  moreover have split: "lfring_list order q = ((lf_array q ! slot order ?h) AND mask (Suc order)) #
      map (\<lambda>i. (lf_array q ! slot order (?h + of_nat (Suc i))) AND mask (Suc order)) [0..<?l - 1]"
    unfolding lfring_list_def by (subst map_upt_Cons [OF l0]) simp
  moreover have "lfring_list order q' =
      map (\<lambda>i. (lf_array q ! slot order (?h + of_nat (Suc i))) AND mask (Suc order)) [0..<?l - 1]"
    unfolding lfring_list_def q'_def using lb l0 l1 arr
    by (auto simp add: head_succ simp del: of_nat_Suc)
  ultimately show ?thesis
    using dequeue_step_nonempty [OF wf ne] xs unfolding q'_def by simp
qed

lemma lfring_dequeue_refines_Nil:
  assumes wf: "lfring_wf order q" and xs: "lfring_list order q = []"
  shows "\<exists>q'. lfring_dequeue q order False = Some (LFRING_EMPTY, q') \<and> lfring_wf order q' \<and>
    lfring_list order q' = []"
proof -
  let ?h = "lf_head q"
  let ?v = "cyc order ?h XOR (NOT (lf_array q ! slot order ?h) AND rsize order)"
  let ?a' = "(lf_array q)[slot order ?h := ?v]"
  have o: "ring_order order" and len: "length (lf_array q) = 2 ^ Suc order"
    and ok: "i < 2 ^ Suc order \<Longrightarrow> entry_ok order q i" for i
    using wf by (simp_all add: lfring_wf_def)
  have e: "lf_tail q = ?h"
    using xs by (simp add: lfring_list_def unat_eq_zero)
  show ?thesis
  proof (cases "sint (lf_threshold q) < 0")
    case True
    then show ?thesis using dequeue_step_empty [OF wf e] wf xs by simp
  next
    case False
    define q' where "q' = q\<lparr>lf_head := ?h + 1, lf_tail := ?h + 1,
       lf_threshold := lf_threshold q - 1, lf_array := ?a'\<rparr>"
    have arr: "?a' ! slot order (?h + of_nat i) =
        (if i = 0 then ?v else lf_array q ! slot order (?h + of_nat i))"
      if "i < 2 ^ Suc order" for i
      using array_update_slot [OF o len that, of 0 ?h ?v] by simp
    have "entry_ok order q' i" if i: "i < 2 ^ Suc order" for i
    proof (cases "Suc i = 2 ^ Suc order")
      case True
      have p: "?h + 1 + of_nat i = ?h + rsize order"
        by (simp only: head_succ True of_nat_rsize)
      show ?thesis using vacant_next [of order ?h] len slot_less [OF o, of ?h]
        by (simp add: entry_ok_def Let_def q'_def p slot_rsize [OF o] del: of_nat_Suc)
    next
      case False
      with i have i': "Suc i < 2 ^ Suc order" by simp
      show ?thesis using ok [OF i'] arr [OF i'] e
        by (simp add: entry_ok_def Let_def q'_def head_succ del: of_nat_Suc)
    qed
    then have "lfring_wf order q'"
      using wf False sint_pred [of "lf_threshold q"] by (auto simp: lfring_wf_def q'_def)
    moreover have "lfring_list order q' = []" by (simp add: lfring_list_def q'_def)
    ultimately show ?thesis
      using dequeue_step_empty [OF wf e] False unfolding q'_def by simp
  qed
qed
section \<open>Initialisation\<close>

lemma cyc_small:
  assumes "take_bit (Suc order) p = p"
  shows "cyc order p = mask (Suc (Suc order))"
proof -
  have b: "bit p j \<Longrightarrow> j < Suc order" for j by (metis assms bit_take_bit_iff)
  show ?thesis unfolding cyc_def
    by (intro bit_word_eqI) (use b in \<open>auto simp: bit_simps simp del: push_bit_Suc dest!: b\<close>)
qed

lemma mask_minus_rcycle: "mask (Suc (Suc order)) - rcycle order = - 1"
  by (simp add: rcycle_def mask_eq_exp_minus_1 push_bit_eq_mult)

lemma take_bit_of_nat: "i < 2 ^ k \<Longrightarrow> k \<le> 64 \<Longrightarrow> take_bit k (of_nat i :: u64) = of_nat i"
  by (metis take_bit_nat_eq_self take_bit_of_nat)

lemma vacant_minus_one: "i < 2 ^ Suc order \<Longrightarrow> ring_order order \<Longrightarrow> vacant order (- 1) (of_nat i)"
  by (simp add: vacant_def cyc_small take_bit_of_nat mask_minus_rcycle ring_order_def)

lemma unat_pow2: "k < 64 \<Longrightarrow> unat (lfring_pow2 k) = 2 ^ k"
proof -
  assume "k < 64"
  then have "(2::nat) ^ k < 2 ^ 64" by (rule power_strict_increasing) simp
  then have "unat (of_nat (2 ^ k) :: u64) = 2 ^ k" by (simp only: unat_of_nat) simp
  then show ?thesis by (simp add: pow2_eq)
qed

lemma unat_rsize: "ring_order order \<Longrightarrow> unat (rsize order) = 2 ^ Suc order"
  unfolding rsize_def ring_order_def by (rule unat_pow2) simp

lemma length_init_entries [simp]: "length (init_entries order n f i k arr) = length arr"
  by (induction k arbitrary: i arr) simp_all

lemma nth_init_entries:
  assumes "ring_order order" "length arr = 2 ^ Suc order" "i + k \<le> 2 ^ Suc order" "j < 2 ^ Suc order"
  shows "init_entries order (rsize order) f i k arr ! slot order (of_nat j) =
    (if i \<le> j \<and> j < i + k then f (of_nat j) else arr ! slot order (of_nat j))"
  using assms
proof (induction k arbitrary: i arr)
  case (Suc k)
  have "slot order (of_nat i) = slot order (of_nat j) \<longleftrightarrow> i = j"
    using slot_inj [OF Suc.prems(1), of i j 0] Suc.prems by auto
  moreover have "slot order (of_nat j) < length arr"
    using slot_less [OF Suc.prems(1)] Suc.prems(2) by simp
  ultimately show ?case using Suc
    by (auto simp: slot_def [symmetric] nth_list_update)
qed auto

lemma lfring_init_empty_refines:
  assumes "ring_order order" "length (lf_array q) = 2 ^ Suc order"
  shows "lfring_wf order (lfring_init_empty q order)"
    and "lfring_list order (lfring_init_empty q order) = []"
proof -
  let ?q = "lfring_init_empty q order"
  have u: "unat (lfring_pow2 (order + 1)) = 2 ^ Suc order"
    using unat_rsize [OF assms(1)] by (simp only: pow2_plus_1)
  then have q: "?q = \<lparr>lf_head = 0, lf_threshold = - 1, lf_tail = 0, lf_array = replicate (2 ^ Suc order) (- 1)\<rparr>"
    using assms(2) by (simp add: lfring_init_empty_def map_replicate_const)
  have "entry_ok order ?q i" if "i < 2 ^ Suc order" for i
    using that slot_less [OF assms(1)] vacant_minus_one [OF that assms(1)] by (simp add: entry_ok_def q)
  then show "lfring_wf order ?q" using assms(1) by (simp add: lfring_wf_def q)
  show "lfring_list order ?q = []" by (simp add: lfring_list_def q)
qed

lemma raw_map_small:
  assumes "ring_order order"
  shows "take_bit order (lfring_raw_map p order (lfring_pow2 order)) = lfring_raw_map p order (lfring_pow2 order)"
  using assms take_bit_raw_map [of order p] by (simp add: ring_order_def)

lemma or_mask_small: "take_bit k (e :: u64) = e \<Longrightarrow> k \<le> m \<Longrightarrow> e OR mask m = mask m"
proof -
  assume a: "take_bit k e = e" "k \<le> m"
  then have "bit e j \<Longrightarrow> j < m" for j by (metis bit_take_bit_iff order_less_le_trans)
  then show ?thesis by (intro bit_word_eqI) (auto simp: bit_simps)
qed

lemma and_mask_small: "take_bit k (e :: u64) = e \<Longrightarrow> k \<le> m \<Longrightarrow> e AND mask m = e"
proof -
  assume a: "take_bit k e = e" "k \<le> m"
  then have "bit e j \<Longrightarrow> j < m" for j by (metis bit_take_bit_iff order_less_le_trans)
  then show ?thesis by (intro bit_word_eqI) (auto simp: bit_simps)
qed

lemma lfring_init_full_refines:
  assumes o: "ring_order order" and len: "length (lf_array q) = 2 ^ Suc order"
  shows "lfring_wf order (lfring_init_full q order)"
    and "lfring_list order (lfring_init_full q order) = full_entries order"
proof -
  let ?q = "lfring_init_full q order"
  let ?f = "\<lambda>i. lfring_raw_map (rsize order + i) order (lfring_pow2 order)"
  let ?a1 = "init_entries order (rsize order) ?f 0 (2 ^ order) (lf_array q)"
  let ?a = "init_entries order (rsize order) (\<lambda>i. - 1) (2 ^ order) (2 ^ order) ?a1"
  have u: "unat (lfring_pow2 order) = 2 ^ order" using o by (simp add: unat_pow2 ring_order_def)
  have q: "?q = \<lparr>lf_head = 0, lf_threshold = lfring_threshold3 (lfring_pow2 order) (rsize order),
      lf_tail = lfring_pow2 order, lf_array = ?a\<rparr>"
    by (simp add: lfring_init_full_def Let_def pow2_double u unat_rsize [OF o])
  have nth: "?a ! slot order (of_nat i) = (if i < 2 ^ order then ?f (of_nat i) else - 1)"
    if "i < 2 ^ Suc order" for i
    using that by (simp add: nth_init_entries [OF o] len)
  have small: "take_bit order (?f p) = ?f p" for p by (rule raw_map_small [OF o])
  have "entry_ok order ?q i" if i: "i < 2 ^ Suc order" for i
  proof -
    have "cyc order (of_nat i) = mask (Suc (Suc order))"
      using i o by (simp add: cyc_small take_bit_of_nat ring_order_def)
    then show ?thesis using nth [OF i] vacant_minus_one [OF i o] or_mask_small [OF small]
      by (simp add: entry_ok_def Let_def q u)
  qed
  then show "lfring_wf order ?q" using o len u by (auto simp: lfring_wf_def q)
  have "?f p AND mask (Suc order) = ?f p" for p
    by (rule and_mask_small [OF small]) simp
  then show "lfring_list order ?q = full_entries order"
    using nth by (simp add: lfring_list_def q u full_entries_def)
qed

lemma full_entries_distinct:
  assumes o: "ring_order order" shows "distinct (full_entries order)"
proof -
  have "i = j" if ij: "i < 2 ^ order" "j < 2 ^ order" and
    "lfring_raw_map (rsize order + of_nat i) order (lfring_pow2 order) =
     lfring_raw_map (rsize order + of_nat j) order (lfring_pow2 order)" for i j
  proof -
    have "take_bit order (of_nat i + rsize order) = take_bit order (of_nat j + rsize order)"
      using that o by (simp add: raw_map_eq_iff ring_order_def add.commute)
    moreover have "rsize order = push_bit order 2"
      by (simp add: rsize_def pow2_eq push_bit_eq_mult)
    ultimately have "take_bit order (of_nat i :: u64) = take_bit order (of_nat j)"
      by (simp only: take_bit_add_push)
    then have "unat (of_nat i :: u64) = unat (of_nat j :: u64)"
      using ij o by (simp add: take_bit_of_nat ring_order_def)
    moreover have "(2::nat) ^ order < 2 ^ 64" 
      using order_bound [OF o] by simp
    ultimately show "i = j" using ij by (simp add: unat_of_nat)
  qed
  then show ?thesis unfolding full_entries_def distinct_map by (auto intro!: inj_onI)
qed

lemma full_entries_set:
  assumes o: "ring_order order" shows "set (full_entries order) = {x. unat x < 2 ^ order}"
proof (rule card_seteq)
  let ?B = "{x :: u64. unat x < 2 ^ order}"
  have "x \<in> of_nat ` {..<2 ^ order}" if "x \<in> ?B" for x
  proof -
    have "x = of_nat (unat x)" by simp
    with that show ?thesis by blast
  qed
  then have "card ?B \<le> card (of_nat ` {..<2 ^ order :: nat} :: u64 set)"
    by (intro card_mono) auto
  also have "\<dots> \<le> 2 ^ order" using card_image_le [of "{..<2 ^ order :: nat}"] by simp
  also have "2 ^ order = card (set (full_entries order))"
    using distinct_card [OF full_entries_distinct [OF o]] by (simp add: full_entries_def)
  finally show "card ?B \<le> card (set (full_entries order))" .
  show "finite ?B" by simp
  show "set (full_entries order) \<subseteq> ?B"
    using unat_raw_map_less [of order] o by (auto simp: full_entries_def ring_order_def)
qed

section \<open>The contract\<close>

lemma lfring_index_queue:
  assumes o: "ring_order order"
  shows "index_queue (\<lambda>q x. lfring_enqueue q order x False) (\<lambda>q. lfring_dequeue q order False)
    (lfring_list order) (lfring_wf order) (\<lambda>x. take_bit (Suc order) x = x) (2 ^ order) LFRING_EMPTY"
proof
  fix q x
  assume "lfring_wf order q" "x \<in> set (lfring_list order q)"
  then show "take_bit (Suc order) x = x"
    by (auto simp: lfring_list_def simp flip: take_bit_eq_mask)
next
  have "\<not> bit (take_bit (Suc order) LFRING_EMPTY) 63" "bit LFRING_EMPTY 63"
    using o by (simp_all add: LFRING_EMPTY_def bit_simps ring_order_def)
  then show "take_bit (Suc order) LFRING_EMPTY \<noteq> LFRING_EMPTY" by metis
qed (blast intro: lfring_enqueue_refines lfring_dequeue_refines_Cons lfring_dequeue_refines_Nil)+

text \<open>The three orders the program instantiates.\<close>

definition NETDOM_RING_ORDER :: nat where
  "NETDOM_RING_ORDER = 9"

definition BMK_MAX_THREADS_ORDER :: nat where
  "BMK_MAX_THREADS_ORDER = 15"

definition BMK_MAX_BLOCKQ_ORDER :: nat where
  "BMK_MAX_BLOCKQ_ORDER = 17"

lemma program_orders:
  "ring_order NETDOM_RING_ORDER" "ring_order BMK_MAX_THREADS_ORDER" "ring_order BMK_MAX_BLOCKQ_ORDER"
  by (simp_all add: ring_order_def NETDOM_RING_ORDER_def BMK_MAX_THREADS_ORDER_def
      BMK_MAX_BLOCKQ_ORDER_def)

interpretation netdom_ring: index_queue
  "\<lambda>q x. lfring_enqueue q NETDOM_RING_ORDER x False" "\<lambda>q. lfring_dequeue q NETDOM_RING_ORDER False"
  "lfring_list NETDOM_RING_ORDER" "lfring_wf NETDOM_RING_ORDER"
  "\<lambda>x. take_bit (Suc NETDOM_RING_ORDER) x = x" "2 ^ NETDOM_RING_ORDER" LFRING_EMPTY
  by (rule lfring_index_queue) (rule program_orders)

interpretation thread_ring: index_queue
  "\<lambda>q x. lfring_enqueue q BMK_MAX_THREADS_ORDER x False"
  "\<lambda>q. lfring_dequeue q BMK_MAX_THREADS_ORDER False"
  "lfring_list BMK_MAX_THREADS_ORDER" "lfring_wf BMK_MAX_THREADS_ORDER"
  "\<lambda>x. take_bit (Suc BMK_MAX_THREADS_ORDER) x = x" "2 ^ BMK_MAX_THREADS_ORDER" LFRING_EMPTY
  by (rule lfring_index_queue) (rule program_orders)

interpretation node_ring: index_queue
  "\<lambda>q x. lfring_enqueue q BMK_MAX_BLOCKQ_ORDER x False"
  "\<lambda>q. lfring_dequeue q BMK_MAX_BLOCKQ_ORDER False"
  "lfring_list BMK_MAX_BLOCKQ_ORDER" "lfring_wf BMK_MAX_BLOCKQ_ORDER"
  "\<lambda>x. take_bit (Suc BMK_MAX_BLOCKQ_ORDER) x = x" "2 ^ BMK_MAX_BLOCKQ_ORDER" LFRING_EMPTY
  by (rule lfring_index_queue) (rule program_orders)

section \<open>Properties\<close>

text \<open>
  C1. The ring is a bounded FIFO. From any well-formed ring, every sequence of enqueues
  and dequeues that never queues more than \<open>2 ^ order\<close> indices runs to completion, the
  dequeues return exactly what a list-backed queue returns (\<open>LFRING_EMPTY\<close> when nothing is
  queued), and the ring is well-formed afterwards with the list queue's contents, through
  any number of wrap-arounds of the 64-bit head, tail and cycle counters.
\<close>

theorem lfring_is_fifo:
  assumes "lfring_wf order q"
    and "calls_fit (2 ^ order) (\<lambda>x. take_bit (Suc order) x = x) (length (lfring_list order q)) cs"
  shows "\<exists>q'. run_calls (\<lambda>q x. lfring_enqueue q order x False) (\<lambda>q. lfring_dequeue q order False) q cs
      = Some (fst (spec_calls LFRING_EMPTY (lfring_list order q) cs), q') \<and>
    lfring_wf order q' \<and> lfring_list order q' = snd (spec_calls LFRING_EMPTY (lfring_list order q) cs)"
proof -
  have "ring_order order" using assms(1) by (simp add: lfring_wf_def)
  from index_queue.calls_refine [OF lfring_index_queue [OF this] assms] show ?thesis .
qed

theorem lfring_is_fifo_witness:
  "\<exists>q'. run_calls (\<lambda>q x. lfring_enqueue q 4 x False) (\<lambda>q. lfring_dequeue q 4 False)
      (lfring_init_empty \<lparr>lf_head = 0, lf_threshold = 0, lf_tail = 0, lf_array = replicate 32 0\<rparr> 4)
      [Dequeue, Enqueue 5, Enqueue 7, Dequeue, Dequeue, Dequeue]
    = Some ([LFRING_EMPTY, 5, 7, LFRING_EMPTY], q')"
proof -
  let ?q = "lfring_init_empty \<lparr>lf_head = 0, lf_threshold = 0, lf_tail = 0, lf_array = replicate 32 0\<rparr> 4"
  have o: "ring_order 4" by (simp add: ring_order_def)
  have wf: "lfring_wf 4 ?q" and l: "lfring_list 4 ?q = []"
    by (rule lfring_init_empty_refines [OF o], simp)+
  have "take_bit 5 (5 :: u64) = 5" "take_bit 5 (7 :: u64) = 7" by simp_all
  then show ?thesis
    using lfring_is_fifo [OF wf, of "[Dequeue, Enqueue 5, Enqueue 7, Dequeue, Dequeue, Dequeue]"] l
    by auto
qed

text \<open>
  A ring set up by \<^verbatim>\<open>lfring_init_full\<close> is well-formed and holds every index below
  \<open>2 ^ order\<close> exactly once: the free lists of thread slots, block-queue nodes and netdom
  buffers start with each slot available once.
\<close>

theorem lfring_init_full_all_indices:
  assumes "ring_order order" "length (lf_array q) = 2 ^ Suc order"
  shows "lfring_wf order (lfring_init_full q order) \<and>
    distinct (lfring_list order (lfring_init_full q order)) \<and>
    set (lfring_list order (lfring_init_full q order)) = {x. unat x < 2 ^ order}"
  using lfring_init_full_refines [OF assms] full_entries_distinct [OF assms(1)]
    full_entries_set [OF assms(1)]
  by simp

theorem lfring_init_full_all_indices_witness:
  "distinct (lfring_list 9 (lfring_init_full
     \<lparr>lf_head = 0, lf_threshold = 0, lf_tail = 0, lf_array = replicate 1024 0\<rparr> 9))"
  using lfring_init_full_all_indices
    [of 9 "\<lparr>lf_head = 0, lf_threshold = 0, lf_tail = 0, lf_array = replicate 1024 0\<rparr>"]
  by (simp add: ring_order_def)

end
