(* ===== verification/Pgalloc.thy ===== *)
theory Pgalloc
  imports Prelude
begin

text \<open>
  The physical page allocator of \<^verbatim>\<open>lib/libbmk_core/pgalloc.c\<close>: a binary buddy allocator
  with one free list per order and an allocation bitmap (bit set means allocated).

  Addresses and byte counts are natural numbers below \<open>2 ^ 64\<close>; the reduction modulo
  \<open>2 ^ 64\<close> is written out where the source adds or subtracts. The bitmap is kept as the
  array of 64-bit words of the source, with its bit tricks. A \<^verbatim>\<open>struct chunk\<close> sits in the
  first bytes of the free page that it describes: \<open>chunk_at\<close> is that memory, indexed by
  address, and it is never forgotten that whoever owns an allocated page may overwrite it.
  The operations run under \<^verbatim>\<open>pgalloc_slock\<close>, hence one at a time.
\<close>

section \<open>Pages\<close>

definition BMK_PCPU_PAGE_SHIFT :: nat where
  "BMK_PCPU_PAGE_SHIFT = 12"

definition BMK_PCPU_PAGE_SIZE :: nat where
  "BMK_PCPU_PAGE_SIZE = 2 ^ BMK_PCPU_PAGE_SHIFT"

definition bmk_trunc_page :: "nat \<Rightarrow> nat" where
  "bmk_trunc_page p = p div BMK_PCPU_PAGE_SIZE * BMK_PCPU_PAGE_SIZE"

definition bmk_round_page :: "nat \<Rightarrow> nat" where
  "bmk_round_page p = bmk_trunc_page ((p + (BMK_PCPU_PAGE_SIZE - 1)) mod 2 ^ 64)"

definition order2size :: "nat \<Rightarrow> nat" where
  "order2size order = 2 ^ (order + BMK_PCPU_PAGE_SHIFT)"

section \<open>State\<close>

record chunk =
  ch_level :: int
  ch_magic :: int

definition CHUNKMAGIC :: int where
  "CHUNKMAGIC = 0x11020217"

definition FREELIST_LEVELS :: nat where
  "FREELIST_LEVELS = 8 * 8 - BMK_PCPU_PAGE_SHIFT"

definition PAGES_PER_MAPWORD :: nat where
  "PAGES_PER_MAPWORD = 8 * 8"

record pgstate =
  minpage_addr :: nat
  maxpage_addr :: nat
  alloc_bitmap :: "u64 list"
  freelist :: "nat list list"
  chunk_at :: "nat \<Rightarrow> chunk"
  pgalloc_totalkb :: nat
  pgalloc_usedkb :: nat
  loadmem_called :: bool

section \<open>Allocation bitmap\<close>

definition va_to_pg :: "pgstate \<Rightarrow> nat \<Rightarrow> nat" where
  "va_to_pg s x = (x + 2 ^ 64 - minpage_addr s) mod 2 ^ 64 div 2 ^ BMK_PCPU_PAGE_SHIFT"

definition addr_is_managed :: "pgstate \<Rightarrow> nat \<Rightarrow> bool" where
  "addr_is_managed s addr \<longleftrightarrow> addr \<ge> minpage_addr s \<and> addr < maxpage_addr s"

definition allocated_in_map :: "pgstate \<Rightarrow> nat \<Rightarrow> bool res" where
  "allocated_in_map s addr =
     bindE (assertE ''addr_is_managed(addr)'' (addr_is_managed s addr)) (\<lambda>_.
     let pagenum = va_to_pg s addr; i = pagenum div PAGES_PER_MAPWORD in
     if i < length (alloc_bitmap s)
     then Inr (alloc_bitmap s ! i AND push_bit (pagenum mod PAGES_PER_MAPWORD) 1 \<noteq> 0)
     else Inl (Undefined ''alloc_bitmap''))"

text \<open>\<open>map_word\<close> is one read-modify-write of \<^verbatim>\<open>alloc_bitmap[i]\<close>.\<close>

definition map_word :: "nat \<Rightarrow> (u64 \<Rightarrow> u64) \<Rightarrow> u64 list \<Rightarrow> u64 list res" where
  "map_word i f bm = (if i < length bm then Inr (bm[i := f (bm ! i)]) else Inl (Undefined ''alloc_bitmap''))"

text \<open>The inner loops: \<^verbatim>\<open>while (++curr_idx < end_idx)\<close> and \<^verbatim>\<open>while (++curr_idx != end_idx)\<close>.\<close>

function map_alloc_loop :: "nat \<Rightarrow> nat \<Rightarrow> u64 list \<Rightarrow> (nat \<times> u64 list) res" where
  "map_alloc_loop curr_idx end_idx bm =
     (if curr_idx + 1 < end_idx
      then bindE (map_word (curr_idx + 1) (\<lambda>_. NOT 0) bm) (map_alloc_loop (curr_idx + 1) end_idx)
      else Inr (curr_idx + 1, bm))"
  by auto
termination by (relation "measure (\<lambda>(c, e, _). e - c)") auto

function map_free_loop :: "nat \<Rightarrow> nat \<Rightarrow> u64 list \<Rightarrow> (nat \<times> u64 list) res" where
  "map_free_loop curr_idx end_idx bm =
     (if curr_idx + 1 \<noteq> end_idx
      then (if curr_idx + 1 < length bm
            then map_free_loop (curr_idx + 1) end_idx (bm[curr_idx + 1 := 0])
            else Inl (Undefined ''alloc_bitmap''))
      else Inr (curr_idx + 1, bm))"
  by auto
termination by (relation "measure (\<lambda>(c, _, bm). length bm - c)") auto

definition map_alloc :: "nat \<Rightarrow> nat \<Rightarrow> pgstate \<Rightarrow> pgstate res" where
  "map_alloc virt nr_pages s =
     (let first_page = va_to_pg s virt;
          curr_idx = first_page div PAGES_PER_MAPWORD;
          start = first_page mod PAGES_PER_MAPWORD;
          end_idx = (first_page + nr_pages) mod 2 ^ 64 div PAGES_PER_MAPWORD;
          endo = (first_page + nr_pages) mod 2 ^ 64 mod PAGES_PER_MAPWORD;
          bm = alloc_bitmap s
      in bindE
          (if curr_idx = end_idx
           then map_word curr_idx (\<lambda>w. w OR ((push_bit endo 1 - 1) AND - push_bit start 1)) bm
           else bindE (map_word curr_idx (\<lambda>w. w OR - push_bit start 1) bm) (\<lambda>bm.
                bindE (map_alloc_loop curr_idx end_idx bm) (\<lambda>(curr_idx, bm).
                map_word curr_idx (\<lambda>w. w OR (push_bit endo 1 - 1)) bm)))
          (\<lambda>bm. Inr (s\<lparr>alloc_bitmap := bm\<rparr>)))"

definition map_free :: "nat \<Rightarrow> nat \<Rightarrow> pgstate \<Rightarrow> pgstate res" where
  "map_free virt nr_pages s =
     (let first_page = va_to_pg s virt;
          curr_idx = first_page div PAGES_PER_MAPWORD;
          start = first_page mod PAGES_PER_MAPWORD;
          end_idx = (first_page + nr_pages) mod 2 ^ 64 div PAGES_PER_MAPWORD;
          endo = (first_page + nr_pages) mod 2 ^ 64 mod PAGES_PER_MAPWORD;
          bm = alloc_bitmap s
      in bindE
          (if curr_idx = end_idx
           then map_word curr_idx (\<lambda>w. w AND (- push_bit endo 1 OR (push_bit start 1 - 1))) bm
           else bindE (map_word curr_idx (\<lambda>w. w AND (push_bit start 1 - 1)) bm) (\<lambda>bm.
                bindE (map_free_loop curr_idx end_idx bm) (\<lambda>(curr_idx, bm).
                map_word curr_idx (\<lambda>w. w AND - push_bit endo 1) bm)))
          (\<lambda>bm. Inr (s\<lparr>alloc_bitmap := bm\<rparr>)))"

section \<open>Free lists\<close>

text \<open>
  \<^verbatim>\<open>LIST_REMOVE\<close> unlinks a chunk from whichever list it is on, through its own links; on a
  chunk that is on no list the links are stale, and the operation is undefined.
\<close>

definition LIST_REMOVE :: "nat \<Rightarrow> pgstate \<Rightarrow> pgstate res" where
  "LIST_REMOVE ch s =
     (if list_ex (\<lambda>l. ch \<in> set l) (freelist s)
      then Inr (s\<lparr>freelist := map (removeAll ch) (freelist s)\<rparr>)
      else Inl (Undefined ''LIST_REMOVE''))"

definition chunklevel :: "pgstate \<Rightarrow> nat \<Rightarrow> int res" where
  "chunklevel s ch =
     bindE (assertE ''ch->magic == CHUNKMAGIC'' (ch_magic (chunk_at s ch) = CHUNKMAGIC)) (\<lambda>_.
     Inr (ch_level (chunk_at s ch)))"

definition set_magic :: "nat \<Rightarrow> int \<Rightarrow> pgstate \<Rightarrow> pgstate" where
  "set_magic ch m s = s\<lparr>chunk_at := (chunk_at s)(ch := (chunk_at s ch)\<lparr>ch_magic := m\<rparr>)\<rparr>"

definition freechunk_link :: "nat \<Rightarrow> nat \<Rightarrow> pgstate \<Rightarrow> pgstate res" where
  "freechunk_link addr order s =
     (if order < FREELIST_LEVELS
      then Inr (s\<lparr>chunk_at := (chunk_at s)(addr := \<lparr>ch_level = int order, ch_magic = CHUNKMAGIC\<rparr>),
                 freelist := (freelist s)[order := addr # freelist s ! order]\<rparr>)
      else Inl (Undefined ''freelist''))"

text \<open>
  \<^verbatim>\<open>__builtin_ctzl\<close> and \<^verbatim>\<open>__builtin_clzl\<close> on a non-zero argument (they are undefined at zero,
  which the caller's branch below makes explicit).
\<close>

fun ctzl :: "nat \<Rightarrow> nat" where
  "ctzl n = (if n = 0 \<or> odd n then 0 else Suc (ctzl (n div 2)))"

fun bit_length :: "nat \<Rightarrow> nat" where
  "bit_length n = (if n = 0 then 0 else Suc (bit_length (n div 2)))"

definition clzl :: "nat \<Rightarrow> nat" where
  "clzl n = 64 - bit_length n"

declare ctzl.simps [simp del] bit_length.simps [simp del]

text \<open>The order of the next chunk that \<^verbatim>\<open>carverange\<close> links.\<close>

definition carve_bits :: "nat \<Rightarrow> nat \<Rightarrow> nat" where
  "carve_bits addr rng = (let i = ctzl addr; r = 8 * 8 - (clzl rng + 1) in if i > r then r else i)"

lemma bit_length_bounds: "n \<noteq> 0 \<Longrightarrow> 2 ^ (bit_length n - 1) \<le> n \<and> n < 2 ^ bit_length n"
proof (induction n rule: bit_length.induct)
  case (1 n)
  show ?case
  proof (cases "n = 1")
    case True
    then show ?thesis by (simp add: bit_length.simps)
  next
    case False
    with 1 have IH: "2 ^ (bit_length (n div 2) - 1) \<le> n div 2 \<and> n div 2 < 2 ^ bit_length (n div 2)"
      and "bit_length (n div 2) \<noteq> 0"
      by (auto simp: bit_length.simps [of "n div 2"])
    then obtain l where l: "bit_length (n div 2) = Suc l" by (cases "bit_length (n div 2)") auto
    show ?thesis using IH 1(2) unfolding bit_length.simps [of n] l by auto
  qed
qed

lemma carve_bits_le:
  assumes "rng \<noteq> 0"
  shows "2 ^ carve_bits addr rng \<le> rng"
proof -
  have "carve_bits addr rng \<le> bit_length rng - 1"
    by (auto simp: carve_bits_def clzl_def Let_def)
  then have "(2 :: nat) ^ carve_bits addr rng \<le> 2 ^ (bit_length rng - 1)"
    by (simp add: power_increasing)
  then show ?thesis using bit_length_bounds [OF assms] by linarith
qed

function carverange :: "nat \<Rightarrow> nat \<Rightarrow> pgstate \<Rightarrow> pgstate res" where
  "carverange addr rng s =
     (if rng = 0 then Inr s
      else if addr = 0 then Inl (Undefined ''__builtin_ctzl'')
      else if carve_bits addr rng < BMK_PCPU_PAGE_SHIFT then Inl (Undefined ''freelist'')
      else let i = carve_bits addr rng - BMK_PCPU_PAGE_SHIFT in
        bindE (freechunk_link addr i s)
          (carverange ((addr + order2size i) mod 2 ^ 64) (rng - order2size i)))"
  by auto
termination
  by (relation "measure (\<lambda>(_, r, _). r)") (auto simp: order2size_def)

declare carverange.simps [simp del] map_alloc_loop.simps [simp del] map_free_loop.simps [simp del]

section \<open>Entry points\<close>

definition bmk_pgalloc_loadmem :: "nat \<Rightarrow> nat \<Rightarrow> pgstate \<Rightarrow> pgstate res" where
  "bmk_pgalloc_loadmem min0 max0 s =
     (if loadmem_called s then Inl (Halt ''bmk_pgalloc_loadmem called more than once'')
      else bindE (assertE ''max > min'' (max0 > min0)) (\<lambda>_.
      let lo = bmk_round_page min0;
          hi = bmk_trunc_page max0;
          bitmap_size = bmk_round_page
            ((hi + 2 ^ 64 - lo) mod 2 ^ 64 div 2 ^ (BMK_PCPU_PAGE_SHIFT + 3) + 1);
          minpage = (lo + bitmap_size) mod 2 ^ 64;
          rng = (hi + 2 ^ 64 - minpage) mod 2 ^ 64;
          s1 = s\<lparr>loadmem_called := True,
                 freelist := replicate FREELIST_LEVELS [],
                 minpage_addr := minpage,
                 maxpage_addr := hi,
                 pgalloc_totalkb := rng div 2 ^ 10,
                 pgalloc_usedkb := 0,
                 alloc_bitmap := replicate (bitmap_size div 8) (NOT 0)\<rparr>
      in bindE (map_free minpage (rng div 2 ^ BMK_PCPU_PAGE_SHIFT) s1) (carverange minpage rng)))"

definition satisfies_p :: "pgstate \<Rightarrow> nat \<Rightarrow> nat \<Rightarrow> nat option" where
  "satisfies_p s i align = find (\<lambda>p. p AND (align - 1) = 0) (freelist s ! i)"

text \<open>The search over the orders, from \<^verbatim>\<open>order\<close> up.\<close>

function pgalloc_bucket :: "pgstate \<Rightarrow> nat \<Rightarrow> nat \<Rightarrow> (nat \<times> nat) option" where
  "pgalloc_bucket s bucket align =
     (if bucket < FREELIST_LEVELS
      then (case satisfies_p s bucket align of
              Some alloc_ch \<Rightarrow> Some (bucket, alloc_ch)
            | None \<Rightarrow> pgalloc_bucket s (bucket + 1) align)
      else None)"
  by auto
termination by (relation "measure (\<lambda>(_, b, _). FREELIST_LEVELS - b)") auto

declare pgalloc_bucket.simps [simp del]

text \<open>The result is the address, \<open>None\<close> standing for the null pointer.\<close>

definition bmk_pgalloc_align :: "int \<Rightarrow> nat \<Rightarrow> pgstate \<Rightarrow> (nat option \<times> pgstate) res" where
  "bmk_pgalloc_align order align s =
     bindE (assertE ''align'' (align \<ge> BMK_PCPU_PAGE_SIZE \<and> align AND (align - 1) = 0)) (\<lambda>_.
     bindE (assertE ''(unsigned)order < FREELIST_LEVELS'' (order mod 2 ^ 32 < int FREELIST_LEVELS)) (\<lambda>_.
     case pgalloc_bucket s (nat order) align of
       None \<Rightarrow> Inr (None, s)
     | Some (bucket, alloc_ch) \<Rightarrow>
         bindE (LIST_REMOVE alloc_ch s) (\<lambda>s.
         bindE (assertE ''alloc_ch->magic == CHUNKMAGIC''
                  (ch_magic (chunk_at s alloc_ch) = CHUNKMAGIC)) (\<lambda>_.
         let s = set_magic alloc_ch 0 s; len = order2size (nat order); p = alloc_ch in
         bindE (carverange ((p + len) mod 2 ^ 64) (order2size bucket - len) s) (\<lambda>s.
         bindE (map_alloc alloc_ch (2 ^ nat order) s) (\<lambda>s.
         let s = s\<lparr>pgalloc_usedkb := (pgalloc_usedkb s + len div 2 ^ 10) mod 2 ^ 64\<rparr> in
         bindE (assertE ''alloc_ch & (align-1)'' (alloc_ch AND (align - 1) = 0)) (\<lambda>_.
         Inr (Some alloc_ch, s))))))))"

definition bmk_pgalloc :: "int \<Rightarrow> pgstate \<Rightarrow> (nat option \<times> pgstate) res" where
  "bmk_pgalloc order s = bmk_pgalloc_align order BMK_PCPU_PAGE_SIZE s"

text \<open>
  The guard that ends the coalescing loop: the neighbour is outside the managed range,
  allocated, or not of the same order.
\<close>

definition cannot_merge :: "pgstate \<Rightarrow> nat \<Rightarrow> nat \<Rightarrow> bool res" where
  "cannot_merge s to_merge_ch order =
     (if \<not> addr_is_managed s to_merge_ch then Inr True
      else bindE (allocated_in_map s to_merge_ch) (\<lambda>a.
        if a then Inr True
        else bindE (chunklevel s to_merge_ch) (\<lambda>l. Inr (l \<noteq> int order))))"

function pgfree_loop :: "nat \<Rightarrow> nat \<Rightarrow> pgstate \<Rightarrow> (nat \<times> nat \<times> pgstate) res" where
  "pgfree_loop freed_ch order s =
     (if order < FREELIST_LEVELS then
        let mask = order2size order in
        if freed_ch AND mask \<noteq> 0 then
          let to_merge_ch = (freed_ch + 2 ^ 64 - mask) mod 2 ^ 64 in
          bindE (cannot_merge s to_merge_ch order) (\<lambda>stop.
          if stop then Inr (freed_ch, order, s)
          else bindE (LIST_REMOVE to_merge_ch (set_magic to_merge_ch 0 (set_magic freed_ch 0 s)))
                 (pgfree_loop to_merge_ch (order + 1)))
        else
          let to_merge_ch = (freed_ch + mask) mod 2 ^ 64 in
          bindE (cannot_merge s to_merge_ch order) (\<lambda>stop.
          if stop then Inr (freed_ch, order, s)
          else bindE (LIST_REMOVE to_merge_ch (set_magic to_merge_ch 0 (set_magic freed_ch 0 s)))
                 (pgfree_loop freed_ch (order + 1)))
      else Inr (freed_ch, order, s))"
  by auto
termination by (relation "measure (\<lambda>(_, k, _). FREELIST_LEVELS - k)") auto

declare pgfree_loop.simps [simp del]

text \<open>Shifting by a negative amount, or by the word size and more, is undefined.\<close>

definition bmk_pgfree :: "nat \<Rightarrow> int \<Rightarrow> pgstate \<Rightarrow> pgstate res" where
  "bmk_pgfree pointer order s =
     (if order < 0 \<or> order \<ge> int FREELIST_LEVELS then Inl (Undefined ''1UL << order'')
      else bindE (map_free pointer (2 ^ nat order) s) (\<lambda>s.
        let s = s\<lparr>pgalloc_usedkb :=
                    (pgalloc_usedkb s + 2 ^ 64 - order2size (nat order) div 2 ^ 10) mod 2 ^ 64\<rparr> in
        bindE (pgfree_loop pointer (nat order) s) (\<lambda>(freed_ch, order, s).
        freechunk_link freed_ch order s)))"

section \<open>The bitmap operations set and clear exactly the pages of the range\<close>

definition page_bit :: "u64 list \<Rightarrow> nat \<Rightarrow> bool" where
  "page_bit bm p \<longleftrightarrow> bit (bm ! (p div PAGES_PER_MAPWORD)) (p mod PAGES_PER_MAPWORD)"

lemma PAGES_64: "PAGES_PER_MAPWORD = 64"
  by (simp add: PAGES_PER_MAPWORD_def)

lemma bit_ones_below [simp]: "bit (push_bit n 1 - 1 :: u64) j \<longleftrightarrow> j < n \<and> j < 64"
  by (simp add: push_bit_eq_mult flip: mask_eq_exp_minus_1) (auto simp: bit_simps)

lemma bit_ones_from [simp]: "bit (- push_bit n 1 :: u64) j \<longleftrightarrow> n \<le> j \<and> j < 64"
  by (simp add: push_bit_eq_mult minus_exp_eq_not_mask bit_simps not_less) auto

lemma map_alloc_loop_eq:
  assumes "c < e" "e \<le> length bm"
  shows "map_alloc_loop c e bm =
    Inr (e, map (\<lambda>i. if c < i \<and> i < e then NOT 0 else bm ! i) [0..<length bm])"
  using assms
proof (induction c e bm rule: map_alloc_loop.induct)
  case (1 c e bm)
  show ?case
  proof (cases "c + 1 < e")
    case True
    with 1 have "map_alloc_loop (c + 1) e (bm[c + 1 := NOT 0]) =
       Inr (e, map (\<lambda>i. if c + 1 < i \<and> i < e then NOT 0 else bm[c + 1 := NOT 0] ! i) [0..<length bm])"
      by simp
    with True 1(3) show ?thesis
      by (subst map_alloc_loop.simps) (auto simp: map_word_def nth_list_update)
  next
    case False
    with 1 have "e = Suc c" by simp
    with 1(3) show ?thesis
      by (subst map_alloc_loop.simps) (auto intro!: nth_equalityI)
  qed
qed

lemma map_free_loop_eq:
  assumes "c < e" "e \<le> length bm"
  shows "map_free_loop c e bm =
    Inr (e, map (\<lambda>i. if c < i \<and> i < e then 0 else bm ! i) [0..<length bm])"
  using assms
proof (induction c e bm rule: map_free_loop.induct)
  case (1 c e bm)
  show ?case
  proof (cases "c + 1 = e")
    case False
    with 1 have "map_free_loop (c + 1) e (bm[c + 1 := 0]) =
       Inr (e, map (\<lambda>i. if c + 1 < i \<and> i < e then 0 else bm[c + 1 := 0] ! i) [0..<length bm])"
      by simp
    with False 1(2,3) show ?thesis
      by (subst map_free_loop.simps) (auto simp: nth_list_update)
  next
    case True
    with 1(3) show ?thesis
      by (subst map_free_loop.simps) (auto intro!: nth_equalityI)
  qed
qed

text \<open>Where a page stands relative to a bit position, by word index and offset.\<close>

lemma page_le_iff:
  fixes a p :: nat
  shows "a \<le> p \<longleftrightarrow> a div 64 < p div 64 \<or> a div 64 = p div 64 \<and> a mod 64 \<le> p mod 64"
proof -
  obtain q r where a: "a = 64 * q + r" "r < 64" "a div 64 = q" "a mod 64 = r"
    by (metis mod_less_divisor mult_div_mod_eq zero_less_numeral)
  obtain q' r' where p: "p = 64 * q' + r'" "r' < 64" "p div 64 = q'" "p mod 64 = r'"
    by (metis mod_less_divisor mult_div_mod_eq zero_less_numeral)
  show ?thesis unfolding a(3,4) p(3,4) using a(1,2) p(1,2) by linarith
qed

lemma page_less_iff:
  fixes a p :: nat
  shows "p < a \<longleftrightarrow> p div 64 < a div 64 \<or> p div 64 = a div 64 \<and> p mod 64 < a mod 64"
  using page_le_iff [of a p] by linarith

definition span_fits :: "pgstate \<Rightarrow> nat \<Rightarrow> nat \<Rightarrow> bool" where
  "span_fits s virt n \<longleftrightarrow> minpage_addr s \<le> virt \<and> virt < 2 ^ 64 \<and> va_to_pg s virt + n < 2 ^ 64 \<and>
     va_to_pg s virt + n < PAGES_PER_MAPWORD * length (alloc_bitmap s)"


lemma page_less_length: "p < PAGES_PER_MAPWORD * length bm \<longleftrightarrow> p div PAGES_PER_MAPWORD < length bm"
  by (auto simp: PAGES_PER_MAPWORD_def less_mult_imp_div_less div_less_iff_less_mult mult.commute)

lemma span_fits_indices:
  assumes "span_fits s virt n"
  shows "(va_to_pg s virt + n) mod 2 ^ 64 = va_to_pg s virt + n"
    and "(va_to_pg s virt + n) div PAGES_PER_MAPWORD < length (alloc_bitmap s)"
    and "va_to_pg s virt div PAGES_PER_MAPWORD \<le> (va_to_pg s virt + n) div PAGES_PER_MAPWORD"
  using assms by (auto simp: span_fits_def page_less_length div_le_mono)


text \<open>The bitmap after either operation, word by word.\<close>

definition span_word :: "nat \<Rightarrow> nat \<Rightarrow> nat \<Rightarrow> nat \<Rightarrow> nat \<Rightarrow> u64" where
  "span_word fi fo li lo i =
     (if fi < i then NOT 0 else if fi = i then - push_bit fo 1 else 0) AND
     (if i < li then NOT 0 else if i = li then push_bit lo 1 - 1 else 0)"

lemma bit_span_word:
  "j < 64 \<Longrightarrow> bit (span_word fi fo li lo i) j \<longleftrightarrow>
     (fi < i \<or> fi = i \<and> fo \<le> j) \<and> (i < li \<or> i = li \<and> j < lo)"
  by (auto simp: span_word_def bit_and_iff bit_not_iff simp del: push_bit_of_1)

definition bm_update :: "(u64 \<Rightarrow> u64 \<Rightarrow> u64) \<Rightarrow> nat \<Rightarrow> nat \<Rightarrow> u64 list \<Rightarrow> u64 list" where
  "bm_update g f l bm =
     map (\<lambda>i. g (bm ! i) (span_word (f div 64) (f mod 64) (l div 64) (l mod 64) i)) [0..<length bm]"

lemma length_bm_update [simp]: "length (bm_update g f l bm) = length bm"
  by (simp add: bm_update_def)

lemma bm_update_page:
  assumes "p < PAGES_PER_MAPWORD * length bm" and "\<And>w m i. i < 64 \<Longrightarrow> bit (g w m) i \<longleftrightarrow> G (bit w i) (bit m i)"
  shows "page_bit (bm_update g f l bm) p \<longleftrightarrow> G (page_bit bm p) (f \<le> p \<and> p < l)"
proof -
  have "p div 64 < length bm" and j: "p mod 64 < 64"
    using assms(1) by (simp_all add: page_less_length PAGES_PER_MAPWORD_def)
  then have "page_bit (bm_update g f l bm) p \<longleftrightarrow> G (page_bit bm p)
     (bit (span_word (f div 64) (f mod 64) (l div 64) (l mod 64) (p div 64)) (p mod 64))"
    by (simp only: page_bit_def bm_update_def PAGES_64 assms(2) nth_map length_upt nth_upt
       diff_zero add_0)
  then show ?thesis
    unfolding bit_span_word [OF j] page_le_iff [of f p] page_less_iff [of p l] .
qed

lemma map_word_Inr: "i < length bm \<Longrightarrow> map_word i f bm = Inr (bm[i := f (bm ! i)])"
  by (simp add: map_word_def)

lemma map_alloc_words:
  assumes "li < length bm" "fi \<le> li"
  shows "(if fi = li
     then map_word fi (\<lambda>w. w OR ((push_bit lo 1 - 1) AND - push_bit fo 1)) bm
     else bindE (map_word fi (\<lambda>w. w OR - push_bit fo 1) bm) (\<lambda>bm.
          bindE (map_alloc_loop fi li bm) (\<lambda>(curr_idx, bm).
          map_word curr_idx (\<lambda>w. w OR (push_bit lo 1 - 1)) bm))) =
   Inr (map (\<lambda>i. bm ! i OR span_word fi fo li lo i) [0..<length bm])"
proof (cases "fi = li")
  case True
  with assms show ?thesis
    by (auto simp: map_word_Inr span_word_def nth_list_update and.commute simp del: push_bit_of_1
        intro!: nth_equalityI)
next
  case False
  with assms have "fi < li" by simp
  with assms show ?thesis
    by (auto simp: map_word_Inr map_alloc_loop_eq span_word_def nth_list_update simp del: push_bit_of_1
        intro!: nth_equalityI)
qed

lemma map_free_words:
  assumes "li < length bm" "fi \<le> li"
  shows "(if fi = li
     then map_word fi (\<lambda>w. w AND (- push_bit lo 1 OR (push_bit fo 1 - 1))) bm
     else bindE (map_word fi (\<lambda>w. w AND (push_bit fo 1 - 1)) bm) (\<lambda>bm.
          bindE (map_free_loop fi li bm) (\<lambda>(curr_idx, bm).
          map_word curr_idx (\<lambda>w. w AND - push_bit lo 1) bm))) =
   Inr (map (\<lambda>i. bm ! i AND NOT (span_word fi fo li lo i)) [0..<length bm])"
proof -
  have bits: "- push_bit lo 1 OR (push_bit fo 1 - 1) = (NOT ((- push_bit fo 1) AND (push_bit lo 1 - 1)) :: u64)"
    "(push_bit fo 1 - 1) = (NOT (- push_bit fo 1) :: u64)" "- push_bit lo 1 = (NOT (push_bit lo 1 - 1) :: u64)"
    by (auto intro!: bit_word_eqI simp: bit_or_iff bit_not_iff bit_and_iff simp del: push_bit_of_1)
  show ?thesis
  proof (cases "fi = li")
    case True
    with assms show ?thesis
      unfolding bits(1)
      by (auto simp: map_word_Inr span_word_def nth_list_update simp del: push_bit_of_1 intro!: nth_equalityI)
  next
    case False
    with assms have "fi < li" by simp
    with assms show ?thesis
      unfolding bits(2,3)
      by (auto simp: map_word_Inr map_free_loop_eq span_word_def nth_list_update simp del: push_bit_of_1
         intro!: nth_equalityI)
  qed
qed

lemma map_alloc_eq:
  assumes "span_fits s virt n"
  shows "map_alloc virt n s = Inr (s\<lparr>alloc_bitmap :=
    bm_update (OR) (va_to_pg s virt) (va_to_pg s virt + n) (alloc_bitmap s)\<rparr>)"
  using span_fits_indices [OF assms, unfolded PAGES_64]
  unfolding map_alloc_def Let_def PAGES_64 bm_update_def
  by (simp only: map_alloc_words bindE_Inr)

lemma map_free_eq:
  assumes "span_fits s virt n"
  shows "map_free virt n s = Inr (s\<lparr>alloc_bitmap :=
    bm_update (\<lambda>w m. w AND NOT m) (va_to_pg s virt) (va_to_pg s virt + n) (alloc_bitmap s)\<rparr>)"
  using span_fits_indices [OF assms, unfolded PAGES_64]
  unfolding map_free_def Let_def PAGES_64 bm_update_def
  by (simp only: map_free_words bindE_Inr)

section \<open>Invariant\<close>

text \<open>
  \<open>blk a k\<close> are the bytes of the block of order \<open>k\<close> at \<open>a\<close>; \<open>on_list s k a\<close> says that the
  chunk at \<open>a\<close> is linked on the free list of order \<open>k\<close>; \<open>free_bytes\<close> is what the allocator
  has to give.
\<close>

definition blk :: "nat \<Rightarrow> nat \<Rightarrow> nat set" where
  "blk a k = {a..<a + order2size k}"

definition on_list :: "pgstate \<Rightarrow> nat \<Rightarrow> nat \<Rightarrow> bool" where
  "on_list s k a \<longleftrightarrow> k < FREELIST_LEVELS \<and> a \<in> set (freelist s ! k)"

definition free_bytes :: "pgstate \<Rightarrow> nat set" where
  "free_bytes s = (\<Union>k\<in>{..<FREELIST_LEVELS}. \<Union>a\<in>set (freelist s ! k). blk a k)"

definition lists_ok :: "pgstate \<Rightarrow> bool" where
  "lists_ok s \<longleftrightarrow> length (freelist s) = FREELIST_LEVELS \<and>
     (\<forall>k<FREELIST_LEVELS. distinct (freelist s ! k)) \<and>
     (\<forall>k a. on_list s k a \<longrightarrow> order2size k dvd a \<and> chunk_at s a = \<lparr>ch_level = int k, ch_magic = CHUNKMAGIC\<rparr>) \<and>
     (\<forall>k a j b. on_list s k a \<longrightarrow> on_list s j b \<longrightarrow> (k, a) \<noteq> (j, b) \<longrightarrow> blk a k \<inter> blk b j = {})"

definition env_ok :: "pgstate \<Rightarrow> bool" where
  "env_ok s \<longleftrightarrow> BMK_PCPU_PAGE_SIZE dvd minpage_addr s \<and> BMK_PCPU_PAGE_SIZE dvd maxpage_addr s \<and>
     0 < minpage_addr s \<and> minpage_addr s \<le> maxpage_addr s \<and> maxpage_addr s < 2 ^ 64 \<and>
     (maxpage_addr s - minpage_addr s) div BMK_PCPU_PAGE_SIZE < PAGES_PER_MAPWORD * length (alloc_bitmap s)"

definition map_ok :: "pgstate \<Rightarrow> nat set \<Rightarrow> bool" where
  "map_ok s F \<longleftrightarrow> (\<forall>x. addr_is_managed s x \<longrightarrow> page_bit (alloc_bitmap s) (va_to_pg s x) = (x \<notin> F))"

definition usage_ok :: "pgstate \<Rightarrow> nat set \<Rightarrow> bool" where
  "usage_ok s F \<longleftrightarrow> 1024 * pgalloc_usedkb s + card F = maxpage_addr s - minpage_addr s \<and>
     1024 * pgalloc_totalkb s = maxpage_addr s - minpage_addr s"

definition managed :: "pgstate \<Rightarrow> nat set" where
  "managed s = {minpage_addr s..<maxpage_addr s}"

section \<open>Aligned blocks\<close>

lemma order2size_pos [simp]: "0 < order2size k"
  by (simp add: order2size_def)

lemma order2size_dvd: "j \<le> k \<Longrightarrow> order2size j dvd order2size k"
  by (simp add: order2size_def le_imp_power_dvd)

lemma order2size_Suc: "order2size (Suc k) = 2 * order2size k"
  by (simp add: order2size_def)

lemma order2size_pages: "order2size k = 2 ^ k * BMK_PCPU_PAGE_SIZE"
  by (simp add: order2size_def BMK_PCPU_PAGE_SIZE_def power_add)

lemma page_dvd_order2size: "BMK_PCPU_PAGE_SIZE dvd order2size k"
  by (simp add: order2size_pages)

lemma blk_base [simp]: "a \<in> blk a k"
  by (simp add: blk_def)

lemma card_blk [simp]: "card (blk a k) = order2size k" and finite_blk [simp]: "finite (blk a k)"
  by (simp_all add: blk_def)

lemma multiples_apart:
  fixes d u v :: nat
  assumes "d dvd u" "d dvd v" "u < v + d"
  shows "u \<le> v"
proof -
  from assms obtain m n where "u = d * m" "v = d * n" by (elim dvdE)
  with assms(3) have "d * m < d * Suc n" by simp
  then have "m \<le> n" by (simp only: mult_less_cancel1 less_Suc_eq_le)
  with \<open>u = d * m\<close> \<open>v = d * n\<close> show ?thesis by simp
qed

lemma blk_nested:
  assumes "order2size j dvd a" "order2size k dvd b" "j \<le> k" "x \<in> blk a j" "x \<in> blk b k"
  shows "blk a j \<subseteq> blk b k"
proof -
  have d: "order2size j dvd b" "order2size j dvd b + order2size k"
    using assms(2,3) order2size_dvd dvd_trans by (blast, metis dvd_add dvd_trans)
  have "b \<le> a" using multiples_apart [OF d(1) assms(1)] assms(4,5) by (simp add: blk_def)
  moreover have "a + order2size j \<le> b + order2size k"
    using multiples_apart [OF _ d(2), of "a + order2size j"] assms(1,4,5) by (simp add: blk_def)
  ultimately show ?thesis by (auto simp: blk_def)
qed

lemma in_free_bytes: "x \<in> free_bytes s \<longleftrightarrow> (\<exists>k a. on_list s k a \<and> x \<in> blk a k)"
  by (auto simp: free_bytes_def on_list_def)

lemma on_list_free: "on_list s k a \<Longrightarrow> blk a k \<subseteq> free_bytes s"
  using in_free_bytes by blast

lemma finite_free_bytes [simp]: "finite (free_bytes s)"
  by (simp add: free_bytes_def)

lemma lists_ok_length: "lists_ok s \<Longrightarrow> length (freelist s) = FREELIST_LEVELS"
  by (simp add: lists_ok_def)

lemma lists_ok_chunk:
  assumes "lists_ok s" "on_list s k a"
  shows "order2size k dvd a" "chunk_at s a = \<lparr>ch_level = int k, ch_magic = CHUNKMAGIC\<rparr>"
  using assms by (auto simp: lists_ok_def)

lemma lists_ok_disjoint:
  "lists_ok s \<Longrightarrow> on_list s k a \<Longrightarrow> on_list s j b \<Longrightarrow> x \<in> blk a k \<Longrightarrow> x \<in> blk b j \<Longrightarrow> k = j \<and> a = b"
  unfolding lists_ok_def by (metis disjoint_iff prod.inject)

text \<open>Writing the header of a chunk that is on no list does not disturb the lists.\<close>

lemma on_list_chunk_at [simp]: "on_list (s\<lparr>chunk_at := c\<rparr>) = on_list s"
  by (simp add: on_list_def fun_eq_iff)

lemma on_list_cong: "freelist s = freelist t \<Longrightarrow> on_list s = on_list t"
  by (simp add: on_list_def fun_eq_iff)

lemma free_bytes_cong: "freelist s = freelist t \<Longrightarrow> free_bytes s = free_bytes t"
  by (simp add: free_bytes_def)

lemma lists_ok_write:
  assumes "lists_ok s" "freelist t = freelist s" "\<And>b. b \<in> free_bytes s \<Longrightarrow> chunk_at t b = chunk_at s b"
  shows "lists_ok t"
proof -
  have "on_list t = on_list s" using assms(2) by (rule on_list_cong)
  moreover have "chunk_at t a = chunk_at s a" if "on_list s k a" for k a
    using on_list_free [OF that] assms(3) blk_base by blast
  ultimately show ?thesis using assms(1,2) by (simp add: lists_ok_def)
qed

section \<open>Buddies\<close>

definition buddy :: "nat \<Rightarrow> nat \<Rightarrow> nat" where
  "buddy a k = (if a AND order2size k \<noteq> 0 then a - order2size k else a + order2size k)"

definition parent :: "nat \<Rightarrow> nat \<Rightarrow> nat" where
  "parent a k = (if a AND order2size k \<noteq> 0 then a - order2size k else a)"

lemma and_order2size:
  assumes "order2size k dvd a"
  obtains m where "a = order2size (Suc k) * m" "a AND order2size k = 0"
  | m where "a = order2size (Suc k) * m + order2size k" "a AND order2size k \<noteq> 0"
proof -
  obtain q where q: "a = order2size k * q" using assms by (elim dvdE)
  have "a AND order2size k = 0 \<longleftrightarrow> even (a div order2size k)"
    by (simp add: order2size_def and_exp_eq_0_iff_not_bit bit_iff_odd)
  then have e: "a AND order2size k = 0 \<longleftrightarrow> even q" by (simp add: q)
  show thesis
  proof (cases "even q")
    case True
    then obtain m where "q = 2 * m" by (elim evenE)
    with True e show ?thesis using that(1) [of m] q by (simp add: order2size_Suc)
  next
    case False
    then obtain m where "q = 2 * m + 1" by (elim oddE)
    with False e show ?thesis using that(2) [of m] q by (simp add: order2size_Suc)
  qed
qed

lemma buddy_facts:
  assumes "order2size k dvd a"
  shows "order2size k dvd buddy a k" "order2size (Suc k) dvd parent a k" "buddy (buddy a k) k = a"
    "blk (parent a k) (Suc k) = blk a k \<union> blk (buddy a k) k" "blk a k \<inter> blk (buddy a k) k = {}"
proof -
  have zero: "order2size (Suc k) * m AND order2size k = 0" for m
    by (simp add: order2size_def and_exp_eq_0_iff_not_bit bit_iff_odd)
  have one: "(order2size (Suc k) * m + order2size k) AND order2size k \<noteq> 0" for m
    by (simp add: order2size_def and_exp_eq_0_iff_not_bit bit_iff_odd)
  have two: "order2size k dvd order2size (Suc k) * m" for m
    by (simp add: order2size_Suc)
  have "order2size k dvd buddy a k \<and> order2size (Suc k) dvd parent a k \<and> buddy (buddy a k) k = a \<and>
      blk (parent a k) (Suc k) = blk a k \<union> blk (buddy a k) k \<and> blk a k \<inter> blk (buddy a k) k = {}"
    using assms
  proof (cases rule: and_order2size)
    case (1 m)
    then show ?thesis using one [of m] two [of m]
      by (auto simp: buddy_def parent_def blk_def) (auto simp: order2size_Suc)
  next
    case (2 m)
    then show ?thesis using zero [of m] two [of m]
      by (auto simp: buddy_def parent_def blk_def) (auto simp: order2size_Suc)
  qed
  then show "order2size k dvd buddy a k" "order2size (Suc k) dvd parent a k" "buddy (buddy a k) k = a"
    "blk (parent a k) (Suc k) = blk a k \<union> blk (buddy a k) k" "blk a k \<inter> blk (buddy a k) k = {}"
    by blast+
qed

text \<open>No two buddies are free at the same time: free memory is merged as far as it can be.\<close>

definition coalesced :: "pgstate \<Rightarrow> bool" where
  "coalesced s \<longleftrightarrow> (\<forall>k a. on_list s k a \<longrightarrow> \<not> on_list s k (buddy a k))"

definition pg_wf :: "pgstate \<Rightarrow> bool" where
  "pg_wf s \<longleftrightarrow> env_ok s \<and> lists_ok s \<and> coalesced s \<and> free_bytes s \<subseteq> managed s \<and>
     map_ok s (free_bytes s) \<and> usage_ok s (free_bytes s)"

section \<open>Linking, unlinking and carving\<close>

lemma lists_okI:
  assumes "length (freelist s) = FREELIST_LEVELS" "\<And>j. j < FREELIST_LEVELS \<Longrightarrow> distinct (freelist s ! j)"
    "\<And>j b. on_list s j b \<Longrightarrow> chunk_at s b = \<lparr>ch_level = int j, ch_magic = CHUNKMAGIC\<rparr>"
    "\<And>j b. on_list s j b \<Longrightarrow> order2size j dvd b"
    "\<And>x j b j' b'. on_list s j b \<Longrightarrow> on_list s j' b' \<Longrightarrow> x \<in> blk b j \<Longrightarrow> x \<in> blk b' j' \<Longrightarrow> j = j' \<and> b = b'"
  shows "lists_ok s"
  using assms unfolding lists_ok_def disjoint_iff by blast

lemma on_list_link:
  assumes "length (freelist s) = FREELIST_LEVELS" "k < FREELIST_LEVELS"
  shows "on_list (s\<lparr>chunk_at := c, freelist := (freelist s)[k := a # freelist s ! k]\<rparr>) j b \<longleftrightarrow>
    on_list s j b \<or> j = k \<and> b = a"
  using assms by (auto simp: on_list_def nth_list_update)

text \<open>What a successful sequence of links to the range \<open>R\<close> leaves behind.\<close>

definition carved :: "pgstate \<Rightarrow> nat set \<Rightarrow> pgstate \<Rightarrow> bool" where
  "carved s R t \<longleftrightarrow> lists_ok t \<and> free_bytes t = free_bytes s \<union> R \<and>
     t = s\<lparr>chunk_at := chunk_at t, freelist := freelist t\<rparr>"

lemma carved_refl: "lists_ok s \<Longrightarrow> carved s {} s"
  by (simp add: carved_def)

lemma carved_trans: "carved s R t \<Longrightarrow> carved t Q u \<Longrightarrow> carved s (R \<union> Q) u"
  unfolding carved_def
  by (cases s; cases t; cases u) (auto simp: Un_assoc)

lemma freechunk_link_ok:
  assumes "lists_ok s" "k < FREELIST_LEVELS" "order2size k dvd a" "blk a k \<inter> free_bytes s = {}"
  obtains t where "freechunk_link a k s = Inr t" "carved s (blk a k) t"
    "\<And>j b. on_list t j b \<longleftrightarrow> on_list s j b \<or> j = k \<and> b = a"
proof -
  let ?c = "(chunk_at s)(a := \<lparr>ch_level = int k, ch_magic = CHUNKMAGIC\<rparr>)"
  let ?f = "(freelist s)[k := a # freelist s ! k]"
  let ?s = "s\<lparr>chunk_at := ?c, freelist := ?f\<rparr>"
  note len = lists_ok_length [OF assms(1)]
  have on: "on_list ?s j b \<longleftrightarrow> on_list s j b \<or> j = k \<and> b = a" for j b
    by (rule on_list_link) (use len assms(2) in auto)
  have new: "\<not> on_list s j a" for j
    using assms(4) on_list_free [of s j a] blk_base [of a k] blk_base [of a j] by blast
  have apart: "on_list s j b \<Longrightarrow> blk b j \<inter> blk a k = {}" for j b
    using assms(4) on_list_free by blast
  have "distinct (?f ! j)" if "j < FREELIST_LEVELS" for j
    using that assms(1) len new [of j] by (cases "j = k") (auto simp: lists_ok_def on_list_def)
  moreover have "order2size j dvd b \<and> ?c b = \<lparr>ch_level = int j, ch_magic = CHUNKMAGIC\<rparr>" if "on_list ?s j b" for j b
    using that lists_ok_chunk [OF assms(1)] new assms(3) by (auto simp: on)
  moreover have "blk b j \<inter> blk b' j' = {}" if "on_list ?s j b" "on_list ?s j' b'" "(j, b) \<noteq> (j', b')" for j b j' b'
    using that apart lists_ok_disjoint [OF assms(1)] unfolding on by blast
  ultimately have "lists_ok ?s" using len unfolding lists_ok_def by simp
  moreover have "free_bytes ?s = free_bytes s \<union> blk a k"
    unfolding set_eq_iff in_free_bytes Un_iff on by blast
  ultimately show thesis
    using that [of ?s] assms(2) on by (simp add: freechunk_link_def carved_def)
qed

lemma LIST_REMOVE_ok:
  assumes "lists_ok s" "on_list s k a"
  obtains f where "LIST_REMOVE a s = Inr (s\<lparr>freelist := f\<rparr>)" "lists_ok (s\<lparr>freelist := f\<rparr>)"
    "free_bytes (s\<lparr>freelist := f\<rparr>) = free_bytes s - blk a k"
    "\<And>j b. on_list (s\<lparr>freelist := f\<rparr>) j b \<longleftrightarrow> on_list s j b \<and> b \<noteq> a"
proof -
  let ?f = "map (removeAll a) (freelist s)"
  let ?s = "s\<lparr>freelist := ?f\<rparr>"
  note len = lists_ok_length [OF assms(1)]
  have on: "on_list ?s j b \<longleftrightarrow> on_list s j b \<and> b \<noteq> a" for j b
    using len by (auto simp: on_list_def)
  have "list_ex (\<lambda>l. a \<in> set l) (freelist s)"
    using assms(2) len by (auto simp: on_list_def list_ex_iff intro!: bexI [of _ "freelist s ! k"])
  moreover have "lists_ok ?s"
  proof (rule lists_okI)
    show "distinct (freelist ?s ! j)" if "j < FREELIST_LEVELS" for j
      using that assms(1) len by (simp add: lists_ok_def distinct_removeAll)
    show "chunk_at ?s b = \<lparr>ch_level = int j, ch_magic = CHUNKMAGIC\<rparr>" "order2size j dvd b" if "on_list ?s j b" for j b
      using lists_ok_chunk [OF assms(1)] that on by simp_all
    show "j = j' \<and> b = b'" if "on_list ?s j b" "on_list ?s j' b'" "x \<in> blk b j" "x \<in> blk b' j'" for x j b j' b'
      using lists_ok_disjoint [OF assms(1)] that on by blast
  qed (simp add: len)
  moreover have "free_bytes ?s = free_bytes s - blk a k"
  proof -
    have "j = k" if "on_list s j a" for j
      using lists_ok_disjoint [OF assms(1) that assms(2) blk_base blk_base] by simp
    moreover have "b = a" if "on_list s j b" "x \<in> blk b j" "x \<in> blk a k" for x j b
      using lists_ok_disjoint [OF assms(1) that(1) assms(2) that(2,3)] by simp
    ultimately show ?thesis unfolding set_eq_iff in_free_bytes Diff_iff on by blast
  qed
  ultimately show thesis using that [of ?f] on by (simp add: LIST_REMOVE_def)
qed

lemma ctzl_dvd: "n \<noteq> 0 \<Longrightarrow> 2 ^ ctzl n dvd n \<and> (2 ^ j dvd n \<longrightarrow> j \<le> ctzl n)"
proof (induction n arbitrary: j rule: ctzl.induct)
  case (1 n)
  show ?case
  proof (cases "odd n")
    case True
    then have "2 ^ j dvd n \<Longrightarrow> j = 0" by (cases j) (auto dest: dvd_mult_left)
    with True show ?thesis by (auto simp: ctzl.simps [of n])
  next
    case False
    then obtain m where m: "n = 2 * m" by (auto elim: evenE)
    with 1(2) have "ctzl n = Suc (ctzl m)" by (subst ctzl.simps) simp
    moreover have "2 ^ ctzl m dvd m \<and> (2 ^ (j - 1) dvd m \<longrightarrow> j - 1 \<le> ctzl m)"
      using 1 m by simp
    ultimately show ?thesis using m by (cases j) auto
  qed
qed

lemma carve_bits_ok:
  assumes "BMK_PCPU_PAGE_SIZE dvd addr" "BMK_PCPU_PAGE_SIZE dvd rng" "addr \<noteq> 0" "rng \<noteq> 0"
  shows "BMK_PCPU_PAGE_SHIFT \<le> carve_bits addr rng" "carve_bits addr rng < 64"
    "2 ^ carve_bits addr rng dvd addr"
proof -
  have "12 \<le> ctzl addr"
    using ctzl_dvd [OF assms(3), of 12] assms(1) by (simp add: BMK_PCPU_PAGE_SIZE_def BMK_PCPU_PAGE_SHIFT_def)
  moreover have "(2 :: nat) ^ 12 < 2 ^ bit_length rng"
    using bit_length_bounds [OF assms(4)] dvd_imp_le [OF assms(2)] assms(4)
    by (simp add: BMK_PCPU_PAGE_SIZE_def BMK_PCPU_PAGE_SHIFT_def)
  then have "12 < bit_length rng" by (simp only: power_strict_increasing_iff)
  ultimately show "BMK_PCPU_PAGE_SHIFT \<le> carve_bits addr rng" "carve_bits addr rng < 64"
    by (auto simp: carve_bits_def clzl_def Let_def BMK_PCPU_PAGE_SHIFT_def)
  have "carve_bits addr rng \<le> ctzl addr" by (auto simp: carve_bits_def Let_def)
  then show "2 ^ carve_bits addr rng dvd addr"
    using ctzl_dvd [OF assms(3)] by (meson dvd_trans le_imp_power_dvd)
qed

text \<open>The chunks \<open>N\<close> that carving a range adds: aligned, inside the range, and no two of them buddies.\<close>

definition links :: "pgstate \<Rightarrow> (nat \<times> nat) set \<Rightarrow> pgstate \<Rightarrow> bool" where
  "links s N t \<longleftrightarrow> (\<forall>i x. on_list t i x \<longleftrightarrow> on_list s i x \<or> (x, i) \<in> N)"

definition tiles :: "(nat \<times> nat) set \<Rightarrow> nat set \<Rightarrow> bool" where
  "tiles N R \<longleftrightarrow> (\<forall>x i. (x, i) \<in> N \<longrightarrow> order2size i dvd x \<and> blk x i \<subseteq> R \<and> (buddy x i, i) \<notin> N)"

lemma carve_bits_maximal:
  assumes "addr \<noteq> 0" "rng \<noteq> 0" "rng < 2 ^ 64" "order2size i = 2 ^ carve_bits addr rng"
  shows "\<not> order2size (Suc i) dvd addr \<or> rng < 2 * order2size i"
proof (cases "carve_bits addr rng = ctzl addr")
  case True
  then have "\<not> 2 ^ Suc (carve_bits addr rng) dvd addr"
    using ctzl_dvd [OF assms(1), of "Suc (ctzl addr)"] by (metis not_less_eq_eq order.refl)
  then show ?thesis by (simp add: order2size_Suc assms(4))
next
  case False
  have "(2 :: nat) ^ (bit_length rng - 1) < 2 ^ 64"
    using bit_length_bounds [OF assms(2)] assms(3) by linarith
  then have "bit_length rng - 1 < 64" by (simp only: power_strict_increasing_iff)
  with False have "bit_length rng = Suc (carve_bits addr rng) \<or> bit_length rng = 0"
    by (auto simp: carve_bits_def clzl_def Let_def split: if_splits)
  then show ?thesis using bit_length_bounds [OF assms(2)] assms(2,4) by auto
qed

lemma tiles_insert:
  assumes N: "tiles N {a + order2size i..<a + rng}" and al: "order2size i dvd a" and le: "order2size i \<le> rng"
    and max: "\<not> order2size (Suc i) dvd a \<or> rng < 2 * order2size i"
  shows "tiles (insert (a, i) N) {a..<a + rng}"
proof -
  have new: "(buddy a i, i) \<notin> N"
  proof
    assume "(buddy a i, i) \<in> N"
    then have sub: "blk (buddy a i) i \<subseteq> {a + order2size i..<a + rng}" using N by (auto simp: tiles_def)
    then have "buddy a i \<in> {a + order2size i..<a + rng}" using blk_base by blast
    then have "a AND order2size i = 0" using order2size_pos [of i]
      by (auto simp: buddy_def simp del: order2size_pos split: if_splits)
    then have "order2size (Suc i) dvd a" using buddy_facts(2) [OF al] by (simp add: parent_def)
    moreover have "order2size i \<le> card {a + order2size i..<a + rng}"
      using card_mono [OF _ sub] by simp
    ultimately show False using max by simp
  qed
  moreover have "buddy a i \<noteq> a" using buddy_facts(5) [OF al] by (metis IntI blk_base empty_iff)
  moreover have "\<not> (buddy x j = a \<and> j = i)" if "(x, j) \<in> N" for x j
    using that N new buddy_facts(3) [of j x] by (auto simp: tiles_def)
  moreover have "blk a i \<subseteq> {a..<a + rng}" using le by (auto simp: blk_def)
  ultimately show ?thesis using N al unfolding tiles_def by fastforce
qed

lemma carverange_ok:
  assumes "lists_ok s" "BMK_PCPU_PAGE_SIZE dvd addr" "BMK_PCPU_PAGE_SIZE dvd rng" "addr \<noteq> 0"
    "addr + rng < 2 ^ 64" "{addr..<addr + rng} \<inter> free_bytes s = {}"
  shows "\<exists>t N. carverange addr rng s = Inr t \<and> carved s {addr..<addr + rng} t \<and>
    links s N t \<and> tiles N {addr..<addr + rng}"
  using assms
proof (induction addr rng s rule: carverange.induct)
  case (1 addr rng s)
  show ?case
  proof (cases "rng = 0")
    case True
    then show ?thesis using 1(2) 
      by (auto simp: carverange.simps carved_refl links_def tiles_def intro!: exI [of _ "{}"])
  next
    case False
    define i where "i = carve_bits addr rng - BMK_PCPU_PAGE_SHIFT"
    let ?a = "addr + order2size i" and ?r = "rng - order2size i"
    note cb = carve_bits_ok [OF 1(3,4,5) False]
    have size: "order2size i = 2 ^ carve_bits addr rng"
      using cb(1) by (simp add: order2size_def i_def)
    then have le: "order2size i \<le> rng" and al: "order2size i dvd addr" and i: "i < FREELIST_LEVELS"
      using carve_bits_le [OF False] cb by (simp_all add: i_def FREELIST_LEVELS_def BMK_PCPU_PAGE_SHIFT_def)
    then have "blk addr i \<subseteq> {addr..<addr + rng}" by (auto simp: blk_def)
    then have "blk addr i \<inter> free_bytes s = {}" using 1(7) by blast
    then obtain t where link: "freechunk_link addr i s = Inr t" "carved s (blk addr i) t"
      "\<And>j b. on_list t j b \<longleftrightarrow> on_list s j b \<or> j = i \<and> b = addr"
      using freechunk_link_ok [OF 1(2) i al] by metis
    have nowrap: "?a mod 2 ^ 64 = ?a" using le 1(6) by (intro mod_less) linarith
    have rest: "{addr..<addr + rng} = blk addr i \<union> {?a..<?a + ?r}" using le by (auto simp: blk_def)
    have "blk addr i \<inter> {?a..<?a + ?r} = {}" by (auto simp: blk_def)
    then have disj: "{?a..<?a + ?r} \<inter> free_bytes t = {}"
      using 1(7) rest link(2) unfolding carved_def by blast
    have "BMK_PCPU_PAGE_SIZE dvd ?a" "BMK_PCPU_PAGE_SIZE dvd ?r" "?a \<noteq> 0" "?a + ?r < 2 ^ 64"
      using 1(3-6) page_dvd_order2size le by (simp_all add: dvd_diff_nat)
    then obtain u N where u: "carverange ?a ?r t = Inr u" "carved t {?a..<?a + ?r} u"
        "links t N u" "tiles N {?a..<?a + ?r}"
      using 1(1) [OF False 1(5) _ i_def, of t, unfolded nowrap] cb(1) link(2) disj
      unfolding carved_def by auto
    have "carverange addr rng s = Inr u"
      using False 1(5) cb(1) nowrap link(1) u(1)
      by (subst carverange.simps) (simp add: i_def [symmetric] Let_def)
    moreover have "carved s {addr..<addr + rng} u" using carved_trans [OF link(2) u(2)] rest by simp
    moreover have "links s (insert (addr, i) N) u" using u(3) link(3) by (auto simp: links_def)
    moreover have "tiles (insert (addr, i) N) {addr..<addr + rng}"
      using tiles_insert [OF _ al le carve_bits_maximal [OF 1(5) False _ size]] u(4) 1(6) le by simp
    ultimately show ?thesis by blast
  qed
qed

end
