(* ===== verification/Page_Source.thy ===== *)
theory Page_Source
  imports Prelude
begin

text \<open>
  What a client of the page allocator may rely on: the contract between
  \<^verbatim>\<open>bmk_pgalloc\<close>/\<^verbatim>\<open>bmk_pgfree\<close> and the code that asks for pages (the byte allocator of
  \<^verbatim>\<open>memalloc.c\<close>, thread stacks, grant tables). The lemmas about clients are proved here once,
  from the contract alone.
\<close>

locale page_source =
  fixes alloc :: "nat \<Rightarrow> 's \<Rightarrow> (nat option \<times> 's) res"
    and release :: "nat \<Rightarrow> nat \<Rightarrow> 's \<Rightarrow> 's res"
    and invar :: "'s \<Rightarrow> bool"
    and avail :: "'s \<Rightarrow> nat set"
    and area :: "'s \<Rightarrow> nat set"
    and block :: "nat \<Rightarrow> nat \<Rightarrow> nat set"
    and ok_base :: "nat \<Rightarrow> nat \<Rightarrow> bool"
    and levels :: nat
  assumes alloc_returns: "invar s \<Longrightarrow> k < levels \<Longrightarrow> \<exists>r t. alloc k s = Inr (r, t)"
    and alloc_Some: "invar s \<Longrightarrow> k < levels \<Longrightarrow> alloc k s = Inr (Some a, t) \<Longrightarrow>
      invar t \<and> ok_base a k \<and> block a k \<subseteq> avail s \<and> avail t = avail s - block a k \<and> area t = area s"
    and alloc_None: "invar s \<Longrightarrow> k < levels \<Longrightarrow> alloc k s = Inr (None, t) \<Longrightarrow>
      t = s \<and> \<not> (\<exists>a. ok_base a k \<and> block a k \<subseteq> avail s)"
    and release_law: "invar s \<Longrightarrow> ok_base a k \<Longrightarrow> block a k \<subseteq> area s \<Longrightarrow> block a k \<inter> avail s = {} \<Longrightarrow>
      \<exists>t. release a k s = Inr t \<and> invar t \<and> avail t = avail s \<union> block a k \<and> area t = area s"
    and avail_area: "invar s \<Longrightarrow> avail s \<subseteq> area s"
begin

lemma alloc_release:
  assumes "invar s" "k < levels" "alloc k s = Inr (Some a, t)"
  shows "\<exists>u. release a k t = Inr u \<and> invar u \<and> avail u = avail s"
proof -
  have t: "invar t" "ok_base a k" "block a k \<subseteq> avail s" "avail t = avail s - block a k" "area t = area s"
    using alloc_Some [OF assms] by auto
  then have "block a k \<subseteq> area t" "block a k \<inter> avail t = {}"
    using avail_area [OF assms(1)] by auto
  then obtain u where "release a k t = Inr u" "invar u" "avail u = avail t \<union> block a k"
    using release_law [OF t(1,2)] by blast
  then show ?thesis using t by auto
qed

lemma alloc_succeeds:
  assumes "invar s" "k < levels" "ok_base a k" "block a k \<subseteq> avail s"
  shows "\<exists>b t. alloc k s = Inr (Some b, t)"
proof -
  obtain r t where rt: "alloc k s = Inr (r, t)" using alloc_returns [OF assms(1,2)] by blast
  then show ?thesis using alloc_None [OF assms(1,2), of t] assms(3,4) by (cases r) auto
qed

lemma alloc_alloc_disjoint:
  assumes "invar s" "k < levels" "j < levels" "alloc k s = Inr (Some a, t)" "alloc j t = Inr (Some b, u)"
  shows "block a k \<inter> block b j = {}"
  using alloc_Some [OF assms(1,2,4)] alloc_Some [OF _ assms(3,5)] by blast

end

end
