(* ===== verification/Pgalloc_Correct.thy ===== *)
theory Pgalloc_Correct
  imports Pgalloc Page_Source
begin

text \<open>
  Correctness of the page allocator: the bitmap agrees with the free lists, allocation and
  freeing preserve the invariant \<open>pg_wf\<close>, allocation finds a block whenever there is one, and
  every state reachable by clients keeps free and owned blocks a partition of the managed
  range. The allocator is shown to implement the contract of \<open>page_source\<close>.
\<close>

section \<open>The bitmap against the free bytes\<close>

lemma PAGE_SIZE_pos [simp]: "0 < BMK_PCPU_PAGE_SIZE"
  by (simp add: BMK_PCPU_PAGE_SIZE_def)

lemma va_to_pg_eq:
  assumes "minpage_addr s \<le> x" "x < 2 ^ 64"
  shows "va_to_pg s x = (x - minpage_addr s) div BMK_PCPU_PAGE_SIZE"
  using wrap_diff [OF assms] by (simp only: va_to_pg_def BMK_PCPU_PAGE_SIZE_def)

text \<open>A run of \<open>n\<close> whole pages inside the managed range.\<close>

definition page_run :: "pgstate \<Rightarrow> nat \<Rightarrow> nat \<Rightarrow> bool" where
  "page_run s virt n \<longleftrightarrow> BMK_PCPU_PAGE_SIZE dvd virt \<and> minpage_addr s \<le> virt \<and>
     virt + n * BMK_PCPU_PAGE_SIZE \<le> maxpage_addr s"

lemma page_run_fits:
  assumes "env_ok s" "page_run s virt n"
  shows "span_fits s virt n"
proof -
  define m where "m = (virt - minpage_addr s) div BMK_PCPU_PAGE_SIZE"
  have virt: "minpage_addr s \<le> virt" "virt < 2 ^ 64" "virt + n * BMK_PCPU_PAGE_SIZE \<le> maxpage_addr s"
    using assms by (auto simp: env_ok_def page_run_def)
  have "m + n \<le> (maxpage_addr s - minpage_addr s) div BMK_PCPU_PAGE_SIZE"
  proof -
    have "m * BMK_PCPU_PAGE_SIZE \<le> virt - minpage_addr s" by (simp add: m_def)
    then have "(m + n) * BMK_PCPU_PAGE_SIZE \<le> maxpage_addr s - minpage_addr s"
      using virt by (simp add: add_mult_distrib)
    then show ?thesis by (simp add: less_eq_div_iff_mult_less_eq)
  qed
  moreover have "(maxpage_addr s - minpage_addr s) div BMK_PCPU_PAGE_SIZE \<le> maxpage_addr s"
    by (meson diff_le_self div_le_dividend le_trans)
  ultimately show ?thesis
    using assms(1) virt unfolding span_fits_def va_to_pg_eq [OF virt(1,2)] m_def [symmetric] env_ok_def
    by linarith
qed

lemma page_run_pages:
  assumes "env_ok s" "page_run s virt n" "addr_is_managed s x"
  shows "va_to_pg s virt \<le> va_to_pg s x \<and> va_to_pg s x < va_to_pg s virt + n \<longleftrightarrow>
    x \<in> {virt..<virt + n * BMK_PCPU_PAGE_SIZE}"
proof -
  have r: "minpage_addr s \<le> virt" "virt < 2 ^ 64" "minpage_addr s \<le> x" "x < 2 ^ 64"
    using assms by (auto simp: env_ok_def page_run_def addr_is_managed_def)
  have "BMK_PCPU_PAGE_SIZE dvd virt - minpage_addr s"
    using assms by (simp add: env_ok_def page_run_def dvd_diff_nat)
  then obtain m where m: "virt - minpage_addr s = m * BMK_PCPU_PAGE_SIZE" by (metis dvd_def mult.commute)
  then have virt: "virt = minpage_addr s + m * BMK_PCPU_PAGE_SIZE" using r(1) by simp
  have "va_to_pg s virt = m" using r m by (simp add: va_to_pg_eq)
  moreover have "m \<le> va_to_pg s x \<longleftrightarrow> virt \<le> x"
    using r by (auto simp: va_to_pg_eq less_eq_div_iff_mult_less_eq virt)
  moreover have "va_to_pg s x < m + n \<longleftrightarrow> x < virt + n * BMK_PCPU_PAGE_SIZE"
    using r by (auto simp: va_to_pg_eq div_less_iff_less_mult virt add_mult_distrib)
  ultimately show ?thesis by simp
qed

lemma managed_page_in_map:
  assumes "env_ok s" "addr_is_managed s x"
  shows "va_to_pg s x < PAGES_PER_MAPWORD * length (alloc_bitmap s)"
proof -
  have "va_to_pg s x \<le> (maxpage_addr s - minpage_addr s) div BMK_PCPU_PAGE_SIZE"
    using assms by (subst va_to_pg_eq) (auto simp: env_ok_def addr_is_managed_def intro!: div_le_mono)
  then show ?thesis using assms(1) by (simp add: env_ok_def)
qed

lemma va_to_pg_bitmap [simp]: "va_to_pg (s\<lparr>alloc_bitmap := bm\<rparr>) = va_to_pg s"
  by (simp add: va_to_pg_def fun_eq_iff)

lemma map_ops_ok:
  assumes "env_ok s" "page_run s virt n" "map_ok s F"
  defines "R \<equiv> {virt..<virt + n * BMK_PCPU_PAGE_SIZE}"
  shows "\<exists>bm. map_alloc virt n s = Inr (s\<lparr>alloc_bitmap := bm\<rparr>) \<and> length bm = length (alloc_bitmap s) \<and>
      map_ok (s\<lparr>alloc_bitmap := bm\<rparr>) (F - R)" (is ?A)
    and "\<exists>bm. map_free virt n s = Inr (s\<lparr>alloc_bitmap := bm\<rparr>) \<and> length bm = length (alloc_bitmap s) \<and>
      map_ok (s\<lparr>alloc_bitmap := bm\<rparr>) (F \<union> R)" (is ?F)
proof -
  note fits = page_run_fits [OF assms(1,2)] and pages = page_run_pages [OF assms(1,2)]
    and inmap = managed_page_in_map [OF assms(1)]
  have man: "addr_is_managed (s\<lparr>alloc_bitmap := bm\<rparr>) x \<longleftrightarrow> addr_is_managed s x" for bm x
    by (simp add: addr_is_managed_def)
  have "map_ok (s\<lparr>alloc_bitmap := bm_update (OR) (va_to_pg s virt) (va_to_pg s virt + n) (alloc_bitmap s)\<rparr>) (F - R)"
    unfolding map_ok_def man R_def
    using assms(3) pages inmap bm_update_page [where g = "(OR)" and G = "(\<or>)"]
    by (auto simp: bit_or_iff map_ok_def)
  then show ?A unfolding map_alloc_eq [OF fits] using length_bm_update by blast
  have "map_ok (s\<lparr>alloc_bitmap := bm_update (\<lambda>w m. w AND NOT m) (va_to_pg s virt) (va_to_pg s virt + n)
      (alloc_bitmap s)\<rparr>) (F \<union> R)"
    unfolding map_ok_def man R_def
    using assms(3) pages inmap bm_update_page [where g = "\<lambda>w m. w AND NOT m" and G = "\<lambda>w m. w \<and> \<not> m"]
    by (auto simp: bit_and_iff bit_not_iff map_ok_def)
  then show ?F unfolding map_free_eq [OF fits] using length_bm_update by blast
qed

lemma allocated_in_map_eq:
  assumes "env_ok s" "map_ok s F" "addr_is_managed s x"
  shows "allocated_in_map s x = Inr (x \<notin> F)"
proof -
  have "va_to_pg s x div PAGES_PER_MAPWORD < length (alloc_bitmap s)"
    using managed_page_in_map [OF assms(1,3)] by (simp add: page_less_length)
  moreover have "page_bit (alloc_bitmap s) (va_to_pg s x) = (x \<notin> F)"
    using assms(2,3) by (simp add: map_ok_def)
  ultimately show ?thesis
    using assms(3) by (simp add: allocated_in_map_def Let_def page_bit_def and_exp_eq_0_iff_not_bit)
qed

section \<open>Allocation\<close>

lemma pgalloc_bucket_Some:
  "pgalloc_bucket s b align = Some (k, a) \<Longrightarrow> b \<le> k \<and> on_list s k a \<and> a AND (align - 1) = 0"
proof (induction s b align rule: pgalloc_bucket.induct)
  case (1 s b align)
  then show ?case
    by (auto simp: pgalloc_bucket.simps [of s b align] satisfies_p_def on_list_def find_Some_iff
        split: if_splits option.splits)
qed

lemma pgalloc_bucket_None:
  "pgalloc_bucket s b align = None \<Longrightarrow> b \<le> k \<Longrightarrow> on_list s k a \<Longrightarrow> a AND (align - 1) \<noteq> 0"
proof (induction s b align rule: pgalloc_bucket.induct)
  case (1 s b align)
  then have b: "b < FREELIST_LEVELS" by (simp add: on_list_def)
  with 1(2) have "satisfies_p s b align = None" "pgalloc_bucket s (b + 1) align = None"
    by (simp_all add: pgalloc_bucket.simps [of s b align] split: option.splits)
  with 1 b show ?case
    by (cases "b = k") (auto simp: satisfies_p_def on_list_def find_None_iff)
qed

lemma and_pow2_minus_1: "a AND (2 ^ j - 1) = a mod (2 :: nat) ^ j"
  by (metis mask_eq_exp_minus_1 take_bit_eq_mask take_bit_eq_mod)

lemma blk_pages: "blk a k = {a..<a + 2 ^ k * BMK_PCPU_PAGE_SIZE}"
  by (simp add: blk_def order2size_pages)

lemma blk_page_run:
  assumes "env_ok s" "blk a k \<subseteq> managed s" "order2size k dvd a"
  shows "page_run s a (2 ^ k)"
proof -
  have "a + order2size k - 1 \<in> blk a k"
    unfolding blk_def atLeastLessThan_iff using order2size_pos [of k] by linarith
  then have "a \<in> managed s" "a + order2size k - 1 \<in> managed s"
    using assms(2) blk_base by blast+
  moreover have "BMK_PCPU_PAGE_SIZE dvd a"
    using assms(3) page_dvd_order2size dvd_trans by blast
  ultimately show ?thesis using order2size_pos [of k]
    unfolding page_run_def managed_def order2size_pages [symmetric] by auto
qed

lemma order2size_kb: "order2size k div 2 ^ 10 * 1024 = order2size k"
  by (simp add: order2size_def BMK_PCPU_PAGE_SHIFT_def power_add)

lemma carve_rest:
  assumes "order2size k \<le> order2size b"
  shows "blk a b = blk a k \<union> {a + order2size k..<a + order2size k + (order2size b - order2size k)}"
  using assms by (auto simp: blk_def)

lemma order2size_mono: "j \<le> k \<Longrightarrow> order2size j \<le> order2size k"
  by (simp add: order2size_def)

lemma env_ok_cong:
  "minpage_addr t = minpage_addr s \<Longrightarrow> maxpage_addr t = maxpage_addr s \<Longrightarrow>
   length (alloc_bitmap t) = length (alloc_bitmap s) \<Longrightarrow> env_ok t = env_ok s"
  by (simp add: env_ok_def)

lemma map_ok_cong:
  "minpage_addr t = minpage_addr s \<Longrightarrow> maxpage_addr t = maxpage_addr s \<Longrightarrow>
   alloc_bitmap t = alloc_bitmap s \<Longrightarrow> map_ok t = map_ok s"
  by (simp add: map_ok_def addr_is_managed_def va_to_pg_def fun_eq_iff)

lemma carvedD:
  assumes "carved s R t"
  shows "lists_ok t" "free_bytes t = free_bytes s \<union> R"
    "minpage_addr t = minpage_addr s" "maxpage_addr t = maxpage_addr s" "alloc_bitmap t = alloc_bitmap s"
    "pgalloc_totalkb t = pgalloc_totalkb s" "pgalloc_usedkb t = pgalloc_usedkb s" "loadmem_called t = loadmem_called s"
  using assms unfolding carved_def by (cases s; cases t; simp)+

lemma coalesced_subset: "coalesced s \<Longrightarrow> (\<And>i x. on_list t i x \<Longrightarrow> on_list s i x) \<Longrightarrow> coalesced t"
  unfolding coalesced_def by blast

lemma links_coalesced:
  assumes co: "coalesced s" and lo: "lists_ok s" and t: "links s N t" "tiles N R" and R: "R \<subset> blk a b"
    and al: "order2size b dvd a" and out: "blk a b \<inter> free_bytes s = {}"
  shows "coalesced t"
proof -
  have key: "\<not> on_list s i (buddy x i)" if "(x, i) \<in> N" for x i
  proof
    assume on: "on_list s i (buddy x i)"
    have x: "order2size i dvd x" "blk x i \<subseteq> R" using that t(2) by (auto simp: tiles_def)
    have "finite R" using R finite_subset [OF psubset_imp_subset finite_blk] by blast
    then have "order2size i \<le> card R" using card_mono [OF _ x(2)] by simp
    moreover have "card R < order2size b" using psubset_card_mono [OF finite_blk R] by simp
    ultimately have "order2size i < order2size b" by simp
    then have "Suc i \<le> b" using order2size_mono [of b i] by (meson not_less_eq_eq not_le)
    moreover have "x \<in> blk (parent x i) (Suc i)" "x \<in> blk a b"
      using buddy_facts(4) [OF x(1)] x(2) R blk_base by blast+
    ultimately have "blk (parent x i) (Suc i) \<subseteq> blk a b"
      using blk_nested buddy_facts(2) [OF x(1)] al by blast
    then have "buddy x i \<in> blk a b" using buddy_facts(4) [OF x(1)] blk_base by blast
    then show False using on_list_free [OF on] out blk_base by blast
  qed
  have conv: "(buddy x i, i) \<notin> N" if "on_list s i x" for x i
    using key [of "buddy x i" i] buddy_facts(3) [OF lists_ok_chunk(1) [OF lo that]] that by auto
  have on: "on_list t i x \<longleftrightarrow> on_list s i x \<or> (x, i) \<in> N" for i x
    using t(1) by (simp add: links_def)
  have new: "(buddy x i, i) \<notin> N" if "(x, i) \<in> N" for x i
    using t(2) that by (simp add: tiles_def)
  show ?thesis
    unfolding coalesced_def on using co key conv new by (auto simp: coalesced_def)
qed

text \<open>Unlinking a chunk and returning the tail that is not needed.\<close>

lemma split_chunk:
  assumes wf: "pg_wf s" and on: "on_list s b a" and k: "k \<le> b"
  obtains s1 t where "LIST_REMOVE a s = Inr s1" "ch_magic (chunk_at s1 a) = CHUNKMAGIC"
    "carverange ((a + order2size k) mod 2 ^ 64) (order2size b - order2size k) (set_magic a 0 s1) = Inr t"
    "lists_ok t" "free_bytes t = free_bytes s - blk a k" "coalesced t"
    "\<exists>c f. t = s\<lparr>chunk_at := c, freelist := f\<rparr>"
proof -
  have lo: "lists_ok s" and sub: "free_bytes s \<subseteq> managed s" and env: "env_ok s" and co: "coalesced s"
    using wf by (auto simp: pg_wf_def)
  obtain f where rm: "LIST_REMOVE a s = Inr (s\<lparr>freelist := f\<rparr>)" "lists_ok (s\<lparr>freelist := f\<rparr>)"
    "free_bytes (s\<lparr>freelist := f\<rparr>) = free_bytes s - blk a b"
    "\<And>j x. on_list (s\<lparr>freelist := f\<rparr>) j x \<longleftrightarrow> on_list s j x \<and> x \<noteq> a"
    by (rule LIST_REMOVE_ok [OF lo on]) blast
  define s2 where "s2 = set_magic a 0 (s\<lparr>freelist := f\<rparr>)"
  have fl: "freelist s2 = f" and fb: "free_bytes s2 = free_bytes s - blk a b"
    using rm(3) by (simp_all add: s2_def set_magic_def free_bytes_def)
  have lo2: "lists_ok s2"
    by (rule lists_ok_write [OF rm(2)]) (auto simp: fl s2_def set_magic_def rm(3))
  have le: "order2size k \<le> order2size b" using k by (rule order2size_mono)
  have run: "a + order2size b \<le> maxpage_addr s"
    using blk_page_run [OF env] on_list_free [OF on] sub lists_ok_chunk [OF lo on]
    by (auto simp: page_run_def order2size_pages)
  let ?R = "{a + order2size k..<a + order2size k + (order2size b - order2size k)}"
  have disj: "?R \<inter> free_bytes s2 = {}" and dj: "blk a k \<inter> ?R = {}"
    using carve_rest [OF le, of a] fb by (blast, auto simp: blk_def)
  have lt: "a + order2size k + (order2size b - order2size k) < 2 ^ 64" "(a + order2size k) mod 2 ^ 64 = a + order2size k"
    using run le env by (auto simp: env_ok_def)
  have "BMK_PCPU_PAGE_SIZE dvd a + order2size k" "BMK_PCPU_PAGE_SIZE dvd order2size b - order2size k"
    using lists_ok_chunk(1) [OF lo on] page_dvd_order2size dvd_trans by (blast intro: dvd_add dvd_diff_nat)+
  then obtain t N where t: "carverange (a + order2size k) (order2size b - order2size k) s2 = Inr t" "carved s2 ?R t"
    and N: "links s2 N t" "tiles N ?R"
    using carverange_ok [OF lo2 _ _ _ lt(1) disj] by auto
  have "free_bytes t = free_bytes s - blk a k"
    using carvedD(2) [OF t(2)] fb carve_rest [OF le, of a] on_list_free [OF on] dj by auto
  moreover have "coalesced t"
  proof (rule links_coalesced [OF _ lo2 N _ lists_ok_chunk(1) [OF lo on]])
    show "coalesced s2" using rm(4) by (intro coalesced_subset [OF co]) (simp add: on_list_def fl)
    show "?R \<subset> blk a b" using carve_rest [OF le, of a] dj blk_base [of a k] by blast
    show "blk a b \<inter> free_bytes s2 = {}" using fb by blast
  qed
  moreover have "\<exists>c f. t = s\<lparr>chunk_at := c, freelist := f\<rparr>"
    using t(2) unfolding carved_def s2_def set_magic_def by (cases s; cases t) auto
  ultimately show thesis
    using that [OF rm(1), of t] t(1) carvedD(1) [OF t(2)] lists_ok_chunk(2) [OF lo on] lt(2)
    by (simp add: s2_def)
qed

definition alloc_post :: "pgstate \<Rightarrow> nat \<Rightarrow> nat \<Rightarrow> nat option \<Rightarrow> pgstate \<Rightarrow> bool" where
  "alloc_post s k align r t \<longleftrightarrow> (case r of
     None \<Rightarrow> t = s \<and> (\<forall>j a. k \<le> j \<longrightarrow> on_list s j a \<longrightarrow> \<not> align dvd a)
   | Some a \<Rightarrow> align dvd a \<and> order2size k dvd a \<and> blk a k \<subseteq> free_bytes s \<and>
       free_bytes t = free_bytes s - blk a k \<and>
       minpage_addr t = minpage_addr s \<and> maxpage_addr t = maxpage_addr s)"

lemma usage_bound: "env_ok s \<Longrightarrow> usage_ok s F \<Longrightarrow> pgalloc_usedkb s < 2 ^ 54"
  by (auto simp: env_ok_def usage_ok_def)

lemma usage_alloc:
  assumes "env_ok s" "usage_ok s F" "blk a k \<subseteq> F" "finite F"
  shows "1024 * ((pgalloc_usedkb s + order2size k div 2 ^ 10) mod 2 ^ 64) + card (F - blk a k) =
    maxpage_addr s - minpage_addr s"
proof -
  have c: "card (F - blk a k) + order2size k = card F"
    using assms(3,4) card_mono [of F "blk a k"] by (simp add: card_Diff_subset)
  then have "order2size k \<le> maxpage_addr s - minpage_addr s"
    using assms(2) by (simp add: usage_ok_def)
  then have "1024 * (order2size k div 2 ^ 10) < 2 ^ 64"
    using order2size_kb [of k] assms(1) unfolding env_ok_def by linarith
  then have "pgalloc_usedkb s + order2size k div 2 ^ 10 < 2 ^ 64"
    using usage_bound [OF assms(1,2)] by simp
  then have "(pgalloc_usedkb s + order2size k div 2 ^ 10) mod 2 ^ 64 = pgalloc_usedkb s + order2size k div 2 ^ 10"
    by (rule mod_less)
  then show ?thesis using c assms(2) order2size_kb [of k] unfolding usage_ok_def by linarith
qed

lemma bmk_pgalloc_align_ok:
  assumes wf: "pg_wf s" and k: "k < FREELIST_LEVELS" and j: "align = 2 ^ j" "BMK_PCPU_PAGE_SHIFT \<le> j"
  shows "\<exists>r t. bmk_pgalloc_align (int k) align s = Inr (r, t) \<and> pg_wf t \<and> alloc_post s k align r t"
proof -
  have env: "env_ok s" and sub: "free_bytes s \<subseteq> managed s" and map: "map_ok s (free_bytes s)"
    and use: "usage_ok s (free_bytes s)" and lo: "lists_ok s"
    using wf by (auto simp: pg_wf_def)
  have al: "x AND (align - 1) = 0 \<longleftrightarrow> align dvd x" for x
    by (simp add: j(1) and_pow2_minus_1 dvd_eq_mod_eq_0 del: One_nat_def)
  have ge: "align \<ge> BMK_PCPU_PAGE_SIZE"
    using j by (simp add: BMK_PCPU_PAGE_SIZE_def)
  have guards: "align AND (align - 1) = 0" "int k mod 2 ^ 32 < int FREELIST_LEVELS"
    using k unfolding al by (auto simp: FREELIST_LEVELS_def BMK_PCPU_PAGE_SHIFT_def)
  show ?thesis
  proof (cases "pgalloc_bucket s k align")
    case None
    have "\<not> align dvd a" if "k \<le> i" "on_list s i a" for i a
      using pgalloc_bucket_None [OF None that] unfolding al .
    then show ?thesis
      using wf ge guards None unfolding bmk_pgalloc_align_def alloc_post_def by simp
  next
    case (Some r)
    obtain b a where r: "r = (b, a)" by (cases r)
    have on: "k \<le> b" "on_list s b a" "align dvd a"
      using pgalloc_bucket_Some [OF Some [unfolded r]] unfolding al by simp_all
    obtain s1 c f where st: "LIST_REMOVE a s = Inr s1" "ch_magic (chunk_at s1 a) = CHUNKMAGIC"
      "carverange ((a + order2size k) mod 2 ^ 64) (order2size b - order2size k) (set_magic a 0 s1) =
        Inr (s\<lparr>chunk_at := c, freelist := f\<rparr>)"
      "lists_ok (s\<lparr>chunk_at := c, freelist := f\<rparr>)"
      "free_bytes (s\<lparr>chunk_at := c, freelist := f\<rparr>) = free_bytes s - blk a k"
      "coalesced (s\<lparr>chunk_at := c, freelist := f\<rparr>)"
      using split_chunk [OF wf on(2,1)] by metis
    define t where "t = s\<lparr>chunk_at := c, freelist := f\<rparr>"
    have dv: "order2size k dvd a" using lists_ok_chunk(1) [OF lo on(2)] order2size_dvd [OF on(1)] dvd_trans by blast
    have bf: "blk a k \<subseteq> free_bytes s"
      using on_list_free [OF on(2)] order2size_mono [OF on(1)] by (auto simp: blk_def)
    have env_t: "env_ok t" and map_t: "map_ok t (free_bytes s)" and run: "page_run t a (2 ^ k)"
      using env map blk_page_run [OF env _ dv] bf sub
      by (auto simp: t_def env_ok_def map_ok_def addr_is_managed_def va_to_pg_def page_run_def)
    obtain bm where bm: "map_alloc a (2 ^ k) t = Inr (t\<lparr>alloc_bitmap := bm\<rparr>)"
      "length bm = length (alloc_bitmap t)" "map_ok (t\<lparr>alloc_bitmap := bm\<rparr>) (free_bytes s - blk a k)"
      using map_ops_ok(1) [OF env_t run map_t] by (auto simp: blk_pages)
    let ?u = "t\<lparr>alloc_bitmap := bm, pgalloc_usedkb := (pgalloc_usedkb s + order2size k div 2 ^ 10) mod 2 ^ 64\<rparr>"
    have "free_bytes ?u = free_bytes s - blk a k" "lists_ok ?u"
      using st(4,5) lists_ok_write [OF st(4), of ?u] by (simp_all add: t_def free_bytes_def)
    moreover have "map_ok ?u (free_bytes s - blk a k)"
      using bm(3) by (simp add: map_ok_def addr_is_managed_def va_to_pg_def)
    moreover have "usage_ok ?u (free_bytes s - blk a k)"
      using usage_alloc [OF env use bf] use by (simp add: usage_ok_def t_def)
    moreover have "coalesced ?u"
      using st(6) by (simp add: coalesced_def on_list_def t_def)
    ultimately have "pg_wf ?u" "alloc_post s k align (Some a) ?u"
      using env bm(2) sub bf on(3) dv by (auto simp: pg_wf_def alloc_post_def env_ok_def t_def managed_def)
    moreover have "bmk_pgalloc_align (int k) align s = Inr (Some a, ?u)"
      using st ge guards Some r bm(1) on(3) al
      by (simp add: bmk_pgalloc_align_def t_def [symmetric] Let_def) (simp add: t_def)
    ultimately show ?thesis by blast
  qed
qed

section \<open>Freeing\<close>

text \<open>The state of the coalescing loop: the block \<open>(a, k)\<close> is free but not yet linked.\<close>

definition merging :: "pgstate \<Rightarrow> nat \<Rightarrow> nat \<Rightarrow> bool" where
  "merging s a k \<longleftrightarrow> env_ok s \<and> lists_ok s \<and> order2size k dvd a \<and> blk a k \<inter> free_bytes s = {} \<and>
     free_bytes s \<union> blk a k \<subseteq> managed s \<and> map_ok s (free_bytes s \<union> blk a k)"

lemma merging_level: "merging s a k \<Longrightarrow> k < FREELIST_LEVELS"
proof -
  assume m: "merging s a k"
  then have "page_run s a (2 ^ k)" by (intro blk_page_run) (auto simp: merging_def)
  then have "order2size k < 2 ^ 64"
    using m by (auto simp: page_run_def merging_def env_ok_def order2size_pages)
  then have "k + 12 < 64" unfolding order2size_def BMK_PCPU_PAGE_SHIFT_def
    by (simp only: power_strict_increasing_iff)
  then show ?thesis by (simp add: FREELIST_LEVELS_def BMK_PCPU_PAGE_SHIFT_def)
qed

lemma chunk_at_buddy:
  assumes "merging s a k" "on_list s j b" "buddy a k \<in> blk b j"
  shows "b = buddy a k" "j \<le> k"
proof -
  have lo: "lists_ok s" and al: "order2size k dvd a" and out: "blk a k \<inter> free_bytes s = {}"
    using assms(1) by (auto simp: merging_def)
  note bf = buddy_facts [OF al] and dv = lists_ok_chunk(1) [OF lo assms(2)]
  show le: "j \<le> k"
  proof (rule ccontr)
    assume "\<not> j \<le> k"
    then have "blk (parent a k) (Suc k) \<subseteq> blk b j"
      using blk_nested [OF bf(2) dv, of "buddy a k"] assms(3) bf(4) by simp
    then have "a \<in> free_bytes s" using bf(4) on_list_free [OF assms(2)] blk_base [of a k] by blast
    with out show False using blk_base by blast
  qed
  have "order2size j dvd buddy a k" using bf(1) order2size_dvd [OF le] dvd_trans by blast
  then have "blk (buddy a k) j \<subseteq> blk b j"
    using blk_nested [OF _ dv order.refl blk_base assms(3)] by simp
  moreover have "b \<in> blk (buddy a k) j"
    using multiples_apart [OF \<open>order2size j dvd buddy a k\<close> dv] assms(3) by (simp add: blk_def)
  ultimately show "b = buddy a k"
    using assms(3) by (simp add: blk_def)
qed

lemma cannot_merge_eq:
  assumes "merging s a k"
  shows "cannot_merge s (buddy a k) k = Inr (\<not> on_list s k (buddy a k))"
proof -
  have env: "env_ok s" and lo: "lists_ok s" and al: "order2size k dvd a"
    and sub: "free_bytes s \<subseteq> managed s" and map: "map_ok s (free_bytes s \<union> blk a k)"
    using assms by (auto simp: merging_def)
  let ?b = "buddy a k"
  have off: "?b \<notin> free_bytes s \<Longrightarrow> \<not> on_list s k ?b"
    using on_list_free blk_base by blast
  have nin: "?b \<notin> blk a k" using buddy_facts(5) [OF al] blk_base by blast
  show ?thesis
  proof (cases "addr_is_managed s ?b")
    case False
    then have "?b \<notin> free_bytes s" using sub by (auto simp: addr_is_managed_def managed_def)
    then show ?thesis using False off by (simp add: cannot_merge_def)
  next
    case True
    note alloc = allocated_in_map_eq [OF env map True]
    show ?thesis
    proof (cases "?b \<in> free_bytes s")
      case False
      then show ?thesis using True alloc nin off by (simp add: cannot_merge_def)
    next
      case in_free: True
      then obtain j where j: "on_list s j ?b"
        unfolding in_free_bytes using chunk_at_buddy(1) [OF assms] by blast
      then have "on_list s k ?b \<longleftrightarrow> j = k"
        using lists_ok_disjoint [OF lo j _ blk_base blk_base] by blast
      then show ?thesis
        using True alloc in_free lists_ok_chunk(2) [OF lo j] by (simp add: cannot_merge_def chunklevel_def)
    qed
  qed
qed

definition lists_only :: "pgstate \<Rightarrow> pgstate \<Rightarrow> bool" where
  "lists_only s t \<longleftrightarrow> t = s\<lparr>chunk_at := chunk_at t, freelist := freelist t\<rparr>"

lemma lists_only_refl: "lists_only s s"
  by (simp add: lists_only_def)

lemma lists_only_trans: "lists_only s t \<Longrightarrow> lists_only t u \<Longrightarrow> lists_only s u"
  unfolding lists_only_def by (cases s; cases t; cases u) simp

lemma lists_onlyD:
  assumes "lists_only s t"
  shows "minpage_addr t = minpage_addr s" "maxpage_addr t = maxpage_addr s" "alloc_bitmap t = alloc_bitmap s"
    "pgalloc_totalkb t = pgalloc_totalkb s" "pgalloc_usedkb t = pgalloc_usedkb s"
  using assms unfolding lists_only_def by (cases s; cases t; simp)+

lemma merge_step:
  assumes m: "merging s a k" and on: "on_list s k (buddy a k)"
  obtains t where "LIST_REMOVE (buddy a k) (set_magic (buddy a k) 0 (set_magic a 0 s)) = Inr t"
    "merging t (parent a k) (Suc k)" "free_bytes t \<union> blk (parent a k) (Suc k) = free_bytes s \<union> blk a k"
    "\<And>i x. on_list t i x \<Longrightarrow> on_list s i x" "lists_only s t"
proof -
  let ?b = "buddy a k"
  have lo: "lists_ok s" and al: "order2size k dvd a" and out: "blk a k \<inter> free_bytes s = {}"
    and sub: "free_bytes s \<union> blk a k \<subseteq> managed s" and map: "map_ok s (free_bytes s \<union> blk a k)"
    and env: "env_ok s"
    using m by (auto simp: merging_def)
  note bf = buddy_facts [OF al]
  obtain f where f: "LIST_REMOVE ?b s = Inr (s\<lparr>freelist := f\<rparr>)" "lists_ok (s\<lparr>freelist := f\<rparr>)"
    "free_bytes (s\<lparr>freelist := f\<rparr>) = free_bytes s - blk ?b k"
    "\<And>j x. on_list (s\<lparr>freelist := f\<rparr>) j x \<longleftrightarrow> on_list s j x \<and> x \<noteq> ?b"
    by (rule LIST_REMOVE_ok [OF lo on]) blast
  define u where "u = set_magic ?b 0 (set_magic a 0 s)"
  define t where "t = u\<lparr>freelist := f\<rparr>"
  have "LIST_REMOVE ?b u = Inr t"
    using f(1) by (cases s) (auto simp: LIST_REMOVE_def u_def t_def set_magic_def split: if_splits)
  moreover have only: "lists_only s t"
    by (cases s) (simp add: lists_only_def t_def u_def set_magic_def)
  moreover have fb: "free_bytes t = free_bytes s - blk ?b k"
    using f(3) by (simp add: free_bytes_def t_def)
  moreover have onl: "on_list t i x \<Longrightarrow> on_list s i x" for i x
    using f(4) by (simp add: on_list_def t_def)
  moreover have un: "free_bytes t \<union> blk (parent a k) (Suc k) = free_bytes s \<union> blk a k"
    using bf(4) fb on_list_free [OF on] by blast
  moreover have "merging t (parent a k) (Suc k)"
  proof -
    have "a \<notin> free_bytes s" "?b \<notin> free_bytes s - blk ?b k" using out blk_base by blast+
    then have "lists_ok t"
      by (intro lists_ok_write [OF f(2)]) (auto simp: t_def u_def set_magic_def f(3))
    moreover have "blk (parent a k) (Suc k) \<inter> free_bytes t = {}"
      using bf(4) fb out by blast
    ultimately show ?thesis
      using env map sub bf(2) un lists_onlyD [OF only] unfolding merging_def
      by (simp add: env_ok_def map_ok_def addr_is_managed_def va_to_pg_def managed_def)
  qed
  ultimately show thesis using that [of t] by (simp add: u_def)
qed

lemma merging_neighbour:
  assumes "merging s a k"
  shows "a AND order2size k \<noteq> 0 \<Longrightarrow> (a + 2 ^ 64 - order2size k) mod 2 ^ 64 = buddy a k \<and> buddy a k = parent a k"
    and "a AND order2size k = 0 \<Longrightarrow> (a + order2size k) mod 2 ^ 64 = buddy a k \<and> parent a k = a"
proof -
  have run: "a + order2size k < 2 ^ 64"
    using blk_page_run [of s a k] assms by (auto simp: merging_def page_run_def env_ok_def order2size_pages)
  then show "a AND order2size k = 0 \<Longrightarrow> (a + order2size k) mod 2 ^ 64 = buddy a k \<and> parent a k = a"
    by (simp add: buddy_def parent_def)
  assume set: "a AND order2size k \<noteq> 0"
  then have "a \<noteq> 0" "order2size k dvd a" using assms by (auto simp: merging_def)
  then have "order2size k \<le> a" by (simp add: dvd_imp_le)
  then show "(a + 2 ^ 64 - order2size k) mod 2 ^ 64 = buddy a k \<and> buddy a k = parent a k"
    using wrap_diff [of "order2size k" a "2 ^ 64"] run set unfolding buddy_def parent_def by simp
qed

text \<open>One iteration of the loop, in terms of buddies.\<close>

lemma pgfree_loop_step:
  assumes m: "merging s a k"
  shows "pgfree_loop a k s =
    (if on_list s k (buddy a k)
     then bindE (LIST_REMOVE (buddy a k) (set_magic (buddy a k) 0 (set_magic a 0 s))) (pgfree_loop (parent a k) (Suc k))
     else Inr (a, k, s))"
proof (cases "a AND order2size k = 0")
  case True
  then show ?thesis
    using merging_level [OF m] merging_neighbour(2) [OF m True] cannot_merge_eq [OF m]
    by (subst pgfree_loop.simps) (simp add: Let_def)
next
  case False
  have eq: "(a + 2 ^ 64 - order2size k) mod 2 ^ 64 = parent a k" "buddy a k = parent a k"
    using merging_neighbour(1) [OF m False] by simp_all
  show ?thesis
    using merging_level [OF m] cannot_merge_eq [OF m] False unfolding eq(2)
    by (subst pgfree_loop.simps) (simp add: Let_def eq(1) [simplified])
qed

lemma pgfree_loop_ok:
  assumes "merging s a k"
  shows "\<exists>b j t. pgfree_loop a k s = Inr (b, j, t) \<and> merging t b j \<and>
    free_bytes t \<union> blk b j = free_bytes s \<union> blk a k \<and> \<not> on_list t j (buddy b j) \<and>
    (\<forall>i x. on_list t i x \<longrightarrow> on_list s i x) \<and> lists_only s t"
  using assms
proof (induction "FREELIST_LEVELS - k" arbitrary: a k s)
  case 0
  then show ?case using merging_level by fastforce
next
  case (Suc n)
  show ?case
  proof (cases "on_list s k (buddy a k)")
    case False
    then show ?thesis using Suc(3) by (auto simp: pgfree_loop_step [OF Suc(3)] lists_only_refl)
  next
    case True
    obtain t where t: "LIST_REMOVE (buddy a k) (set_magic (buddy a k) 0 (set_magic a 0 s)) = Inr t"
      "merging t (parent a k) (Suc k)" "free_bytes t \<union> blk (parent a k) (Suc k) = free_bytes s \<union> blk a k"
      "\<And>i x. on_list t i x \<Longrightarrow> on_list s i x" "lists_only s t"
      by (rule merge_step [OF Suc(3) True]) blast
    have n: "n = FREELIST_LEVELS - Suc k" using Suc(2) by simp
    obtain b j u where u: "pgfree_loop (parent a k) (Suc k) t = Inr (b, j, u)" "merging u b j"
      "free_bytes u \<union> blk b j = free_bytes t \<union> blk (parent a k) (Suc k)" "\<not> on_list u j (buddy b j)"
      "\<forall>i x. on_list u i x \<longrightarrow> on_list t i x" "lists_only t u"
      using Suc(1) [OF n t(2)] by blast
    have "pgfree_loop a k s = Inr (b, j, u)"
      using u(1) True t(1) by (simp add: pgfree_loop_step [OF Suc(3)])
    then show ?thesis
      using u(2-5) t(3,4) lists_only_trans [OF t(5) u(6)] by metis
  qed
qed

lemma usage_free:
  assumes "env_ok s" "usage_ok s F" "blk a k \<inter> F = {}" "F \<union> blk a k \<subseteq> managed s" "finite F"
  shows "1024 * ((pgalloc_usedkb s + 2 ^ 64 - order2size k div 2 ^ 10) mod 2 ^ 64) + card (F \<union> blk a k) =
    maxpage_addr s - minpage_addr s"
proof -
  have c: "card (F \<union> blk a k) = card F + order2size k"
    using assms(3,5) by (subst card_Un_disjoint) auto
  moreover have "card (F \<union> blk a k) \<le> maxpage_addr s - minpage_addr s"
    using card_mono [OF _ assms(4)] by (simp add: managed_def)
  ultimately have le: "order2size k div 2 ^ 10 \<le> pgalloc_usedkb s"
    using assms(2) order2size_kb [of k] unfolding usage_ok_def by linarith
  have "(pgalloc_usedkb s + 2 ^ 64 - order2size k div 2 ^ 10) mod 2 ^ 64 = pgalloc_usedkb s - order2size k div 2 ^ 10"
    using usage_bound [OF assms(1,2)] by (intro wrap_diff le) simp
  then show ?thesis using c le assms(2) order2size_kb [of k] unfolding usage_ok_def by linarith
qed

lemma link_merged:
  assumes m: "merging t b j" and co: "coalesced t" and no: "\<not> on_list t j (buddy b j)"
  obtains u where "freechunk_link b j t = Inr u" "carved t (blk b j) u" "coalesced u"
proof -
  have tb: "lists_ok t" "order2size j dvd b" "blk b j \<inter> free_bytes t = {}" using m by (auto simp: merging_def)
  obtain u where u: "freechunk_link b j t = Inr u" "carved t (blk b j) u"
    "\<And>i x. on_list u i x \<longleftrightarrow> on_list t i x \<or> i = j \<and> x = b"
    using freechunk_link_ok [OF tb(1) merging_level [OF m] tb(2,3)] by metis
  have "\<not> on_list u i (buddy x i)" if "on_list u i x" for i x
    using that no co buddy_facts(3) [of i x] buddy_facts(5) [OF tb(2)] lists_ok_chunk(1) [OF tb(1)] blk_base [of b j]
    unfolding u(3) coalesced_def by (metis IntI empty_iff)
  then have "coalesced u" by (simp add: coalesced_def)
  then show thesis using that u by blast
qed

definition free_pre :: "pgstate \<Rightarrow> nat \<Rightarrow> nat \<Rightarrow> bool" where
  "free_pre s a k \<longleftrightarrow> order2size k dvd a \<and> blk a k \<subseteq> managed s \<and> blk a k \<inter> free_bytes s = {}"

lemma bmk_pgfree_ok:
  assumes wf: "pg_wf s" and pre: "free_pre s a k"
  shows "\<exists>t. bmk_pgfree a (int k) s = Inr t \<and> pg_wf t \<and> free_bytes t = free_bytes s \<union> blk a k \<and>
    minpage_addr t = minpage_addr s \<and> maxpage_addr t = maxpage_addr s"
proof -
  have env: "env_ok s" and sub: "free_bytes s \<subseteq> managed s" and map: "map_ok s (free_bytes s)"
    and use: "usage_ok s (free_bytes s)" and lo: "lists_ok s" and co: "coalesced s"
    using wf by (auto simp: pg_wf_def)
  have al: "order2size k dvd a" and man: "blk a k \<subseteq> managed s" and out: "blk a k \<inter> free_bytes s = {}"
    using pre by (auto simp: free_pre_def)
  obtain bm where bm: "map_free a (2 ^ k) s = Inr (s\<lparr>alloc_bitmap := bm\<rparr>)"
    "length bm = length (alloc_bitmap s)" "map_ok (s\<lparr>alloc_bitmap := bm\<rparr>) (free_bytes s \<union> blk a k)"
    using map_ops_ok(2) [OF env blk_page_run [OF env man al] map] by (auto simp: blk_pages)
  define s1 where "s1 = s\<lparr>alloc_bitmap := bm,
    pgalloc_usedkb := (pgalloc_usedkb s + 2 ^ 64 - order2size k div 2 ^ 10) mod 2 ^ 64\<rparr>"
  have fb1: "free_bytes s1 = free_bytes s" and on1: "on_list s1 = on_list s"
    by (simp_all add: s1_def free_bytes_def on_list_def fun_eq_iff)
  have "lists_ok s1" by (rule lists_ok_write [OF lo]) (simp_all add: s1_def)
  then have m: "merging s1 a k"
    using env al out sub man bm(2,3) unfolding merging_def fb1
    by (simp add: s1_def env_ok_def managed_def map_ok_def addr_is_managed_def va_to_pg_def)
  obtain b j t where t: "pgfree_loop a k s1 = Inr (b, j, t)" "merging t b j"
    "free_bytes t \<union> blk b j = free_bytes s \<union> blk a k" "\<not> on_list t j (buddy b j)"
    "\<And>i x. on_list t i x \<Longrightarrow> on_list s i x" "lists_only s1 t"
    using pgfree_loop_ok [OF m] unfolding fb1 on1 by blast
  obtain u where u: "freechunk_link b j t = Inr u" "carved t (blk b j) u" "coalesced u"
    using link_merged [OF t(2) coalesced_subset [OF co t(5)] t(4)] .
  have fields: "minpage_addr u = minpage_addr s" "maxpage_addr u = maxpage_addr s" "alloc_bitmap u = bm"
    "pgalloc_totalkb u = pgalloc_totalkb s"
    "pgalloc_usedkb u = (pgalloc_usedkb s + 2 ^ 64 - order2size k div 2 ^ 10) mod 2 ^ 64"
    using carvedD [OF u(2)] lists_onlyD [OF t(6)] by (simp_all add: s1_def)
  have fbu: "free_bytes u = free_bytes s \<union> blk a k" using carvedD(2) [OF u(2)] t(3) by simp
  have "env_ok u" using env bm(2) fields by (simp add: env_ok_def)
  moreover have "map_ok u (free_bytes u)"
    using bm(3) fields unfolding fbu by (simp add: map_ok_def addr_is_managed_def va_to_pg_def)
  moreover have "usage_ok u (free_bytes u)"
    using usage_free [OF env use out] sub man use fields unfolding fbu by (simp add: usage_ok_def)
  ultimately have "pg_wf u"
    using carvedD(1) [OF u(2)] u(3) sub man fields fbu by (auto simp: pg_wf_def managed_def)
  moreover have "bmk_pgfree a (int k) s = Inr u"
    using bm(1) t(1) u(1) merging_level [OF m] by (simp add: bmk_pgfree_def Let_def s1_def)
  ultimately show ?thesis using fbu fields by blast
qed

section \<open>Allocation finds a block whenever there is one\<close>

lemma free_block_covered:
  assumes "lists_ok s" "coalesced s" "order2size k dvd x" "blk x k \<subseteq> free_bytes s"
  shows "\<exists>j a. k \<le> j \<and> on_list s j a \<and> x \<in> blk a j"
  using assms(3,4)
proof (induction k arbitrary: x)
  case 0
  then have "x \<in> free_bytes s" using blk_base by blast
  then show ?case by (auto simp: in_free_bytes)
next
  case (Suc k)
  have al: "order2size k dvd x" using Suc(2) order2size_dvd [of k "Suc k"] dvd_trans by fastforce
  have x: "parent x k = x"
    using al by (cases rule: and_order2size) (use Suc(2) in \<open>auto simp: parent_def dvd_add_right_iff order2size_Suc dest: dvd_imp_le\<close>)
  let ?y = "buddy x k"
  note bf = buddy_facts [OF al, unfolded x]
  have exact: "a = z" if "order2size k dvd z" "on_list s k a" "z \<in> blk a k" for z a
  proof -
    have "order2size k dvd a" using lists_ok_chunk(1) [OF assms(1) that(2)] .
    then have "z \<le> a" using multiples_apart [OF that(1)] that(3) by (simp add: blk_def)
    then show ?thesis using that(3) by (simp add: blk_def)
  qed
  obtain j a where j: "k \<le> j" "on_list s j a" "x \<in> blk a j"
    using Suc(1) [OF al] Suc(3) bf(4) by blast
  obtain j' a' where j': "k \<le> j'" "on_list s j' a'" "?y \<in> blk a' j'"
    using Suc(1) [OF bf(1)] Suc(3) bf(4) by blast
  show ?case
  proof (rule ccontr)
    assume no: "\<not> ?case"
    then have "j = k" using j by (metis le_antisym not_less_eq_eq)
    then have on: "on_list s k x" using exact [OF al] j by blast
    have "j' = k"
    proof (rule ccontr)
      assume "j' \<noteq> k"
      then have "blk x (Suc k) \<subseteq> blk a' j'"
        using blk_nested [OF Suc(2) lists_ok_chunk(1) [OF assms(1) j'(2)], of ?y] j' bf(4) blk_base [of ?y k] by auto
      then have "x \<in> blk a' j'" using blk_base by blast
      then show False using no j' \<open>j' \<noteq> k\<close> by (metis le_neq_implies_less Suc_leI)
    qed
    then have "on_list s k ?y" using exact [OF bf(1)] j' by blast
    with on assms(2) show False by (simp add: coalesced_def)
  qed
qed

section \<open>Loading memory\<close>

definition loadmem_bitmap_size :: "nat \<Rightarrow> nat \<Rightarrow> nat" where
  "loadmem_bitmap_size lo hi = bmk_round_page ((hi - lo) div 2 ^ (BMK_PCPU_PAGE_SHIFT + 3) + 1)"

definition loadmem_fits :: "nat \<Rightarrow> nat \<Rightarrow> bool" where
  "loadmem_fits min0 max0 \<longleftrightarrow> min0 + BMK_PCPU_PAGE_SIZE \<le> 2 ^ 64 \<and> max0 < 2 ^ 64 \<and>
     bmk_round_page min0 + loadmem_bitmap_size (bmk_round_page min0) (bmk_trunc_page max0) \<le> bmk_trunc_page max0"

lemma trunc_page_dvd: "BMK_PCPU_PAGE_SIZE dvd bmk_trunc_page p" "bmk_trunc_page p \<le> p"
  by (simp_all add: bmk_trunc_page_def)

lemma round_page_bounds:
  assumes "p + BMK_PCPU_PAGE_SIZE \<le> 2 ^ 64"
  shows "p \<le> bmk_round_page p" "bmk_round_page p < 2 ^ 64" "BMK_PCPU_PAGE_SIZE dvd bmk_round_page p"
proof -
  have "(p + (BMK_PCPU_PAGE_SIZE - 1)) mod 2 ^ 64 = p + (BMK_PCPU_PAGE_SIZE - 1)"
    using assms PAGE_SIZE_pos by (intro mod_less) linarith
  then have eq: "bmk_round_page p = (p + (BMK_PCPU_PAGE_SIZE - 1)) div BMK_PCPU_PAGE_SIZE * BMK_PCPU_PAGE_SIZE"
    by (simp only: bmk_round_page_def bmk_trunc_page_def)
  have "p + (BMK_PCPU_PAGE_SIZE - 1) < bmk_round_page p + BMK_PCPU_PAGE_SIZE"
    unfolding eq using PAGE_SIZE_pos by (metis mod_less_divisor mult_div_mod_eq mult.commute nat_add_left_cancel_less)
  then show "p \<le> bmk_round_page p" using PAGE_SIZE_pos by linarith
  have "bmk_round_page p \<le> p + (BMK_PCPU_PAGE_SIZE - 1)" unfolding eq by simp
  then show "bmk_round_page p < 2 ^ 64" using assms PAGE_SIZE_pos by linarith
  show "BMK_PCPU_PAGE_SIZE dvd bmk_round_page p" unfolding eq by simp
qed

lemma bitmap_size_ok:
  assumes "hi < 2 ^ 64" "lo \<le> hi"
  defines "b \<equiv> loadmem_bitmap_size lo hi"
  shows "BMK_PCPU_PAGE_SIZE dvd b" "0 < b" "(hi - lo) div BMK_PCPU_PAGE_SIZE < PAGES_PER_MAPWORD * (b div 8)"
proof -
  let ?q = "(hi - lo) div 2 ^ (BMK_PCPU_PAGE_SHIFT + 3)"
  have "hi - lo < 2 ^ 64" using assms(1) by simp
  then have "?q < 2 ^ 49" by (simp add: BMK_PCPU_PAGE_SHIFT_def)
  then have "?q + 1 + BMK_PCPU_PAGE_SIZE \<le> 2 ^ 64" by (simp add: BMK_PCPU_PAGE_SIZE_def BMK_PCPU_PAGE_SHIFT_def)
  note b = round_page_bounds [OF this, folded loadmem_bitmap_size_def, folded b_def]
  show "BMK_PCPU_PAGE_SIZE dvd b" "0 < b" using b by auto
  have "8 dvd BMK_PCPU_PAGE_SIZE" by (simp add: BMK_PCPU_PAGE_SIZE_def BMK_PCPU_PAGE_SHIFT_def)
  then have "8 dvd b" using b(3) by (rule dvd_trans)
  then have "PAGES_PER_MAPWORD * (b div 8) = 8 * b" by (auto simp: PAGES_64 elim!: dvdE)
  moreover have "m < 8 * (m div 8 + 1)" for m :: nat by presburger
  moreover have "?q = (hi - lo) div BMK_PCPU_PAGE_SIZE div 8"
    by (simp add: BMK_PCPU_PAGE_SIZE_def power_add div_mult2_eq)
  ultimately show "(hi - lo) div BMK_PCPU_PAGE_SIZE < PAGES_PER_MAPWORD * (b div 8)"
    using b(1) by (metis less_le_trans mult_le_mono2)
qed

text \<open>Everything marked allocated and no chunk linked: the state in which the range is handed over.\<close>

lemma loadmem_handover:
  assumes env: "env_ok s" and fl: "freelist s = replicate FREELIST_LEVELS []"
    and bm: "alloc_bitmap s = replicate n (NOT 0)" and used: "pgalloc_usedkb s = 0"
    and rng: "rng = maxpage_addr s - minpage_addr s" and total: "pgalloc_totalkb s = rng div 2 ^ 10"
  shows "\<exists>t. bindE (map_free (minpage_addr s) (rng div 2 ^ BMK_PCPU_PAGE_SHIFT) s) (carverange (minpage_addr s) rng) = Inr t \<and>
    pg_wf t \<and> free_bytes t = managed t \<and> minpage_addr t = minpage_addr s \<and> maxpage_addr t = maxpage_addr s \<and>
    loadmem_called t = loadmem_called s"
proof -
  let ?m = "minpage_addr s"
  have m: "BMK_PCPU_PAGE_SIZE dvd ?m" "?m \<noteq> 0" "?m + rng < 2 ^ 64" "?m + rng = maxpage_addr s"
    and dv: "BMK_PCPU_PAGE_SIZE dvd rng"
    using env by (auto simp: env_ok_def rng dvd_diff_nat)
  have none: "\<not> on_list u k a" "free_bytes u = {}" if "freelist u = freelist s" for u k a
    using fl that by (auto simp: on_list_def free_bytes_def)
  have pages: "rng div 2 ^ BMK_PCPU_PAGE_SHIFT * BMK_PCPU_PAGE_SIZE = rng"
    using dv by (simp add: BMK_PCPU_PAGE_SIZE_def)
  have "page_bit (alloc_bitmap s) (va_to_pg s x)" if "addr_is_managed s x" for x
    using managed_page_in_map [OF env that] bm unfolding page_less_length
    by (simp add: page_bit_def bit_not_iff PAGES_64)
  then have "map_ok s {}" by (simp add: map_ok_def)
  moreover have "page_run s ?m (rng div 2 ^ BMK_PCPU_PAGE_SHIFT)"
    using m by (simp add: page_run_def pages)
  ultimately obtain bm' where bm': "map_free ?m (rng div 2 ^ BMK_PCPU_PAGE_SHIFT) s = Inr (s\<lparr>alloc_bitmap := bm'\<rparr>)"
    "length bm' = length (alloc_bitmap s)" "map_ok (s\<lparr>alloc_bitmap := bm'\<rparr>) {?m..<?m + rng}"
    using map_ops_ok(2) [OF env, of ?m "rng div 2 ^ BMK_PCPU_PAGE_SHIFT" "{}"] by (auto simp: pages)
  define u where "u = s\<lparr>alloc_bitmap := bm'\<rparr>"
  have u: "freelist u = freelist s" by (simp add: u_def)
  have "lists_ok u" using none [OF u] by (intro lists_okI) (simp_all add: fl u)
  then obtain t N where t: "carverange ?m rng u = Inr t" "carved u {?m..<?m + rng} t" "links u N t" "tiles N {?m..<?m + rng}"
    using carverange_ok [of u, OF _ m(1) dv m(2,3)] none(2) [OF u] by auto
  note td = carvedD [OF t(2), unfolded none(2) [OF u]]
  have "coalesced t" using t(3,4) none(1) [OF u] by (auto simp: links_def tiles_def coalesced_def)
  moreover have "usage_ok t (free_bytes t)"
  proof -
    have "1024 dvd BMK_PCPU_PAGE_SIZE" by (simp add: BMK_PCPU_PAGE_SIZE_def BMK_PCPU_PAGE_SHIFT_def)
    then have "1024 dvd rng" using dv by (rule dvd_trans)
    then have "1024 * (rng div 2 ^ 10) = rng" by simp
    then show ?thesis using used total m(4) td by (simp add: usage_ok_def u_def rng)
  qed
  moreover have "map_ok t (free_bytes t)"
    using bm'(3) td by (simp add: map_ok_def addr_is_managed_def va_to_pg_def u_def)
  moreover have "env_ok t" using env bm'(2) td by (simp add: env_ok_def u_def)
  ultimately show ?thesis
    using t(1) bm'(1) td m(4) by (simp add: pg_wf_def managed_def u_def)
qed

lemma bmk_pgalloc_loadmem_ok:
  assumes fits: "loadmem_fits min0 max0" and once: "\<not> loadmem_called s"
  shows "\<exists>t. bmk_pgalloc_loadmem min0 max0 s = Inr t \<and> pg_wf t \<and> free_bytes t = managed t \<and>
    minpage_addr t = bmk_round_page min0 + loadmem_bitmap_size (bmk_round_page min0) (bmk_trunc_page max0) \<and>
    maxpage_addr t = bmk_trunc_page max0 \<and> loadmem_called t"
proof -
  define lo hi where "lo = bmk_round_page min0" and "hi = bmk_trunc_page max0"
  define b where "b = loadmem_bitmap_size lo hi"
  have fit: "min0 + BMK_PCPU_PAGE_SIZE \<le> 2 ^ 64" "hi < 2 ^ 64" "lo + b \<le> hi" "hi \<le> max0"
    using fits trunc_page_dvd(2) [of max0] unfolding loadmem_fits_def b_def lo_def hi_def by linarith+
  note lo = round_page_bounds [OF fit(1), folded lo_def]
  have lohi: "lo \<le> hi" using fit(3) by simp
  note bs = bitmap_size_ok [OF fit(2) lohi, folded b_def]
  have order: "min0 < max0" using lo(1) fit(3,4) bs(2) by linarith
  define rng where "rng = hi - (lo + b)"
  define s1 where "s1 = s\<lparr>loadmem_called := True, freelist := replicate FREELIST_LEVELS [],
    minpage_addr := lo + b, maxpage_addr := hi, pgalloc_totalkb := rng div 2 ^ 10, pgalloc_usedkb := 0,
    alloc_bitmap := replicate (b div 8) (NOT 0)\<rparr>"
  have wrap: "(hi + 2 ^ 64 - lo) mod 2 ^ 64 = hi - lo" "(lo + b) mod 2 ^ 64 = lo + b" 
     "(hi + 2 ^ 64 - (lo + b)) mod 2 ^ 64 = rng"
    using wrap_diff [OF lohi fit(2)] wrap_diff [OF fit(3,2)] fit(2,3) unfolding rng_def by auto
  have body: "bmk_pgalloc_loadmem min0 max0 s =
     bindE (map_free (lo + b) (rng div 2 ^ BMK_PCPU_PAGE_SHIFT) s1) (carverange (lo + b) rng)"
    using once order unfolding bmk_pgalloc_loadmem_def Let_def lo_def [symmetric] hi_def [symmetric] wrap(1)
      loadmem_bitmap_size_def [symmetric] b_def [symmetric] wrap(2) wrap(3) s1_def
    by simp
  have "(hi - (lo + b)) div BMK_PCPU_PAGE_SIZE \<le> (hi - lo) div BMK_PCPU_PAGE_SIZE"
    by (intro div_le_mono) simp
  then have "env_ok s1"
    using bs lo fit(2,3) trunc_page_dvd(1) [of max0] unfolding hi_def [symmetric]
    by (simp add: env_ok_def s1_def dvd_add)
  then show ?thesis
    using loadmem_handover [of s1 "b div 8" rng] unfolding body lo_def [symmetric] hi_def [symmetric] b_def [symmetric]
    by (simp add: s1_def rng_def)
qed

section \<open>The allocator as a source of pages\<close>

lemma bmk_pgalloc_ok:
  assumes "pg_wf s" "k < FREELIST_LEVELS"
  obtains r t where "bmk_pgalloc (int k) s = Inr (r, t)" "pg_wf t" "alloc_post s k BMK_PCPU_PAGE_SIZE r t"
  using bmk_pgalloc_align_ok [OF assms, of BMK_PCPU_PAGE_SIZE BMK_PCPU_PAGE_SHIFT]
  by (auto simp: bmk_pgalloc_def BMK_PCPU_PAGE_SIZE_def)

lemma no_free_block:
  assumes "pg_wf s" "alloc_post s k BMK_PCPU_PAGE_SIZE None t" "order2size k dvd a"
  shows "\<not> blk a k \<subseteq> free_bytes s"
proof
  have wf: "lists_ok s" "coalesced s" using assms(1) by (auto simp: pg_wf_def)
  assume "blk a k \<subseteq> free_bytes s"
  then obtain j b where "k \<le> j" "on_list s j b" using free_block_covered [OF wf assms(3)] by blast
  moreover from this have "BMK_PCPU_PAGE_SIZE dvd b"
    using lists_ok_chunk(1) [OF wf(1)] page_dvd_order2size dvd_trans by blast
  ultimately show False using assms(2) by (auto simp: alloc_post_def)
qed

interpretation pages: page_source
  "\<lambda>k. bmk_pgalloc (int k)" "\<lambda>a k. bmk_pgfree a (int k)" pg_wf free_bytes managed blk
  "\<lambda>a k. order2size k dvd a" FREELIST_LEVELS
proof (unfold_locales, goal_cases)
  case (1 s k)
  then show ?case by (meson bmk_pgalloc_ok)
next
  case (2 s k a t)
  then show ?case
    by (auto elim!: bmk_pgalloc_ok [of s k] simp: alloc_post_def managed_def)
next
  case (3 s k t)
  then show ?case
    using no_free_block [of s k t] by (auto elim!: bmk_pgalloc_ok [of s k] simp: alloc_post_def)
next
  case (4 s a k)
  then show ?case
    using bmk_pgfree_ok [of s a k] by (auto simp: free_pre_def managed_def)
next
  case (5 s)
  then show ?case by (simp add: pg_wf_def)
qed

section \<open>Clients, and every state they can reach\<close>

text \<open>
  A configuration is the allocator's state and the set of blocks that clients own. Between
  calls a client may write anything into the pages it owns; that includes the bytes where
  a chunk header used to be.
\<close>

inductive pg_step :: "pgstate \<times> (nat \<times> nat) set \<Rightarrow> pgstate \<times> (nat \<times> nat) set \<Rightarrow> bool" where
  pg_alloc: "k < FREELIST_LEVELS \<Longrightarrow> BMK_PCPU_PAGE_SHIFT \<le> j \<Longrightarrow>
     bmk_pgalloc_align (int k) (2 ^ j) s = Inr (Some a, t) \<Longrightarrow> pg_step (s, own) (t, insert (a, k) own)"
| pg_fail: "k < FREELIST_LEVELS \<Longrightarrow> BMK_PCPU_PAGE_SHIFT \<le> j \<Longrightarrow>
     bmk_pgalloc_align (int k) (2 ^ j) s = Inr (None, t) \<Longrightarrow> pg_step (s, own) (t, own)"
| pg_free: "(a, k) \<in> own \<Longrightarrow> bmk_pgfree a (int k) s = Inr t \<Longrightarrow> pg_step (s, own) (t, own - {(a, k)})"
| pg_write: "(a, k) \<in> own \<Longrightarrow> x \<in> blk a k \<Longrightarrow>
     pg_step (s, own) (s\<lparr>chunk_at := (chunk_at s)(x := c)\<rparr>, own)"

inductive pg_reach :: "pgstate \<times> (nat \<times> nat) set \<Rightarrow> bool" where
  pg_boot: "loadmem_fits min0 max0 \<Longrightarrow> \<not> loadmem_called s \<Longrightarrow>
     bmk_pgalloc_loadmem min0 max0 s = Inr t \<Longrightarrow> pg_reach (t, {})"
| pg_next: "pg_reach c \<Longrightarrow> pg_step c d \<Longrightarrow> pg_reach d"

inductive_cases pg_stepE: "pg_step (s, own) d"

text \<open>The owned blocks and the free bytes partition the managed range.\<close>

definition owned_bytes :: "(nat \<times> nat) set \<Rightarrow> nat set" where
  "owned_bytes own = (\<Union>(a, k)\<in>own. blk a k)"

definition pg_inv :: "pgstate \<times> (nat \<times> nat) set \<Rightarrow> bool" where
  "pg_inv = (\<lambda>(s, own). pg_wf s \<and> (\<forall>a k. (a, k) \<in> own \<longrightarrow> order2size k dvd a) \<and>
     (\<forall>a k b j. (a, k) \<in> own \<longrightarrow> (b, j) \<in> own \<longrightarrow> (a, k) \<noteq> (b, j) \<longrightarrow> blk a k \<inter> blk b j = {}) \<and>
     owned_bytes own \<inter> free_bytes s = {} \<and> owned_bytes own \<union> free_bytes s = managed s)"

lemma pg_invI:
  assumes "pg_wf s" "\<And>a k. (a, k) \<in> own \<Longrightarrow> order2size k dvd a"
    "\<And>a k b j. (a, k) \<in> own \<Longrightarrow> (b, j) \<in> own \<Longrightarrow> (a, k) \<noteq> (b, j) \<Longrightarrow> blk a k \<inter> blk b j = {}"
    "owned_bytes own \<inter> free_bytes s = {}" "owned_bytes own \<union> free_bytes s = managed s"
  shows "pg_inv (s, own)"
  using assms unfolding pg_inv_def by blast

lemma pg_invD:
  assumes "pg_inv (s, own)"
  shows "pg_wf s" "(a, k) \<in> own \<Longrightarrow> order2size k dvd a"
    "(a, k) \<in> own \<Longrightarrow> (b, j) \<in> own \<Longrightarrow> (a, k) \<noteq> (b, j) \<Longrightarrow> blk a k \<inter> blk b j = {}"
    "owned_bytes own \<inter> free_bytes s = {}" "owned_bytes own \<union> free_bytes s = managed s"
  using assms unfolding pg_inv_def by blast+

lemma owned_bytes_insert [simp]: "owned_bytes (insert (a, k) own) = blk a k \<union> owned_bytes own"
  by (simp add: owned_bytes_def)

lemma owned_blk: "(a, k) \<in> own \<Longrightarrow> blk a k \<subseteq> owned_bytes own"
  by (auto simp: owned_bytes_def)

lemma owned_bytes_remove:
  assumes "pg_inv (s, own)" "(a, k) \<in> own"
  shows "owned_bytes (own - {(a, k)}) = owned_bytes own - blk a k"
proof -
  have "(b, j) \<in> own \<Longrightarrow> (b, j) \<noteq> (a, k) \<Longrightarrow> blk b j \<inter> blk a k = {}" for b j
    using assms unfolding pg_inv_def by blast
  then show ?thesis unfolding owned_bytes_def by fast
qed

lemma owned_free_pre: "pg_inv (s, own) \<Longrightarrow> (a, k) \<in> own \<Longrightarrow> free_pre s a k"
  using owned_blk [of a k own] unfolding pg_inv_def free_pre_def by auto

lemma pg_wf_write:
  assumes "pg_wf s" "x \<notin> free_bytes s"
  shows "pg_wf (s\<lparr>chunk_at := (chunk_at s)(x := c)\<rparr>)" (is "pg_wf ?t")
proof -
  have "free_bytes ?t = free_bytes s" by (simp add: free_bytes_def)
  moreover have "lists_ok s" using assms(1) by (simp add: pg_wf_def)
  then have "lists_ok ?t" by (rule lists_ok_write) (use assms(2) in auto)
  moreover have "env_ok ?t = env_ok s" "managed ?t = managed s" "coalesced ?t = coalesced s"
    "map_ok ?t = map_ok s" "usage_ok ?t = usage_ok s"
    by (simp_all add: env_ok_def managed_def coalesced_def map_ok_def usage_ok_def addr_is_managed_def
        va_to_pg_def fun_eq_iff)
  ultimately show ?thesis using assms(1) by (simp add: pg_wf_def)
qed

lemma pg_inv_step:
  assumes inv: "pg_inv c" and step: "pg_step c d"
  shows "pg_inv d"
  using step
proof cases
  case (pg_alloc k j s a t own)
  have i: "pg_inv (s, own)" using inv pg_alloc(1) by simp
  obtain r u where ru: "bmk_pgalloc_align (int k) (2 ^ j) s = Inr (r, u)" "pg_wf u" "alloc_post s k (2 ^ j) r u"
    using bmk_pgalloc_align_ok [OF pg_invD(1) [OF i] pg_alloc(3) refl pg_alloc(4)] by blast
  then have "r = Some a" "u = t" using pg_alloc(5) by simp_all
  then have t: "pg_wf t" "order2size k dvd a" "blk a k \<subseteq> free_bytes s" "free_bytes t = free_bytes s - blk a k"
    "managed t = managed s"
    using ru(2,3) by (simp_all add: alloc_post_def managed_def)
  have new: "blk a k \<inter> blk b i = {}" if "(b, i) \<in> own" for b i
    using owned_blk [OF that] pg_invD(4) [OF i] t(3) by blast
  show ?thesis unfolding pg_alloc(2)
  proof (rule pg_invI)
    show "blk b i \<inter> blk b' i' = {}"
      if "(b, i) \<in> insert (a, k) own" "(b', i') \<in> insert (a, k) own" "(b, i) \<noteq> (b', i')" for b i b' i'
      using that new pg_invD(3) [OF \<open>pg_inv (s, own)\<close>, of b i b' i'] by (auto simp: Int_commute)
  qed (use t pg_invD(2,4,5) [OF i] in auto)
next
  case (pg_fail k j s t own)
  have wf: "pg_wf s" using inv pg_fail(1) by (simp add: pg_inv_def)
  have "t = s"
    using bmk_pgalloc_align_ok [OF wf pg_fail(3) refl pg_fail(4)] pg_fail(5) by (auto simp: alloc_post_def)
  then show ?thesis using inv pg_fail by simp
next
  case (pg_free a k own s t)
  have i: "pg_inv (s, own)" using inv pg_free(1) by simp
  then have t: "pg_wf t" "free_bytes t = free_bytes s \<union> blk a k" "managed t = managed s"
    using bmk_pgfree_ok [OF _ owned_free_pre [OF i pg_free(3)]] pg_free(4) by (auto simp: pg_inv_def managed_def)
  show ?thesis unfolding pg_free(2)
  proof (rule pg_invI)
    show "blk b i \<inter> blk b' i' = {}"
      if "(b, i) \<in> own - {(a, k)}" "(b', i') \<in> own - {(a, k)}" "(b, i) \<noteq> (b', i')" for b i b' i'
      using that pg_invD(3) [OF \<open>pg_inv (s, own)\<close>, of b i b' i'] by simp
  qed (use t owned_bytes_remove [OF i pg_free(3)] owned_blk [OF pg_free(3)] pg_invD(2,4,5) [OF i] in auto)
next
  case (pg_write a k own x s c)
  let ?t = "s\<lparr>chunk_at := (chunk_at s)(x := c)\<rparr>"
  have i: "pg_inv (s, own)" using inv pg_write(1) by simp
  have "x \<notin> free_bytes s" using owned_blk [OF pg_write(3)] pg_write(4) pg_invD(4) [OF i] by blast
  then have "pg_wf ?t" by (rule pg_wf_write [OF pg_invD(1) [OF i]])
  moreover have "free_bytes ?t = free_bytes s" "managed ?t = managed s"
    by (simp_all add: free_bytes_def managed_def)
  ultimately show ?thesis
    unfolding pg_write(2) using pg_invD(2-5) [OF i] by (intro pg_invI) simp_all
qed

lemma pg_reach_inv: "pg_reach c \<Longrightarrow> pg_inv c"
proof (induction rule: pg_reach.induct)
  case (pg_boot min0 max0 s t)
  then show ?case
    using bmk_pgalloc_loadmem_ok [OF pg_boot(1,2)] by (auto simp: pg_inv_def owned_bytes_def)
next
  case (pg_next c d)
  then show ?case by (rule_tac pg_inv_step)
qed

section \<open>A concrete machine\<close>

text \<open>The zeroed data segment, and the state after handing over \<open>[0x1000, 0xA000)\<close>: one page of bitmap, eight to give.\<close>

definition pg_zero :: pgstate where
  "pg_zero = \<lparr>minpage_addr = 0, maxpage_addr = 0, alloc_bitmap = [], freelist = replicate FREELIST_LEVELS [],
     chunk_at = (\<lambda>_. \<lparr>ch_level = 0, ch_magic = 0\<rparr>), pgalloc_totalkb = 0, pgalloc_usedkb = 0,
     loadmem_called = False\<rparr>"

definition pg_demo :: pgstate where
  "pg_demo = projr (bmk_pgalloc_loadmem 0x1000 0xA000 pg_zero)"

lemmas page_values = BMK_PCPU_PAGE_SIZE_def BMK_PCPU_PAGE_SHIFT_def FREELIST_LEVELS_def order2size_def
  bmk_round_page_def bmk_trunc_page_def loadmem_bitmap_size_def

lemma pg_demo_fits: "loadmem_fits 0x1000 0xA000" "\<not> loadmem_called pg_zero"
  by (simp_all add: loadmem_fits_def page_values pg_zero_def)

lemma pg_demo_state:
  "bmk_pgalloc_loadmem 0x1000 0xA000 pg_zero = Inr pg_demo" "pg_wf pg_demo"
  "free_bytes pg_demo = {0x2000..<0xA000}" "managed pg_demo = {0x2000..<0xA000}"
proof -
  obtain t where t: "bmk_pgalloc_loadmem 0x1000 0xA000 pg_zero = Inr t" "pg_wf t" "free_bytes t = managed t"
    "minpage_addr t = 0x2000" "maxpage_addr t = 0xA000"
    using bmk_pgalloc_loadmem_ok [OF pg_demo_fits] by (auto simp: page_values)
  then have "t = pg_demo" by (simp add: pg_demo_def)
  then show "bmk_pgalloc_loadmem 0x1000 0xA000 pg_zero = Inr pg_demo" "pg_wf pg_demo"
    "free_bytes pg_demo = {0x2000..<0xA000}" "managed pg_demo = {0x2000..<0xA000}"
    using t by (simp_all add: managed_def)
qed

lemma usage_change:
  assumes "pg_wf s" "pg_wf t" "free_bytes t = free_bytes s - B" "B \<subseteq> free_bytes s"
    "minpage_addr t = minpage_addr s" "maxpage_addr t = maxpage_addr s"
  shows "1024 * pgalloc_usedkb t = 1024 * pgalloc_usedkb s + card B"
proof -
  have "card (free_bytes t) + card B = card (free_bytes s)"
    using assms(3,4) card_Diff_subset [of B "free_bytes s"] card_mono [OF finite_free_bytes assms(4)]
      finite_subset [OF assms(4) finite_free_bytes] by simp
  then show ?thesis using assms by (simp add: pg_wf_def usage_ok_def)
qed

section \<open>Properties\<close>

text \<open>
  C5. In every state that clients can drive the page allocator to, starting from
  \<^verbatim>\<open>bmk_pgalloc_loadmem\<close> and through any sequence of allocations, frees of owned blocks and
  arbitrary writes into owned pages, the free blocks and the owned blocks partition the managed
  range: owned blocks are aligned and pairwise disjoint, the free lists, the chunk headers,
  the bitmap and the usage counters agree with one another, and no two buddies are both free.
\<close>

theorem pgalloc_partition:
  assumes "pg_reach (s, own)"
  shows "pg_inv (s, own)"
  using assms by (rule pg_reach_inv)

theorem pgalloc_partition_witness: "pg_inv (pg_demo, {})"
  by (rule pgalloc_partition, rule pg_boot [OF pg_demo_fits pg_demo_state(1)])

text \<open>
  C6. No call halts the machine: in every reachable state each allocation of a legal order and
  alignment, and each free of an owned block, returns. In particular the assertions on
  the chunk magic in \<^verbatim>\<open>chunklevel\<close> and \<^verbatim>\<open>bmk_pgalloc_align\<close> never fail, whatever clients write
  into the pages they own, and no bitmap or list access goes astray.
\<close>

theorem pgalloc_calls_return:
  assumes "pg_reach (s, own)"
  shows "(\<forall>k j. k < FREELIST_LEVELS \<longrightarrow> BMK_PCPU_PAGE_SHIFT \<le> j \<longrightarrow>
      (\<exists>r t. bmk_pgalloc_align (int k) (2 ^ j) s = Inr (r, t))) \<and>
    (\<forall>a k. (a, k) \<in> own \<longrightarrow> (\<exists>t. bmk_pgfree a (int k) s = Inr t))"
  using bmk_pgalloc_align_ok [OF pg_invD(1) [OF pg_reach_inv [OF assms]]]
    bmk_pgfree_ok [OF pg_invD(1) [OF pg_reach_inv [OF assms]] owned_free_pre [OF pg_reach_inv [OF assms]]]
  by blast

theorem pgalloc_calls_return_witness: "\<exists>r t. bmk_pgalloc_align 2 (2 ^ 13) pg_demo = Inr (r, t)"
  using pgalloc_calls_return [OF pg_boot [OF pg_demo_fits pg_demo_state(1)], THEN conjunct1,
      THEN spec [of _ 2], THEN spec [of _ 13]]
  by (simp add: FREELIST_LEVELS_def BMK_PCPU_PAGE_SHIFT_def)

text \<open>
  C13. \<^verbatim>\<open>bmk_pgalloc\<close> fails only when it has to: it returns the null pointer exactly when no
  aligned block of the requested order is wholly free. The allocator never misses a block
  because of fragmentation of its own making.
\<close>

theorem pgalloc_complete:
  assumes "pg_wf s" "k < FREELIST_LEVELS"
  shows "(\<exists>t. bmk_pgalloc (int k) s = Inr (None, t)) \<longleftrightarrow> (\<nexists>a. order2size k dvd a \<and> blk a k \<subseteq> free_bytes s)"
proof -
  obtain r t where rt: "bmk_pgalloc (int k) s = Inr (r, t)" using pages.alloc_returns [OF assms] by blast
  show ?thesis
  proof (cases r)
    case None
    then show ?thesis using rt pages.alloc_None [OF assms, of t] by auto
  next
    case (Some a)
    then show ?thesis using rt pages.alloc_Some [OF assms, of a t] by auto
  qed
qed

theorem pgalloc_complete_witness: "\<nexists>t. bmk_pgalloc 2 pg_demo = Inr (None, t)"
proof -
  have "order2size 2 dvd 0x4000 \<and> blk 0x4000 2 \<subseteq> free_bytes pg_demo"
    by (simp add: pg_demo_state blk_def order2size_def BMK_PCPU_PAGE_SHIFT_def)
  then show ?thesis
    using pgalloc_complete [OF pg_demo_state(2), of 2] by (auto simp: FREELIST_LEVELS_def BMK_PCPU_PAGE_SHIFT_def)
qed

text \<open>
  A successful allocation hands out a block that was wholly free, aligned to the requested
  alignment and to its own size; exactly that block leaves the free memory, and the usage
  counter goes up by its size. When the request fails the state is unchanged and no free chunk
  of sufficient order has the alignment.
\<close>

theorem pgalloc_align_spec:
  assumes "pg_wf s" "k < FREELIST_LEVELS" "BMK_PCPU_PAGE_SHIFT \<le> j"
  shows "\<exists>r t. bmk_pgalloc_align (int k) (2 ^ j) s = Inr (r, t) \<and> pg_wf t \<and>
    (case r of
       None \<Rightarrow> t = s \<and> (\<forall>i a. k \<le> i \<longrightarrow> on_list s i a \<longrightarrow> \<not> 2 ^ j dvd a)
     | Some a \<Rightarrow> 2 ^ j dvd a \<and> order2size k dvd a \<and> blk a k \<subseteq> free_bytes s \<and>
         free_bytes t = free_bytes s - blk a k \<and>
         1024 * pgalloc_usedkb t = 1024 * pgalloc_usedkb s + order2size k)"
proof -
  obtain r t where t: "bmk_pgalloc_align (int k) (2 ^ j) s = Inr (r, t)" "pg_wf t" "alloc_post s k (2 ^ j) r t"
    using bmk_pgalloc_align_ok [OF assms(1,2) refl assms(3)] by blast
  moreover have "1024 * pgalloc_usedkb t = 1024 * pgalloc_usedkb s + order2size k" if "r = Some a" for a
    using usage_change [of s t "blk a k"] assms(1) t that by (simp add: alloc_post_def)
  ultimately show ?thesis by (cases r) (auto simp: alloc_post_def)
qed

theorem pgalloc_align_spec_witness:
  "\<exists>r t. bmk_pgalloc_align 0 0x4000 pg_demo = Inr (r, t) \<and> pg_wf t \<and>
     (\<forall>a. r = Some a \<longrightarrow> 0x4000 dvd a \<and> free_bytes t = {0x2000..<0xA000} - blk a 0)"
  using pgalloc_align_spec [OF pg_demo_state(2), of 0 14]
  by (fastforce simp: FREELIST_LEVELS_def BMK_PCPU_PAGE_SHIFT_def pg_demo_state)

text \<open>
  C30. Freeing an allocated, aligned block returns, makes exactly its bytes available again and
  takes its size off the usage counter; the result is again well formed, so the block has
  been merged with its buddy as long as the buddy was free.
\<close>

theorem pgfree_spec:
  assumes "pg_wf s" "order2size k dvd a" "blk a k \<subseteq> managed s" "blk a k \<inter> free_bytes s = {}"
  shows "\<exists>t. bmk_pgfree a (int k) s = Inr t \<and> pg_wf t \<and> free_bytes t = free_bytes s \<union> blk a k \<and>
    1024 * pgalloc_usedkb t + order2size k = 1024 * pgalloc_usedkb s"
proof -
  obtain t where t: "bmk_pgfree a (int k) s = Inr t" "pg_wf t" "free_bytes t = free_bytes s \<union> blk a k"
    "minpage_addr t = minpage_addr s" "maxpage_addr t = maxpage_addr s"
    using bmk_pgfree_ok [OF assms(1), of a k] assms(2-4) by (auto simp: free_pre_def)
  have "free_bytes s = free_bytes t - blk a k" "blk a k \<subseteq> free_bytes t" using t(3) assms(4) by blast+
  then have "1024 * pgalloc_usedkb s = 1024 * pgalloc_usedkb t + order2size k"
    using usage_change [OF t(2) assms(1)] t(4,5) by simp
  then show ?thesis using t(1-3) by simp
qed

theorem pgfree_spec_witness:
  "\<exists>a t u. bmk_pgalloc 1 pg_demo = Inr (Some a, t) \<and> bmk_pgfree a 1 t = Inr u \<and>
     free_bytes u = {0x2000..<0xA000}"
proof -
  have "order2size 1 dvd 0x2000 \<and> blk 0x2000 1 \<subseteq> free_bytes pg_demo"
    by (simp add: pg_demo_state blk_def order2size_def BMK_PCPU_PAGE_SHIFT_def)
  then obtain a t where a: "bmk_pgalloc 1 pg_demo = Inr (Some a, t)"
    using pages.alloc_succeeds [OF pg_demo_state(2), where k = 1 and a = "0x2000"] by (auto simp: FREELIST_LEVELS_def BMK_PCPU_PAGE_SHIFT_def)
  then have "pg_wf t" "order2size 1 dvd a" "blk a 1 \<subseteq> {0x2000..<0xA000}" "free_bytes t = {0x2000..<0xA000} - blk a 1"
    "managed t = {0x2000..<0xA000}"
    using pages.alloc_Some [OF pg_demo_state(2), where k = 1 and a = a and t = t]
    by (simp_all add: FREELIST_LEVELS_def BMK_PCPU_PAGE_SHIFT_def pg_demo_state)
  then show ?thesis using pgfree_spec [of t 1 a] a by auto
qed

text \<open>
  \<^verbatim>\<open>bmk_pgalloc_loadmem\<close> on a range that has room for the bitmap makes every page between the
  end of the bitmap and the end of the range available, and nothing else; a second call halts.
\<close>

theorem loadmem_spec:
  assumes "loadmem_fits min0 max0" "\<not> loadmem_called s"
  shows "\<exists>t. bmk_pgalloc_loadmem min0 max0 s = Inr t \<and> pg_wf t \<and> pgalloc_usedkb t = 0 \<and>
    free_bytes t = {bmk_round_page min0 + loadmem_bitmap_size (bmk_round_page min0) (bmk_trunc_page max0)
      ..<bmk_trunc_page max0} \<and>
    (\<forall>min1 max1. bmk_pgalloc_loadmem min1 max1 t = Inl (Halt ''bmk_pgalloc_loadmem called more than once''))"
proof -
  obtain t where t: "bmk_pgalloc_loadmem min0 max0 s = Inr t" "pg_wf t" "free_bytes t = managed t"
    "minpage_addr t = bmk_round_page min0 + loadmem_bitmap_size (bmk_round_page min0) (bmk_trunc_page max0)"
    "maxpage_addr t = bmk_trunc_page max0" "loadmem_called t"
    using bmk_pgalloc_loadmem_ok [OF assms] by blast
  moreover have "pgalloc_usedkb t = 0"
    using t(2,3) by (simp add: pg_wf_def usage_ok_def managed_def)
  ultimately show ?thesis by (auto simp: managed_def bmk_pgalloc_loadmem_def)
qed

theorem loadmem_spec_witness:
  "\<exists>t. bmk_pgalloc_loadmem 0x1000 0xA000 pg_zero = Inr t \<and> free_bytes t = {0x2000..<0xA000}"
  using loadmem_spec [OF pg_demo_fits] by (auto simp: page_values)

text \<open>
  The word-wise bit tricks of \<^verbatim>\<open>map_alloc\<close> and \<^verbatim>\<open>map_free\<close> set and clear exactly the bits of
  the pages \<open>first_page .. first_page + nr_pages - 1\<close>, within one map word or across many, and
  leave every other bit of the bitmap as it was.
\<close>

theorem map_ops_exact:
  assumes "span_fits s virt n"
  shows "\<exists>bm bm'. map_alloc virt n s = Inr (s\<lparr>alloc_bitmap := bm\<rparr>) \<and> map_free virt n s = Inr (s\<lparr>alloc_bitmap := bm'\<rparr>) \<and>
    (\<forall>p < PAGES_PER_MAPWORD * length (alloc_bitmap s).
       page_bit bm p = (page_bit (alloc_bitmap s) p \<or> va_to_pg s virt \<le> p \<and> p < va_to_pg s virt + n) \<and>
       page_bit bm' p = (page_bit (alloc_bitmap s) p \<and> \<not> (va_to_pg s virt \<le> p \<and> p < va_to_pg s virt + n)))"
  unfolding map_alloc_eq [OF assms] map_free_eq [OF assms]
  using bm_update_page [where g = "(OR)" and G = "(\<or>)"] bm_update_page [where g = "\<lambda>w m. w AND NOT m" and G = "\<lambda>w m. w \<and> \<not> m"]
  by (intro exI [of _ "bm_update (OR) (va_to_pg s virt) (va_to_pg s virt + n) (alloc_bitmap s)"]
      exI [of _ "bm_update (\<lambda>w m. w AND NOT m) (va_to_pg s virt) (va_to_pg s virt + n) (alloc_bitmap s)"])
    (simp add: bit_or_iff bit_and_iff bit_not_iff)

theorem map_ops_exact_witness:
  "\<exists>bm. map_alloc 0x43000 70 (pg_zero\<lparr>minpage_addr := 0x3000, alloc_bitmap := [0, 0, 0]\<rparr>) =
       Inr (pg_zero\<lparr>minpage_addr := 0x3000, alloc_bitmap := bm\<rparr>) \<and>
     page_bit bm 64 \<and> page_bit bm 133 \<and> \<not> page_bit bm 63 \<and> \<not> page_bit bm 134"
proof -
  let ?s = "pg_zero\<lparr>minpage_addr := 0x3000, alloc_bitmap := [0, 0, 0]\<rparr>"
  have "span_fits ?s 0x43000 70" "va_to_pg ?s 0x43000 = 64"
    by (simp_all add: span_fits_def va_to_pg_def PAGES_64 BMK_PCPU_PAGE_SHIFT_def)
  then obtain bm where bm: "map_alloc 0x43000 70 ?s = Inr (?s\<lparr>alloc_bitmap := bm\<rparr>)"
    and bits: "\<And>p. p < 192 \<Longrightarrow> page_bit bm p = (page_bit [0, 0, 0] p \<or> 64 \<le> p \<and> p < 134)"
    using map_ops_exact [of ?s "0x43000" 70] by (auto simp: PAGES_64)
  have "page_bit bm 64 \<and> page_bit bm 133 \<and> \<not> page_bit bm 63 \<and> \<not> page_bit bm 134"
    using bits [of 64] bits [of 133] bits [of 63] bits [of 134] by (simp add: page_bit_def PAGES_64)
  with bm show ?thesis by auto
qed

end
