(* ===== verification/Memalloc.thy ===== *)
theory Memalloc
  imports Pgalloc_Correct
begin

text \<open>
  The byte allocator of \<^verbatim>\<open>lib/libbmk_core/memalloc.c\<close>: power-of-two buckets below the page size,
  the page allocator above it, and an eight byte header in front of every pointer it returns.

  \<open>hdr_at\<close> is the memory of the headers, by address; \<open>bytes\<close> is the memory of the clients'
  data, which \<^verbatim>\<open>bmk_memcalloc\<close> clears and \<^verbatim>\<open>bmk_memrealloc_user\<close> copies. Pointers are naturals
  and \<open>None\<close> is the null pointer. The lists are accessed under \<^verbatim>\<open>malloc_slock\<close>, so calls do not
  interleave.
\<close>

section \<open>State\<close>

datatype bmk_memwho = BMK_MEMWHO_WIREDBMK | BMK_MEMWHO_RUMPKERN | BMK_MEMWHO_USER

record memalloc_hdr =
  mh_alignpad :: nat
  mh_magic :: nat
  mh_index :: nat
  mh_who :: bmk_memwho

definition MAGIC :: nat where
  "MAGIC = 0xef"

definition MINSHIFT :: nat where
  "MINSHIFT = 5"

definition LOCALBUCKETS :: nat where
  "LOCALBUCKETS = BMK_PCPU_PAGE_SHIFT - MINSHIFT"

definition MINALIGN :: nat where
  "MINALIGN = 16"

definition sizeof_hdr :: nat where
  "sizeof_hdr = 8"

record mstate =
  freebuckets :: "nat list list"
  nmalloc :: "nat list"
  hdr_at :: "nat \<Rightarrow> memalloc_hdr"
  bytes :: "nat \<Rightarrow> u8"
  pgs :: pgstate

section \<open>Buckets\<close>

text \<open>\<^verbatim>\<open>while (--nblks)\<close>: one new free block per iteration, each linked at the head.\<close>

fun morecore_loop :: "nat \<Rightarrow> nat \<Rightarrow> nat \<Rightarrow> nat list \<Rightarrow> nat list" where
  "morecore_loop 0 p sz l = l"
| "morecore_loop (Suc nblks) p sz l = morecore_loop nblks (p + sz) sz ((p + sz) # l)"

definition morecore :: "nat \<Rightarrow> mstate \<Rightarrow> (nat option \<times> mstate) res" where
  "morecore bucket s =
     (let sz = 2 ^ (bucket + MINSHIFT); nblks = BMK_PCPU_PAGE_SIZE div sz in
      bindE (assertE ''nblks > 1'' (nblks > 1)) (\<lambda>_.
      bindE (bmk_pgalloc 0 (pgs s)) (\<lambda>(rv, pg).
      case rv of
        None \<Rightarrow> Inr (None, s\<lparr>pgs := pg\<rparr>)
      | Some p \<Rightarrow> Inr (Some p, s\<lparr>pgs := pg,
          freebuckets := (freebuckets s)[bucket := morecore_loop (nblks - 1) p sz (freebuckets s ! bucket)]\<rparr>))))"

definition bmk_memalloc_init :: "mstate \<Rightarrow> mstate" where
  "bmk_memalloc_init s = s\<lparr>freebuckets := replicate LOCALBUCKETS []\<rparr>"

definition count_malloc :: "nat \<Rightarrow> mstate \<Rightarrow> mstate" where
  "count_malloc bucket s = s\<lparr>nmalloc := (nmalloc s)[bucket := (nmalloc s ! bucket + 1) mod 2 ^ 32]\<rparr>"

definition bucketalloc :: "nat \<Rightarrow> mstate \<Rightarrow> (nat option \<times> mstate) res" where
  "bucketalloc bucket s =
     (case freebuckets s ! bucket of
        [] \<Rightarrow> bindE (morecore bucket s) (\<lambda>(frb, s).
          case frb of None \<Rightarrow> Inr (None, s) | Some p \<Rightarrow> Inr (Some p, count_malloc bucket s))
      | frb # rest \<Rightarrow> Inr (Some frb, count_malloc bucket (s\<lparr>freebuckets := (freebuckets s)[bucket := rest]\<rparr>)))"

section \<open>Allocation and release\<close>

text \<open>\<^verbatim>\<open>(x + align - 1) & ~(align - 1)\<close>, for a power of two.\<close>

definition align_up :: "nat \<Rightarrow> nat \<Rightarrow> nat" where
  "align_up x align = (x + (align - 1)) mod 2 ^ 64 div align * align"

definition memalloc_bucket :: "nat \<Rightarrow> nat" where
  "memalloc_bucket allocbytes =
     (if allocbytes < 2 ^ MINSHIFT then 0
      else let bucket = 8 * 8 - clzl (allocbytes div 2 ^ MINSHIFT) in
        if allocbytes AND (allocbytes - 1) = 0 then bucket - 1 else bucket)"

definition bmk_memalloc :: "nat \<Rightarrow> nat \<Rightarrow> bmk_memwho \<Rightarrow> mstate \<Rightarrow> (nat option \<times> mstate) res" where
  "bmk_memalloc nbytes align0 who s =
     (if align0 AND (align0 - 1) \<noteq> 0 then Inr (None, s)
      else let align = (if align0 < MINALIGN then MINALIGN else align0) in
      bindE (assertE ''align <= (1UL<<31)'' (align \<le> 2 ^ 31)) (\<lambda>_.
      let allocbytes = (nbytes + align_up sizeof_hdr align) mod 2 ^ 64;
          bucket = memalloc_bucket allocbytes
      in bindE
          (if bucket \<ge> LOCALBUCKETS
           then bindE (bmk_pgalloc (int bucket + int MINSHIFT - int BMK_PCPU_PAGE_SHIFT) (pgs s))
                  (\<lambda>(h, pg). Inr (h, s\<lparr>pgs := pg\<rparr>))
           else bucketalloc bucket s) (\<lambda>(h, s).
      case h of
        None \<Rightarrow> Inr (None, s)
      | Some hdr \<Rightarrow>
          let rv = align_up (hdr + sizeof_hdr) align; alignpad = (rv + 2 ^ 64 - hdr) mod 2 ^ 64 in
          Inr (Some rv, s\<lparr>hdr_at := (hdr_at s)(rv - sizeof_hdr :=
            \<lparr>mh_alignpad = alignpad mod 2 ^ 32, mh_magic = MAGIC, mh_index = bucket mod 2 ^ 8, mh_who = who\<rparr>)\<rparr>))))"

definition bmk_xmalloc_bmk :: "nat \<Rightarrow> mstate \<Rightarrow> (nat \<times> mstate) res" where
  "bmk_xmalloc_bmk howmuch s =
     bindE (bmk_memalloc howmuch 0 BMK_MEMWHO_WIREDBMK s) (\<lambda>(rv, s).
     case rv of None \<Rightarrow> Inl (Halt ''xmalloc failed'') | Some p \<Rightarrow> Inr (p, s))"

definition memset_bytes :: "nat \<Rightarrow> u8 \<Rightarrow> nat \<Rightarrow> mstate \<Rightarrow> mstate" where
  "memset_bytes b c n s = s\<lparr>bytes := (\<lambda>x. if b \<le> x \<and> x < b + n then c else bytes s x)\<rparr>"

definition bmk_memcalloc :: "nat \<Rightarrow> nat \<Rightarrow> bmk_memwho \<Rightarrow> mstate \<Rightarrow> (nat option \<times> mstate) res" where
  "bmk_memcalloc n sz who s =
     (let tot = n * sz mod 2 ^ 64 in
      if sz \<noteq> 0 \<and> tot div sz \<noteq> n then Inr (None, s)
      else bindE (bmk_memalloc tot MINALIGN who s) (\<lambda>(v, s).
        case v of None \<Rightarrow> Inr (None, s) | Some p \<Rightarrow> Inr (Some p, memset_bytes p 0 tot s)))"

text \<open>A pointer whose header lacks the magic is reported on the console and otherwise ignored.\<close>

definition bmk_memfree :: "nat option \<Rightarrow> bmk_memwho \<Rightarrow> mstate \<Rightarrow> mstate res" where
  "bmk_memfree cp who s = (case cp of
     None \<Rightarrow> Inr s
   | Some cp \<Rightarrow>
       let hdr = hdr_at s (cp - sizeof_hdr) in
       if mh_magic hdr \<noteq> MAGIC then Inr s
       else if mh_who hdr \<noteq> who then Inl (Halt ''bmk_memalloc error'')
       else let index = mh_index hdr; alignpad = mh_alignpad hdr; origp = (cp + 2 ^ 64 - alignpad) mod 2 ^ 64 in
         if index \<ge> LOCALBUCKETS
         then bindE (bmk_pgfree origp (int (index + MINSHIFT) - int BMK_PCPU_PAGE_SHIFT) (pgs s))
                (\<lambda>pg. Inr (s\<lparr>pgs := pg\<rparr>))
         else Inr (s\<lparr>freebuckets := (freebuckets s)[index := origp # freebuckets s ! index],
                    nmalloc := (nmalloc s)[index := (nmalloc s ! index + 2 ^ 32 - 1) mod 2 ^ 32]\<rparr>))"

definition memcpy_bytes :: "nat \<Rightarrow> nat \<Rightarrow> nat \<Rightarrow> mstate \<Rightarrow> mstate" where
  "memcpy_bytes d src n s = s\<lparr>bytes := (\<lambda>x. if d \<le> x \<and> x < d + n then bytes s (src + (x - d)) else bytes s x)\<rparr>"

text \<open>\<^verbatim>\<open>1<<(size+MINSHIFT)\<close> is a shift of an \<^verbatim>\<open>int\<close>: it has no defined value from 31 on.\<close>

definition bmk_memrealloc_user :: "nat option \<Rightarrow> nat \<Rightarrow> mstate \<Rightarrow> (nat option \<times> mstate) res" where
  "bmk_memrealloc_user cp nbytes s = (case cp of
     None \<Rightarrow> bmk_memalloc nbytes MINALIGN BMK_MEMWHO_USER s
   | Some p \<Rightarrow>
       if nbytes = 0 then bindE (bmk_memfree cp BMK_MEMWHO_USER s) (\<lambda>s. Inr (None, s))
       else let sz = mh_index (hdr_at s (p - sizeof_hdr)); alignpad = mh_alignpad (hdr_at s (p - sizeof_hdr)) in
         if sz + MINSHIFT \<ge> 31 then Inl (Undefined ''1<<(size+MINSHIFT)'')
         else let room = (2 ^ (sz + MINSHIFT) + 2 ^ 64 - alignpad) mod 2 ^ 64 in
         if room \<ge> nbytes then Inr (Some p, s)
         else bindE (bmk_memalloc nbytes 8 BMK_MEMWHO_USER s) (\<lambda>(np, s).
           case np of
             None \<Rightarrow> Inr (None, s)
           | Some q \<Rightarrow> bindE (bmk_memfree cp BMK_MEMWHO_USER (memcpy_bytes q p room s)) (\<lambda>s. Inr (Some q, s))))"

text \<open>
  What \<^verbatim>\<open>bmk_memalloc_printstats\<close> prints: block size, length of the free list and allocation balance
  per bucket, then the totals in kilobytes.
\<close>

definition bmk_memalloc_printstats :: "mstate \<Rightarrow> nat list \<times> nat list \<times> nat list \<times> nat \<times> nat" where
  "bmk_memalloc_printstats s =
     (let buckets = [0..<LOCALBUCKETS];
          totfree = sum_list (map (\<lambda>i. length (freebuckets s ! i) * 2 ^ (i + MINSHIFT)) buckets);
          totused = sum_list (map (\<lambda>i. nmalloc s ! i * 2 ^ (i + MINSHIFT)) buckets)
      in (map (\<lambda>i. 2 ^ (i + MINSHIFT)) buckets, map (\<lambda>i. length (freebuckets s ! i)) buckets,
          map (\<lambda>i. nmalloc s ! i) buckets, totused div 1024, totfree div 1024))"

section \<open>Choice of the bucket\<close>

definition bsize :: "nat \<Rightarrow> nat" where
  "bsize b = 2 ^ (b + MINSHIFT)"

lemma bsize_pos [simp]: "0 < bsize b" and bsize_nz [simp]: "bsize b \<noteq> 0"
  by (simp_all add: bsize_def)

lemma bsize_Suc: "bsize (Suc b) = 2 * bsize b"
  by (simp add: bsize_def)

lemma and_pred_pow2: "n AND (n - 1) = 0 \<Longrightarrow> 0 < n \<Longrightarrow> \<exists>m. n = (2 :: nat) ^ m"
proof (induction n rule: less_induct)
  case (less n)
  have half: "(n div 2) AND ((n - 1) div 2) = 0"
    using less(2) drop_bit_and [of 1 n "n - 1"] by (simp add: drop_bit_eq_div)
  show ?case
  proof (cases "odd n")
    case True
    then have "(n - 1) div 2 = n div 2" by (auto elim!: oddE)
    with half have "n div 2 = 0" by simp
    with True have "n = 2 ^ 0" by (auto elim!: oddE)
    then show ?thesis by blast
  next
    case False
    then obtain k where k: "n = 2 * k" by (auto elim!: evenE)
    then have "(n - 1) div 2 = k - 1" by (cases k) auto
    with half k less(3) obtain m where "k = 2 ^ m" using less(1) [of k] by auto
    then have "n = 2 ^ Suc m" using k by simp
    then show ?thesis by blast
  qed
qed

lemma memalloc_bucket_ok:
  assumes "n \<le> 2 ^ 63"
  shows "n \<le> bsize (memalloc_bucket n)" "0 < memalloc_bucket n \<Longrightarrow> bsize (memalloc_bucket n - 1) < n"
    "memalloc_bucket n \<le> 58"
proof -
  have "n \<le> bsize (memalloc_bucket n) \<and> (0 < memalloc_bucket n \<longrightarrow> bsize (memalloc_bucket n - 1) < n) \<and>
      memalloc_bucket n \<le> 58"
  proof (cases "n < 2 ^ MINSHIFT")
    case True
    then show ?thesis by (simp add: memalloc_bucket_def bsize_def)
  next
    case False
    define q where "q = n div 2 ^ MINSHIFT"
    have q: "q \<noteq> 0" using False by (simp add: q_def div_eq_0_iff)
    note bl = bit_length_bounds [OF q]
    obtain l where l: "bit_length q = Suc l" using bl q by (cases "bit_length q") auto
    have lo: "2 ^ (l + MINSHIFT) \<le> n"
      using bl l by (simp add: q_def less_eq_div_iff_mult_less_eq power_add)
    have hi: "n < 2 ^ (Suc l + MINSHIFT)"
      using bl l by (simp add: q_def div_less_iff_less_mult power_add)
    have "(2 :: nat) ^ (l + MINSHIFT) \<le> 2 ^ 63" using lo assms by linarith
    then have l58: "l \<le> 58" by (simp only: power_increasing_iff MINSHIFT_def)
    have b: "memalloc_bucket n = (if n AND (n - 1) = 0 then l else Suc l)"
      using False l l58 unfolding memalloc_bucket_def q_def [symmetric] by (simp add: clzl_def)
    show ?thesis
    proof (cases "n AND (n - 1) = 0")
      case True
      have "n \<noteq> 0" using False by (simp add: MINSHIFT_def)
      then obtain m where m: "n = 2 ^ m" using and_pred_pow2 [OF True] by auto
      with lo hi have "l + MINSHIFT \<le> m" "m < Suc l + MINSHIFT"
        by (simp_all only: power_increasing_iff power_strict_increasing_iff)
      then have "m = l + MINSHIFT" by simp
      then show ?thesis using True b m l58 by (cases l) (auto simp: bsize_def)
    next
      case nz: False
      have "n \<noteq> 2 ^ (l + MINSHIFT)"
        using nz and_pow2_minus_1 [of "2 ^ (l + MINSHIFT)" "l + MINSHIFT"] by auto
      moreover have "Suc l \<le> 58"
      proof (rule ccontr)
        assume "\<not> Suc l \<le> 58"
        then have "l = 58" using l58 by simp
        with lo assms have "n = 2 ^ (l + MINSHIFT)" by (simp add: MINSHIFT_def)
        with calculation show False by simp
      qed
      ultimately show ?thesis using nz b lo hi by (simp add: bsize_def)
    qed
  qed
  then show "n \<le> bsize (memalloc_bucket n)" "0 < memalloc_bucket n \<Longrightarrow> bsize (memalloc_bucket n - 1) < n"
    "memalloc_bucket n \<le> 58" by blast+
qed

section \<open>Cells\<close>

definition cell :: "nat \<Rightarrow> nat \<Rightarrow> nat set" where
  "cell a b = {a..<a + bsize b}"

definition on_bucket :: "mstate \<Rightarrow> nat \<Rightarrow> nat \<Rightarrow> bool" where
  "on_bucket s b a \<longleftrightarrow> b < LOCALBUCKETS \<and> a \<in> set (freebuckets s ! b)"

text \<open>All the cells the allocator knows of: those on a free list and those handed out (\<open>L\<close>).\<close>

definition all_cells :: "mstate \<Rightarrow> (nat \<times> nat) set \<Rightarrow> (nat \<times> nat) set" where
  "all_cells s L = {(a, b). on_bucket s b a} \<union> L"

definition taken :: "pgstate \<Rightarrow> nat set" where
  "taken pg = managed pg - free_bytes pg"

definition ma_cells :: "mstate \<Rightarrow> (nat \<times> nat) set \<Rightarrow> bool" where
  "ma_cells s L \<longleftrightarrow> pg_wf (pgs s) \<and> length (freebuckets s) = LOCALBUCKETS \<and> length (nmalloc s) = LOCALBUCKETS \<and>
     (\<forall>b<LOCALBUCKETS. distinct (freebuckets s ! b)) \<and>
     (\<forall>a b. (a, b) \<in> L \<longrightarrow> \<not> on_bucket s b a) \<and>
     (\<forall>a b. (a, b) \<in> all_cells s L \<longrightarrow> bsize b dvd a \<and> cell a b \<subseteq> taken (pgs s)) \<and>
     (\<forall>a b a' b'. (a, b) \<in> all_cells s L \<longrightarrow> (a', b') \<in> all_cells s L \<longrightarrow> (a, b) \<noteq> (a', b') \<longrightarrow>
        cell a b \<inter> cell a' b' = {})"

lemma ma_cellsI:
  assumes "pg_wf (pgs s)" "length (freebuckets s) = LOCALBUCKETS" "length (nmalloc s) = LOCALBUCKETS"
    "\<And>b. b < LOCALBUCKETS \<Longrightarrow> distinct (freebuckets s ! b)" "\<And>a b. (a, b) \<in> L \<Longrightarrow> \<not> on_bucket s b a"
    "\<And>a b. (a, b) \<in> all_cells s L \<Longrightarrow> bsize b dvd a" "\<And>a b. (a, b) \<in> all_cells s L \<Longrightarrow> cell a b \<subseteq> taken (pgs s)"
    "\<And>a b a' b'. (a, b) \<in> all_cells s L \<Longrightarrow> (a', b') \<in> all_cells s L \<Longrightarrow> (a, b) \<noteq> (a', b') \<Longrightarrow> cell a b \<inter> cell a' b' = {}"
  shows "ma_cells s L"
  using assms unfolding ma_cells_def by blast

lemma ma_cellsD:
  assumes "ma_cells s L"
  shows "pg_wf (pgs s)" "length (freebuckets s) = LOCALBUCKETS" "length (nmalloc s) = LOCALBUCKETS"
    "b < LOCALBUCKETS \<Longrightarrow> distinct (freebuckets s ! b)" "(a, b) \<in> L \<Longrightarrow> \<not> on_bucket s b a"
    "(a, b) \<in> all_cells s L \<Longrightarrow> bsize b dvd a" "(a, b) \<in> all_cells s L \<Longrightarrow> cell a b \<subseteq> taken (pgs s)"
    "(a, b) \<in> all_cells s L \<Longrightarrow> (a', b') \<in> all_cells s L \<Longrightarrow> (a, b) \<noteq> (a', b') \<Longrightarrow> cell a b \<inter> cell a' b' = {}"
  using assms unfolding ma_cells_def by blast+

lemma cell_base [simp]: "a \<in> cell a b"
  by (simp add: cell_def)

lemma ma_cells_grow:
  assumes s: "ma_cells s L" and t: "pg_wf (pgs t)" "length (freebuckets t) = LOCALBUCKETS"
      "length (nmalloc t) = LOCALBUCKETS" "\<And>b. b < LOCALBUCKETS \<Longrightarrow> distinct (freebuckets t ! b)"
      "\<And>a b. (a, b) \<in> L' \<Longrightarrow> \<not> on_bucket t b a"
    and cells: "all_cells t L' = all_cells s L \<union> N" and taken: "taken (pgs s) \<subseteq> taken (pgs t)"
    and N: "\<And>a b. (a, b) \<in> N \<Longrightarrow> bsize b dvd a" "\<And>a b. (a, b) \<in> N \<Longrightarrow> cell a b \<subseteq> taken (pgs t) - taken (pgs s)"
      "\<And>a b a' b'. (a, b) \<in> N \<Longrightarrow> (a', b') \<in> N \<Longrightarrow> (a, b) \<noteq> (a', b') \<Longrightarrow> cell a b \<inter> cell a' b' = {}"
  shows "ma_cells t L'"
proof (rule ma_cellsI [OF t])
  fix a b assume ab: "(a, b) \<in> all_cells t L'"
  show "bsize b dvd a" using ab ma_cellsD(6) [OF s] N(1) unfolding cells by blast
  show "cell a b \<subseteq> taken (pgs t)" using ab ma_cellsD(7) [OF s] N(2) taken unfolding cells by blast
next
  fix a b a' b' assume ab: "(a, b) \<in> all_cells t L'" "(a', b') \<in> all_cells t L'" "(a, b) \<noteq> (a', b')"
  have cross: "cell x y \<inter> cell x' y' = {}" if "(x, y) \<in> all_cells s L" "(x', y') \<in> N" for x y x' y'
    using ma_cellsD(7) [OF s that(1)] N(2) [OF that(2)] by blast
  show "cell a b \<inter> cell a' b' = {}"
    using ab(1,2) ma_cellsD(8) [OF s _ _ ab(3)] N(3) [OF _ _ ab(3)] cross [of a b a' b'] cross [of a' b' a b]
    unfolding cells by blast
qed

lemma on_bucket_update:
  assumes "length (freebuckets s) = LOCALBUCKETS" "freebuckets t = (freebuckets s)[b := l]" "b < LOCALBUCKETS"
  shows "on_bucket t j a \<longleftrightarrow> (if j = b then a \<in> set l else on_bucket s j a)"
  using assms by (auto simp: on_bucket_def)

lemma distinct_update:
  assumes "ma_cells s L" "freebuckets t = (freebuckets s)[b := l]" "distinct l" "j < LOCALBUCKETS"
  shows "distinct (freebuckets t ! j)"
  using assms ma_cellsD(2) [OF assms(1)] ma_cellsD(4) [OF assms(1)] by (cases "j = b") auto

lemma morecore_loop_set: "set (morecore_loop n p sz l) = set l \<union> (\<lambda>i. p + i * sz) ` {1..n}"
proof (induction n p sz l rule: morecore_loop.induct)
  case (2 n p sz l)
  have "(\<lambda>i. p + i * sz) ` {1..Suc n} = insert (p + sz) ((\<lambda>i. p + sz + i * sz) ` {1..n})"
  proof -
    have "{1..Suc n} = insert 1 (Suc ` {1..n})" by (auto simp: image_Suc_atLeastAtMost)
    then show ?thesis by (simp only: image_insert image_image) (simp add: add.assoc)
  qed
  then show ?case using 2 by simp
qed simp

lemma morecore_loop_distinct:
  "0 < sz \<Longrightarrow> distinct l \<Longrightarrow> (\<And>i. 1 \<le> i \<Longrightarrow> i \<le> n \<Longrightarrow> p + i * sz \<notin> set l) \<Longrightarrow> distinct (morecore_loop n p sz l)"
proof (induction n p sz l rule: morecore_loop.induct)
  case (2 n p sz l)
  have "p + sz + i * sz \<notin> set ((p + sz) # l)" if "1 \<le> i" "i \<le> n" for i
    using 2(4) [of "Suc i"] that 2(2) by (simp add: add.assoc)
  then show ?case using 2(1) [OF 2(2)] 2(3) 2(4) [of 1] by simp
qed simp

lemma small_blocks:
  assumes "b < LOCALBUCKETS"
  obtains n where "BMK_PCPU_PAGE_SIZE div bsize b = n" "n * bsize b = BMK_PCPU_PAGE_SIZE" "1 < n"
proof -
  have "BMK_PCPU_PAGE_SIZE = 2 ^ (LOCALBUCKETS - b) * bsize b"
    using assms by (simp add: BMK_PCPU_PAGE_SIZE_def bsize_def LOCALBUCKETS_def flip: power_add)
  moreover have "(1 :: nat) < 2 ^ (LOCALBUCKETS - b)" using assms by (intro one_less_power) simp_all
  moreover have "2 ^ (LOCALBUCKETS - b) * bsize b div bsize b = 2 ^ (LOCALBUCKETS - b)"
    by (rule nonzero_mult_div_cancel_right) (simp add: bsize_def)
  ultimately show thesis using that [of "2 ^ (LOCALBUCKETS - b)"] by metis
qed

lemma cell_blk: "LOCALBUCKETS \<le> b \<Longrightarrow> cell a b = blk a (b - LOCALBUCKETS)"
    and bsize_order: "LOCALBUCKETS \<le> b \<Longrightarrow> bsize b = order2size (b - LOCALBUCKETS)"
  by (simp_all add: cell_def blk_def bsize_def order2size_def LOCALBUCKETS_def MINSHIFT_def BMK_PCPU_PAGE_SHIFT_def add.commute)

lemma cells_apart: "i \<noteq> j \<Longrightarrow> cell (p + i * bsize b) b \<inter> cell (p + j * bsize b) b = {}"
proof -
  have less: "cell (p + i * bsize b) b \<inter> cell (p + j * bsize b) b = {}" if "i < j" for i j
  proof -
    have "Suc i * bsize b \<le> j * bsize b" using that by (intro mult_le_mono1) simp
    then show ?thesis by (auto simp: cell_def)
  qed
  assume "i \<noteq> j"
  then show ?thesis using less [of i j] less [of j i] by (metis Int_commute nat_neq_iff)
qed

text \<open>What a page taken from the page allocator adds to the bytes this allocator may use.\<close>

lemma taken_alloc:
  assumes "pg_wf pg" "k < FREELIST_LEVELS" "bmk_pgalloc (int k) pg = Inr (Some a, pg')"
  shows "pg_wf pg'" "order2size k dvd a" "taken pg' = taken pg \<union> blk a k" "blk a k \<inter> taken pg = {}"
  using pages.alloc_Some [OF assms] pages.avail_area [OF assms(1)] by (auto simp: taken_def)

section \<open>Obtaining a block\<close>

definition block_post :: "mstate \<Rightarrow> (nat \<times> nat) set \<Rightarrow> nat \<Rightarrow> nat option \<Rightarrow> mstate \<Rightarrow> bool" where
  "block_post s L b r t \<longleftrightarrow> (case r of
     None \<Rightarrow> t = s
   | Some a \<Rightarrow> ma_cells t (insert (a, b) L) \<and> (a, b) \<notin> L \<and> hdr_at t = hdr_at s \<and> bytes t = bytes s)"

lemma fresh_cell: "ma_cells s L \<Longrightarrow> x \<notin> taken (pgs s) \<Longrightarrow> (x, b) \<notin> all_cells s L"
  using ma_cellsD(7) cell_base by blast

text \<open>The page \<open>p\<close> cut into \<open>n\<close> cells of bucket \<open>b\<close>: the first is handed out, the others are linked.\<close>

definition page_cut :: "nat \<Rightarrow> nat \<Rightarrow> nat \<Rightarrow> nat set \<Rightarrow> (nat \<times> nat) set" where
  "page_cut p b n I = (\<lambda>i. (p + i * bsize b, b)) ` I"

lemma cut_inside:
  assumes "n * bsize b = BMK_PCPU_PAGE_SIZE" "(a, j) \<in> page_cut p b n {..<n}"
  shows "cell a j \<subseteq> blk p 0"
proof -
  obtain i where i: "i < n" "a = p + i * bsize b" "j = b" using assms(2) by (auto simp: page_cut_def)
  then have "Suc i * bsize b \<le> n * bsize b" by (intro mult_le_mono1) simp
  then show ?thesis unfolding assms(1) i by (auto simp: cell_def blk_def order2size_pages)
qed

lemma cut_page:
  assumes s: "ma_cells s L" and b: "b < LOCALBUCKETS"
    and n: "n * bsize b = BMK_PCPU_PAGE_SIZE" "1 < n"
    and page: "pg_wf pg" "BMK_PCPU_PAGE_SIZE dvd p" "taken pg = taken (pgs s) \<union> blk p 0" "blk p 0 \<inter> taken (pgs s) = {}"
    and t: "t = s\<lparr>pgs := pg, freebuckets := (freebuckets s)[b := morecore_loop (n - 1) p (bsize b) (freebuckets s ! b)]\<rparr>"
  shows "ma_cells t (insert (p, b) L) \<and> (p, b) \<notin> L"
proof -
  let ?l = "morecore_loop (n - 1) p (bsize b) (freebuckets s ! b)"
  let ?N = "page_cut p b n {..<n}"
  have new: "x \<notin> all_cells s L" if "x \<in> ?N" for x
  proof -
    have "cell (fst x) (snd x) \<subseteq> blk p 0" using cut_inside [OF n(1)] that by simp
    then have "fst x \<notin> taken (pgs s)" using page(4) cell_base by blast
    then show ?thesis using fresh_cell [OF s] by (cases x) auto
  qed
  have range: "{..<n} = insert 0 {1..n - 1}" using n(2) by auto
  have on: "on_bucket t j a \<longleftrightarrow> on_bucket s j a \<or> (a, j) \<in> page_cut p b n {1..n - 1}" for j a
    using on_bucket_update [of s t b ?l j a] ma_cellsD(2) [OF s] b
    by (auto simp: t on_bucket_def morecore_loop_set page_cut_def)
  have cells: "all_cells t (insert (p, b) L) = all_cells s L \<union> ?N"
    unfolding all_cells_def on by (auto simp: page_cut_def range)
  have sub: "page_cut p b n {1..n - 1} \<subseteq> ?N" "(p, b) \<in> ?N" "(p, b) \<notin> page_cut p b n {1..n - 1}"
    using n(2) by (auto simp: page_cut_def range)
  have old: "L \<subseteq> all_cells s L" "on_bucket s j a \<Longrightarrow> (a, j) \<in> all_cells s L" for j a
    by (auto simp: all_cells_def)
  have dl: "distinct ?l"
  proof (rule morecore_loop_distinct [OF bsize_pos ma_cellsD(4) [OF s b]])
    fix i assume "1 \<le> i" "i \<le> n - 1"
    then have "(p + i * bsize b, b) \<notin> all_cells s L" using n(2) by (intro new) (auto simp: page_cut_def)
    then show "p + i * bsize b \<notin> set (freebuckets s ! b)" using b by (auto simp: all_cells_def on_bucket_def)
  qed
  have "ma_cells t (insert (p, b) L)"
  proof (rule ma_cells_grow [OF s _ _ _ _ _ cells])
    show "distinct (freebuckets t ! j)" if "j < LOCALBUCKETS" for j
      using distinct_update [OF s _ dl that, of t b] by (simp add: t)
    show "\<not> on_bucket t j a" if "(a, j) \<in> insert (p, b) L" for a j
      using that new sub old ma_cellsD(5) [OF s, of a j] unfolding on by blast
    have "bsize b dvd p" using page(2) n(1) by (metis dvd_triv_right dvd_trans)
    then show "bsize j dvd a" if "(a, j) \<in> ?N" for a j using that by (auto simp: page_cut_def)
    show "cell a j \<subseteq> taken (pgs t) - taken (pgs s)" if "(a, j) \<in> ?N" for a j
      using cut_inside [OF n(1) that] page(3,4) by (auto simp: t)
    show "cell a j \<inter> cell a' j' = {}" if "(a, j) \<in> ?N" "(a', j') \<in> ?N" "(a, j) \<noteq> (a', j')" for a j a' j'
    proof -
      note two = that
      obtain i i' where "a = p + i * bsize b" "j = b" "a' = p + i' * bsize b" "j' = b"
        using two(1,2) by (auto simp: page_cut_def)
      then show ?thesis using two(3) cells_apart [of i i' p b] by auto
    qed
  qed (use page ma_cellsD(2,3) [OF s] in \<open>auto simp: t\<close>)
  then show ?thesis using new [OF sub(2)] old by blast
qed

lemma morecore_ok:
  assumes s: "ma_cells s L" and b: "b < LOCALBUCKETS"
  shows "\<exists>r t. morecore b s = Inr (r, t) \<and> block_post s L b r t"
proof -
  obtain n where n: "BMK_PCPU_PAGE_SIZE div bsize b = n" "n * bsize b = BMK_PCPU_PAGE_SIZE" "1 < n"
    by (rule small_blocks [OF b])
  note wf = ma_cellsD(1) [OF s]
  have lev: "0 < FREELIST_LEVELS" by (simp add: FREELIST_LEVELS_def BMK_PCPU_PAGE_SHIFT_def)
  obtain r pg where pg: "bmk_pgalloc 0 (pgs s) = Inr (r, pg)"
    using pages.alloc_returns [OF wf lev] by auto
  show ?thesis
  proof (cases r)
    case None
    then have "pg = pgs s" using pages.alloc_None [OF wf lev, of pg] pg by simp
    then show ?thesis using None pg n
      by (simp add: morecore_def Let_def bsize_def [symmetric] block_post_def)
  next
    case (Some p)
    then have "pg_wf pg" "BMK_PCPU_PAGE_SIZE dvd p" "taken pg = taken (pgs s) \<union> blk p 0" "blk p 0 \<inter> taken (pgs s) = {}"
      using taken_alloc [OF wf lev, of p pg] pg by (simp_all add: order2size_pages)
    note post = cut_page [OF s b n(2,3) this refl]
    show ?thesis
      using post Some pg n by (simp add: morecore_def Let_def bsize_def [symmetric] block_post_def)
  qed
qed

lemma ma_cells_count [simp]: "ma_cells (count_malloc b s) L = ma_cells s L"
  by (simp add: ma_cells_def count_malloc_def all_cells_def on_bucket_def)

lemma count_malloc_fields [simp]:
  "hdr_at (count_malloc b s) = hdr_at s" "bytes (count_malloc b s) = bytes s"
  "pgs (count_malloc b s) = pgs s" "freebuckets (count_malloc b s) = freebuckets s"
  by (simp_all add: count_malloc_def)

lemma bucketalloc_ok:
  assumes s: "ma_cells s L" and b: "b < LOCALBUCKETS"
  shows "\<exists>r t. bucketalloc b s = Inr (r, t) \<and> block_post s L b r t"
proof (cases "freebuckets s ! b")
  case Nil
  obtain r t where "morecore b s = Inr (r, t)" "block_post s L b r t" using morecore_ok [OF s b] by blast
  then show ?thesis using Nil
    by (cases r) (auto simp: bucketalloc_def block_post_def)
next
  case (Cons a rest)
  define t where "t = s\<lparr>freebuckets := (freebuckets s)[b := rest]\<rparr>"
  have d: "distinct (a # rest)" using ma_cellsD(4) [OF s b] Cons by simp
  have ob: "on_bucket s b a" using Cons b by (simp add: on_bucket_def)
  have on: "on_bucket t j x \<longleftrightarrow> on_bucket s j x \<and> (x, j) \<noteq> (a, b)" for j x
    using on_bucket_update [of s t b rest j x] ma_cellsD(2) [OF s] b Cons d by (auto simp: t_def on_bucket_def)
  have cells: "all_cells t (insert (a, b) L) = all_cells s L \<union> {}"
    unfolding all_cells_def on using ob by auto
  have "ma_cells t (insert (a, b) L)"
  proof (rule ma_cells_grow [OF s _ _ _ _ _ cells])
    show "distinct (freebuckets t ! j)" if "j < LOCALBUCKETS" for j
      using distinct_update [OF s _ _ that, of t b rest] d by (simp add: t_def)
    show "\<not> on_bucket t j x" if "(x, j) \<in> insert (a, b) L" for x j
      using that ma_cellsD(5) [OF s, of x j] by (auto simp: on)
  qed (use ma_cellsD(1-3) [OF s] in \<open>auto simp: t_def\<close>)
  moreover have "(a, b) \<notin> L" using ma_cellsD(5) [OF s] ob by blast
  ultimately show ?thesis using Cons
    by (simp add: bucketalloc_def block_post_def t_def [symmetric]) (simp add: t_def)
qed

lemma block_alloc_ok:
  assumes s: "ma_cells s L" and b: "b \<le> 58"
  shows "\<exists>r t. (if LOCALBUCKETS \<le> b
       then bindE (bmk_pgalloc (int b + int MINSHIFT - int BMK_PCPU_PAGE_SHIFT) (pgs s)) (\<lambda>(h, pg). Inr (h, s\<lparr>pgs := pg\<rparr>))
       else bucketalloc b s) = Inr (r, t) \<and> block_post s L b r t"
proof (cases "LOCALBUCKETS \<le> b")
  case False
  then show ?thesis using bucketalloc_ok [OF s] by simp
next
  case True
  define k where "k = b - LOCALBUCKETS"
  note wf = ma_cellsD(1) [OF s]
  have k: "int b + int MINSHIFT - int BMK_PCPU_PAGE_SHIFT = int k" "k < FREELIST_LEVELS"
    using True b by (auto simp: k_def LOCALBUCKETS_def MINSHIFT_def BMK_PCPU_PAGE_SHIFT_def FREELIST_LEVELS_def)
  obtain r pg where pg: "bmk_pgalloc (int k) (pgs s) = Inr (r, pg)" using pages.alloc_returns [OF wf k(2)] by blast
  show ?thesis
  proof (cases r)
    case None
    then have "pg = pgs s" using pages.alloc_None [OF wf k(2), of pg] pg by simp
    then show ?thesis using None pg True k(1) by (simp add: block_post_def)
  next
    case (Some a)
    then have page: "pg_wf pg" "bsize b dvd a" "taken pg = taken (pgs s) \<union> cell a b" "cell a b \<inter> taken (pgs s) = {}"
      using taken_alloc [OF wf k(2), of a pg] pg True by (simp_all add: cell_blk bsize_order k_def)
    define t where "t = s\<lparr>pgs := pg\<rparr>"
    have on: "on_bucket t = on_bucket s" by (simp add: on_bucket_def t_def fun_eq_iff)
    have new: "(a, b) \<notin> all_cells s L" using fresh_cell [OF s] page(4) cell_base by blast
    have cells: "all_cells t (insert (a, b) L) = all_cells s L \<union> {(a, b)}" by (auto simp: all_cells_def on)
    have "ma_cells t (insert (a, b) L)"
    proof (rule ma_cells_grow [OF s _ _ _ _ _ cells])
      show "\<not> on_bucket t j x" if "(x, j) \<in> insert (a, b) L" for x j
        using that ma_cellsD(5) [OF s, of x j] new by (auto simp: on all_cells_def)
    qed (use page ma_cellsD(2-4) [OF s] in \<open>auto simp: t_def\<close>)
    then show ?thesis using Some pg True k(1) new by (auto simp: block_post_def t_def all_cells_def)
  qed
qed

section \<open>Headers and live pointers\<close>

text \<open>
  \<open>live\<close> records the pointers that have been handed out and not yet freed: the base of the
  cell, its bucket and the owner.
\<close>

type_synonym live_map = "nat \<Rightarrow> (nat \<times> nat \<times> bmk_memwho) option"

definition live_cells :: "live_map \<Rightarrow> (nat \<times> nat) set" where
  "live_cells live = {(a, b). \<exists>p w. live p = Some (a, b, w)}"

definition ma_wf :: "mstate \<Rightarrow> live_map \<Rightarrow> bool" where
  "ma_wf s live \<longleftrightarrow> ma_cells s (live_cells live) \<and>
     (\<forall>p a b w. live p = Some (a, b, w) \<longrightarrow> a + MINALIGN \<le> p \<and> p \<le> a + bsize b \<and> b \<le> 58 \<and>
        hdr_at s (p - sizeof_hdr) = \<lparr>mh_alignpad = p - a, mh_magic = MAGIC, mh_index = b, mh_who = w\<rparr>) \<and>
     (\<forall>p q a b w w'. live p = Some (a, b, w) \<longrightarrow> live q = Some (a, b, w') \<longrightarrow> p = q)"

lemma ma_wfD:
  assumes "ma_wf s live"
  shows "ma_cells s (live_cells live)"
    "live p = Some (a, b, w) \<Longrightarrow> a + MINALIGN \<le> p \<and> p \<le> a + bsize b \<and> b \<le> 58 \<and>
        hdr_at s (p - sizeof_hdr) = \<lparr>mh_alignpad = p - a, mh_magic = MAGIC, mh_index = b, mh_who = w\<rparr>"
    "live p = Some (a, b, w) \<Longrightarrow> live q = Some (a, b, w') \<Longrightarrow> p = q"
  using assms unfolding ma_wf_def by blast+

lemma header_in_cell:
  "a + MINALIGN \<le> p \<Longrightarrow> p \<le> a + bsize b \<Longrightarrow> p - sizeof_hdr \<in> cell a b \<and> sizeof_hdr \<le> p"
  by (auto simp: cell_def MINALIGN_def sizeof_hdr_def)

lemma live_cell: "live p = Some (a, b, w) \<Longrightarrow> (a, b) \<in> all_cells s (live_cells live)"
  by (auto simp: all_cells_def live_cells_def)

lemma live_disjoint:
  assumes "ma_wf s live" "live p = Some (a, b, w)" "live q = Some (a', b', w')" "p \<noteq> q"
  shows "cell a b \<inter> cell a' b' = {}"
  using ma_cellsD(8) [OF ma_wfD(1) [OF assms(1)], of a b a' b'] live_cell [of live p a b w s]
    live_cell [of live q a' b' w' s] ma_wfD(3) [OF assms(1)] assms(2-4) by blast

section \<open>Arithmetic of the alignment padding\<close>

definition effective_align :: "nat \<Rightarrow> nat" where
  "effective_align align = (if align < MINALIGN then MINALIGN else align)"

lemma effective_align_pow2:
  assumes "align AND (align - 1) = 0" "align \<le> 2 ^ 31"
  obtains j where "effective_align align = 2 ^ j" "4 \<le> j" "j \<le> 31"
proof (cases "align < MINALIGN")
  case True
  then show ?thesis using that [of 4] by (simp add: effective_align_def MINALIGN_def)
next
  case False
  then have "0 < align" by (simp add: MINALIGN_def)
  then obtain m where m: "align = 2 ^ m" using and_pred_pow2 [OF assms(1)] by blast
  have "(2 :: nat) ^ 4 \<le> 2 ^ m" "(2 :: nat) ^ m \<le> 2 ^ 31" using False assms(2) m by (simp_all add: MINALIGN_def)
  then have "4 \<le> m" "m \<le> 31" by (simp_all only: power_increasing_iff one_less_numeral_iff semiring_norm)
  then show ?thesis using that [of m] m False by (simp add: effective_align_def)
qed

lemma align_up_exact:
  assumes "A dvd h" "sizeof_hdr \<le> A" "h + A + sizeof_hdr \<le> 2 ^ 64"
  shows "align_up (h + sizeof_hdr) A = h + A"
proof -
  obtain q where q: "h = A * q" using assms(1) by (elim dvdE)
  have "(h + sizeof_hdr + (A - 1)) mod 2 ^ 64 = h + A + 7"
    using assms(2,3) by (simp add: sizeof_hdr_def)
  moreover have "(h + A + 7) div A = q + 1"
  proof -
    have "h + A + 7 = 7 + A * (q + 1)" by (simp add: q)
    moreover have "(7 + A * (q + 1)) div A = q + 1 + 7 div A"
      using assms(2) by (intro div_mult_self2) (simp add: sizeof_hdr_def)
    moreover have "7 div A = 0" using assms(2) by (simp add: sizeof_hdr_def)
    ultimately show ?thesis by presburger
  qed
  ultimately show ?thesis by (simp add: align_up_def q mult.commute)
qed

section \<open>Allocating and freeing preserve the invariant\<close>

text \<open>A request that the size arithmetic of \<^verbatim>\<open>bmk_memalloc\<close> can represent.\<close>

definition request_ok :: "nat \<Rightarrow> nat \<Rightarrow> bool" where
  "request_ok nbytes align \<longleftrightarrow> align AND (align - 1) = 0 \<and> align \<le> 2 ^ 31 \<and> nbytes + effective_align align \<le> 2 ^ 63"

lemma cell_top:
  assumes "ma_cells s L" "(a, b) \<in> all_cells s L"
  shows "a + bsize b + BMK_PCPU_PAGE_SIZE \<le> 2 ^ 64"
proof -
  let ?m = "maxpage_addr (pgs s)"
  have "cell a b \<subseteq> managed (pgs s)" using ma_cellsD(7) [OF assms] by (auto simp: taken_def)
  moreover have "a + bsize b - 1 \<in> cell a b"
    unfolding cell_def atLeastLessThan_iff using bsize_pos [of b] by linarith
  ultimately have top: "a + bsize b - 1 < ?m" by (auto simp: managed_def)
  have "BMK_PCPU_PAGE_SIZE dvd ?m" "?m < 2 ^ 64" using ma_cellsD(1) [OF assms(1)] by (auto simp: pg_wf_def env_ok_def)
  moreover have "BMK_PCPU_PAGE_SIZE dvd 2 ^ 64" by (simp add: BMK_PCPU_PAGE_SIZE_def BMK_PCPU_PAGE_SHIFT_def)
  ultimately have "?m + BMK_PCPU_PAGE_SIZE \<le> 2 ^ 64"
    using multiples_apart [of BMK_PCPU_PAGE_SIZE "2 ^ 64" ?m] by (meson leI not_less)
  then show ?thesis using top by linarith
qed

lemma live_cells_upd:
  assumes "live p = None"
  shows "live_cells (live(p \<mapsto> (a, b, w))) = insert (a, b) (live_cells live)"
proof (rule set_eqI)
  fix x :: "nat \<times> nat"
  obtain c d where x: "x = (c, d)" by (cases x)
  have "(\<exists>q v. (live(p \<mapsto> (a, b, w))) q = Some (c, d, v)) \<longleftrightarrow> (c = a \<and> d = b) \<or> (\<exists>q v. live q = Some (c, d, v))"
  proof
    assume "\<exists>q v. (live(p \<mapsto> (a, b, w))) q = Some (c, d, v)"
    then show "(c = a \<and> d = b) \<or> (\<exists>q v. live q = Some (c, d, v))" by (auto split: if_splits)
  next
    assume "(c = a \<and> d = b) \<or> (\<exists>q v. live q = Some (c, d, v))"
    then show "\<exists>q v. (live(p \<mapsto> (a, b, w))) q = Some (c, d, v)"
    proof
      assume "\<exists>q v. live q = Some (c, d, v)"
      then obtain q v where "live q = Some (c, d, v)" by blast
      then show ?thesis using assms by (intro exI [of _ q] exI [of _ v]) auto
    qed (auto intro!: exI [of _ p])
  qed
  then show "x \<in> live_cells (live(p \<mapsto> (a, b, w))) \<longleftrightarrow> x \<in> insert (a, b) (live_cells live)"
    by (simp add: x live_cells_def del: fun_upd_apply)
qed

lemma ma_wf_insert:
  assumes wf: "ma_wf s live" and t: "ma_cells t (insert (a, b) (live_cells live))" "(a, b) \<notin> live_cells live"
      "hdr_at t = hdr_at s"
    and p: "a + MINALIGN \<le> p" "p \<le> a + bsize b" "b \<le> 58"
    and u: "u = t\<lparr>hdr_at := (hdr_at t)(p - sizeof_hdr := \<lparr>mh_alignpad = p - a, mh_magic = MAGIC, mh_index = b, mh_who = w\<rparr>)\<rparr>"
  shows "live p = None \<and> ma_wf u (live(p \<mapsto> (a, b, w)))"
proof -
  have new: "p - sizeof_hdr \<in> cell a b" using header_in_cell [OF p(1,2)] by blast
  have other: "q - sizeof_hdr \<noteq> p - sizeof_hdr" if q: "live q = Some (a', b', w')" for q a' b' w'
  proof -
    have "(a', b') \<in> live_cells live" using q by (auto simp: live_cells_def)
    moreover from this have "(a', b') \<noteq> (a, b)" using t(2) by blast
    ultimately have "cell a' b' \<inter> cell a b = {}"
      using ma_cellsD(8) [OF t(1), of a' b' a b] by (auto simp: all_cells_def)
    moreover have "q - sizeof_hdr \<in> cell a' b'" using header_in_cell ma_wfD(2) [OF wf q] by blast
    ultimately show ?thesis using new by auto
  qed
  then have none: "live p = None" by (cases "live p") auto
  have "ma_cells u (live_cells (live(p \<mapsto> (a, b, w))))"
    using t(1) by (simp add: live_cells_upd [of live p, OF none] u ma_cells_def all_cells_def on_bucket_def)
  moreover have "a' + MINALIGN \<le> q \<and> q \<le> a' + bsize b' \<and> b' \<le> 58 \<and>
      hdr_at u (q - sizeof_hdr) = \<lparr>mh_alignpad = q - a', mh_magic = MAGIC, mh_index = b', mh_who = w'\<rparr>"
    if "(live(p \<mapsto> (a, b, w))) q = Some (a', b', w')" for q a' b' w'
    using that ma_wfD(2) [OF wf, of q a' b' w'] other [of q a' b' w'] p t(3) by (auto simp: u split: if_splits)
  moreover have "q = q'" if "(live(p \<mapsto> (a, b, w))) q = Some (a', b', v)" "(live(p \<mapsto> (a, b, w))) q' = Some (a', b', v')"
    for q q' a' b' v v'
    using that ma_wfD(3) [OF wf, of q a' b' v q' v'] t(2) by (auto simp: live_cells_def split: if_splits)
  ultimately show ?thesis using none unfolding ma_wf_def by blast
qed

lemma bmk_memalloc_ok:
  assumes wf: "ma_wf s live" and req: "request_ok nbytes align"
  shows "\<exists>r t. bmk_memalloc nbytes align who s = Inr (r, t) \<and>
    (case r of
       None \<Rightarrow> t = s
     | Some p \<Rightarrow> \<exists>a b. live p = None \<and> ma_wf t (live(p \<mapsto> (a, b, who))) \<and> effective_align align dvd p \<and>
         p + nbytes \<le> a + bsize b \<and> b = memalloc_bucket (nbytes + effective_align align) \<and>
         p = a + effective_align align \<and> bytes t = bytes s)"
proof -
  obtain j where j: "effective_align align = 2 ^ j" "4 \<le> j" "j \<le> 31"
    using effective_align_pow2 req unfolding request_ok_def by blast
  define A where "A = effective_align align"
  define b where "b = memalloc_bucket (nbytes + A)"
  have le: "nbytes + A \<le> 2 ^ 63" using req by (simp add: request_ok_def A_def)
  have "(2 :: nat) ^ 4 \<le> A" "A \<le> 2 ^ 31" using j by (simp_all only: A_def power_increasing_iff one_less_numeral_iff semiring_norm)
  then have A: "MINALIGN \<le> A" "A \<le> 2 ^ 31" "sizeof_hdr \<le> A" by (simp_all add: MINALIGN_def sizeof_hdr_def)
  have up: "align_up sizeof_hdr A = A" using align_up_exact [of A 0] A by (simp add: sizeof_hdr_def)
  note bk = memalloc_bucket_ok [OF le, folded b_def]
  obtain r t where rt: "(if LOCALBUCKETS \<le> b
       then bindE (bmk_pgalloc (int b + int MINSHIFT - int BMK_PCPU_PAGE_SHIFT) (pgs s)) (\<lambda>(h, pg). Inr (h, s\<lparr>pgs := pg\<rparr>))
       else bucketalloc b s) = Inr (r, t)" "block_post s (live_cells live) b r t"
    using block_alloc_ok [OF ma_wfD(1) [OF wf] bk(3)] by blast
  have body: "bmk_memalloc nbytes align who s = bindE (Inr (r, t)) (\<lambda>(h, s).
      case h of None \<Rightarrow> Inr (None, s)
      | Some hdr \<Rightarrow> let rv = align_up (hdr + sizeof_hdr) A; alignpad = (rv + 2 ^ 64 - hdr) mod 2 ^ 64 in
          Inr (Some rv, s\<lparr>hdr_at := (hdr_at s)(rv - sizeof_hdr :=
            \<lparr>mh_alignpad = alignpad mod 2 ^ 32, mh_magic = MAGIC, mh_index = b mod 2 ^ 8, mh_who = who\<rparr>)\<rparr>))"
  proof -
    have "align AND (align - 1) = 0" using req by (simp add: request_ok_def)
    moreover have "(nbytes + A) mod 2 ^ 64 = nbytes + A" using le by simp
    ultimately show ?thesis
      using A(2) unfolding bmk_memalloc_def effective_align_def [symmetric] A_def [symmetric] Let_def up
      by (simp only: b_def [symmetric] rt(1) assertE_True bindE_Inr if_True if_False not_True_eq_False simp_thms)
  qed
  show ?thesis
  proof (cases r)
    case None
    then show ?thesis using rt(2) body by (simp add: block_post_def)
  next
    case (Some a)
    have t: "ma_cells t (insert (a, b) (live_cells live))" "(a, b) \<notin> live_cells live" "hdr_at t = hdr_at s" "bytes t = bytes s"
      using rt(2) Some by (simp_all add: block_post_def)
    have ab: "(a, b) \<in> all_cells t (insert (a, b) (live_cells live))" by (simp add: all_cells_def)
    have Ab: "A \<le> bsize b" using bk(1) by simp
    have "A dvd bsize b" using Ab j(1) by (simp add: A_def bsize_def le_imp_power_dvd)
    then have dv: "A dvd a" using ma_cellsD(6) [OF t(1) ab] dvd_trans by blast
    have top: "a + A + sizeof_hdr \<le> 2 ^ 64" "a + A < 2 ^ 64"
      using cell_top [OF t(1) ab] Ab by (auto simp: BMK_PCPU_PAGE_SIZE_def BMK_PCPU_PAGE_SHIFT_def sizeof_hdr_def)
    note rv = align_up_exact [OF dv A(3) top(1)]
    have pad: "(a + A + 2 ^ 64 - a) mod 2 ^ 64 = A" using wrap_diff [of a "a + A"] top(2) by simp
    have small: "A mod 2 ^ 32 = A" "b mod 2 ^ 8 = b" using A(2) bk(3) by simp_all
    define u where "u = t\<lparr>hdr_at := (hdr_at t)(a + A - sizeof_hdr := \<lparr>mh_alignpad = a + A - a, mh_magic = MAGIC, mh_index = b, mh_who = who\<rparr>)\<rparr>"
    have "live (a + A) = None \<and> ma_wf u (live(a + A \<mapsto> (a, b, who)))"
      using ma_wf_insert [OF wf t(1-3) _ _ bk(3) u_def] A(1) Ab by simp
    moreover have "bmk_memalloc nbytes align who s = Inr (Some (a + A), u)"
      unfolding body Some by (simp only: bindE_Inr prod.case option.case Let_def rv pad small u_def diff_add_inverse)
    moreover have "bytes u = bytes s" using t(4) by (simp add: u_def)
    ultimately show ?thesis using dv bk(1) by (auto simp: A_def [symmetric] b_def [symmetric])
  qed
qed

lemma live_cells_del:
  assumes "ma_wf s live" "live p = Some (a, b, w)"
  shows "live_cells (live(p := None)) = live_cells live - {(a, b)}"
proof (rule set_eqI)
  fix x :: "nat \<times> nat"
  obtain c d where x: "x = (c, d)" by (cases x)
  have "(\<exists>q v. (live(p := None)) q = Some (c, d, v)) \<longleftrightarrow> (\<exists>q v. live q = Some (c, d, v)) \<and> \<not> (c = a \<and> d = b)"
  proof
    assume "\<exists>q v. (live(p := None)) q = Some (c, d, v)"
    then obtain q v where q: "q \<noteq> p" "live q = Some (c, d, v)" by (auto split: if_splits)
    moreover have "\<not> (c = a \<and> d = b)" using q ma_wfD(3) [OF assms(1), of q a b v p w] assms(2) by auto
    ultimately show "(\<exists>q v. live q = Some (c, d, v)) \<and> \<not> (c = a \<and> d = b)" by blast
  next
    assume "(\<exists>q v. live q = Some (c, d, v)) \<and> \<not> (c = a \<and> d = b)"
    then obtain q v where "live q = Some (c, d, v)" "\<not> (c = a \<and> d = b)" by blast
    then show "\<exists>q v. (live(p := None)) q = Some (c, d, v)"
      using assms(2) by (intro exI [of _ q] exI [of _ v]) auto
  qed
  then show "x \<in> live_cells (live(p := None)) \<longleftrightarrow> x \<in> live_cells live - {(a, b)}"
    by (simp add: x live_cells_def del: fun_upd_apply)
qed

lemma ma_wf_delete:
  assumes wf: "ma_wf s live" and p: "live p = Some (a, b, w)"
    and t: "ma_cells t (live_cells live - {(a, b)})" "hdr_at t = hdr_at s"
  shows "ma_wf t (live(p := None))"
proof -
  have "ma_cells t (live_cells (live(p := None)))" using t(1) live_cells_del [OF wf p] by simp
  then show ?thesis
    using ma_wfD(2) [OF wf] ma_wfD(3) [OF wf] t(2) unfolding ma_wf_def fun_upd_apply by (simp split: if_splits) metis
qed

lemma free_small:
  assumes s: "ma_cells s L" and ab: "(a, b) \<in> L" "b < LOCALBUCKETS"
    and t: "t = s\<lparr>freebuckets := (freebuckets s)[b := a # freebuckets s ! b], nmalloc := nm\<rparr>" "length nm = LOCALBUCKETS"
  shows "ma_cells t (L - {(a, b)})"
proof -
  have notin: "\<not> on_bucket s b a" using ma_cellsD(5) [OF s ab(1)] .
  have on: "on_bucket t j x \<longleftrightarrow> on_bucket s j x \<or> (x, j) = (a, b)" for j x
    using on_bucket_update [of s t b "a # freebuckets s ! b" j x] ma_cellsD(2) [OF s] ab(2)
    by (auto simp: t on_bucket_def)
  have cells: "all_cells t (L - {(a, b)}) = all_cells s L \<union> {}"
    unfolding all_cells_def on using ab(1) by auto
  show ?thesis
  proof (rule ma_cells_grow [OF s _ _ _ _ _ cells])
    show "distinct (freebuckets t ! j)" if "j < LOCALBUCKETS" for j
      using distinct_update [OF s _ _ that, of t b] ma_cellsD(4) [OF s ab(2)] notin ab(2)
      by (simp add: t on_bucket_def)
    show "\<not> on_bucket t j x" if "(x, j) \<in> L - {(a, b)}" for x j
      using that ma_cellsD(5) [OF s, of x j] by (auto simp: on)
  qed (use ma_cellsD(1,2) [OF s] t in auto)
qed

lemma free_large:
  assumes s: "ma_cells s L" and ab: "(a, b) \<in> L" "LOCALBUCKETS \<le> b"
  obtains pg where "bmk_pgfree a (int (b + MINSHIFT) - int BMK_PCPU_PAGE_SHIFT) (pgs s) = Inr pg"
    "ma_cells (s\<lparr>pgs := pg\<rparr>) (L - {(a, b)})"
proof -
  define k where "k = b - LOCALBUCKETS"
  have k: "int (b + MINSHIFT) - int BMK_PCPU_PAGE_SHIFT = int k"
    using ab(2) by (auto simp: k_def LOCALBUCKETS_def MINSHIFT_def BMK_PCPU_PAGE_SHIFT_def)
  have inn: "(a, b) \<in> all_cells s L" using ab(1) by (simp add: all_cells_def)
  note c = ma_cellsD(6,7) [OF s inn, unfolded cell_blk [OF ab(2)] bsize_order [OF ab(2)], folded k_def]
  obtain pg where pg: "bmk_pgfree a (int k) (pgs s) = Inr pg" "pg_wf pg"
    "free_bytes pg = free_bytes (pgs s) \<union> blk a k" "managed pg = managed (pgs s)"
    using pages.release_law [OF ma_cellsD(1) [OF s] c(1)] c(2) by (auto simp: taken_def)
  have tk: "taken pg = taken (pgs s) - cell a b"
    using pg(3,4) cell_blk [OF ab(2)] by (auto simp: taken_def k_def)
  define t where "t = s\<lparr>pgs := pg\<rparr>"
  have on: "on_bucket t = on_bucket s" by (simp add: on_bucket_def t_def fun_eq_iff)
  have cells: "(x, j) \<in> all_cells t (L - {(a, b)}) \<Longrightarrow> (x, j) \<in> all_cells s L \<and> (x, j) \<noteq> (a, b)" for x j
    using ma_cellsD(5) [OF s ab(1)] by (auto simp: all_cells_def on)
  have "ma_cells t (L - {(a, b)})"
  proof (rule ma_cellsI)
    fix x j assume xj: "(x, j) \<in> all_cells t (L - {(a, b)})"
    show "bsize j dvd x" using cells [OF xj] ma_cellsD(6) [OF s] by blast
    show "cell x j \<subseteq> taken (pgs t)"
      using cells [OF xj] ma_cellsD(7) [OF s] ma_cellsD(8) [OF s _ inn, of x j] tk by (auto simp: t_def)
  next
    show "cell x j \<inter> cell x' j' = {}"
      if "(x, j) \<in> all_cells t (L - {(a, b)})" "(x', j') \<in> all_cells t (L - {(a, b)})" "(x, j) \<noteq> (x', j')" for x j x' j'
      using cells [OF that(1)] cells [OF that(2)] ma_cellsD(8) [OF s _ _ that(3)] by blast
  qed (use pg(2) ma_cellsD(2-5) [OF s] on in \<open>auto simp: t_def\<close>)
  then show thesis using that pg(1) k by (simp add: t_def)
qed

lemma bmk_memfree_ok:
  assumes wf: "ma_wf s live" and p: "live p = Some (a, b, w)"
  shows "\<exists>t. bmk_memfree (Some p) w s = Inr t \<and> ma_wf t (live(p := None)) \<and> bytes t = bytes s"
proof -
  note s = ma_wfD(1) [OF wf] and h = ma_wfD(2) [OF wf p]
  have ab: "(a, b) \<in> live_cells live" using p by (auto simp: live_cells_def)
  have "(a, b) \<in> all_cells s (live_cells live)" using ab by (simp add: all_cells_def)
  then have "p < 2 ^ 64" using cell_top [OF s] h PAGE_SIZE_pos by (metis add_leD1 le_less_trans less_le_trans less_add_same_cancel1)
  then have orig: "(p + 2 ^ 64 - (p - a)) mod 2 ^ 64 = a" using wrap_diff [of "p - a" p "2 ^ 64"] h by simp
  show ?thesis
  proof (cases "LOCALBUCKETS \<le> b")
    case True
    obtain pg where "bmk_pgfree a (int (b + MINSHIFT) - int BMK_PCPU_PAGE_SHIFT) (pgs s) = Inr pg"
      "ma_cells (s\<lparr>pgs := pg\<rparr>) (live_cells live - {(a, b)})"
      by (rule free_large [OF s ab True])
    then show ?thesis using True h orig ma_wf_delete [OF wf p, of "s\<lparr>pgs := pg\<rparr>"]
      by (simp add: bmk_memfree_def Let_def)
  next
    case False
    define t where "t = s\<lparr>freebuckets := (freebuckets s)[b := a # freebuckets s ! b],
      nmalloc := (nmalloc s)[b := (nmalloc s ! b + 2 ^ 32 - 1) mod 2 ^ 32]\<rparr>"
    have "ma_cells t (live_cells live - {(a, b)})"
      using free_small [OF s ab _ t_def] False ma_cellsD(3) [OF s] by simp
    then show ?thesis using False h orig ma_wf_delete [OF wf p, of t]
      by (simp add: bmk_memfree_def Let_def t_def)
  qed
qed

end
