(* ===== verification/Memalloc_Correct.thy ===== *)
theory Memalloc_Correct
  imports Memalloc
begin

text \<open>
  Correctness of the byte allocator: the states that clients can reach, isolation of live
  pointers, reallocation, zeroed allocation, and the arithmetic of the bucket choice.
\<close>

section \<open>Clients\<close>

text \<open>
  Calls of the byte allocator, with the map of live pointers that they imply; in between, clients
  write into the bytes they own.
\<close>

definition usable :: "nat \<Rightarrow> nat \<times> nat \<times> bmk_memwho \<Rightarrow> nat set" where
  "usable p = (\<lambda>(a, b, w). {p..<a + bsize b})"

inductive ma_step :: "mstate \<times> live_map \<Rightarrow> mstate \<times> live_map \<Rightarrow> bool" where
  ma_alloc: "request_ok nbytes align \<Longrightarrow> bmk_memalloc nbytes align who s = Inr (Some p, t) \<Longrightarrow>
     ma_step (s, live) (t, live(p \<mapsto>
       (p - effective_align align, memalloc_bucket (nbytes + effective_align align), who)))"
| ma_fail: "request_ok nbytes align \<Longrightarrow> bmk_memalloc nbytes align who s = Inr (None, t) \<Longrightarrow>
     ma_step (s, live) (t, live)"
| ma_free: "live p = Some (a, b, who) \<Longrightarrow> bmk_memfree (Some p) who s = Inr t \<Longrightarrow>
     ma_step (s, live) (t, live(p := None))"
| ma_write: "live p = Some c \<Longrightarrow> x \<in> usable p c \<Longrightarrow> ma_step (s, live) (s\<lparr>bytes := (bytes s)(x := v)\<rparr>, live)"

inductive ma_reach :: "mstate \<times> live_map \<Rightarrow> bool" where
  ma_boot: "pg_wf (pgs s) \<Longrightarrow> length (nmalloc s) = LOCALBUCKETS \<Longrightarrow> ma_reach (bmk_memalloc_init s, Map.empty)"
| ma_next: "ma_reach c \<Longrightarrow> ma_step c d \<Longrightarrow> ma_reach d"

lemma ma_wf_bytes [simp]: "ma_wf (s\<lparr>bytes := m\<rparr>) live = ma_wf s live"
  by (simp add: ma_wf_def ma_cells_def all_cells_def on_bucket_def)

lemma ma_wf_init:
  assumes "pg_wf (pgs s)" "length (nmalloc s) = LOCALBUCKETS"
  shows "ma_wf (bmk_memalloc_init s) Map.empty"
  using assms by (auto simp: ma_wf_def ma_cells_def all_cells_def on_bucket_def live_cells_def bmk_memalloc_init_def)

lemma ma_wf_step:
  assumes inv: "ma_wf (fst c) (snd c)" and step: "ma_step c d"
  shows "ma_wf (fst d) (snd d)"
  using step
proof cases
  case (ma_alloc nbytes align who s p t live)
  have "ma_wf s live" using inv ma_alloc(1) by simp
  from bmk_memalloc_ok [OF this ma_alloc(3), of who] ma_alloc(4)
  obtain a b where "ma_wf t (live(p \<mapsto> (a, b, who)))" "b = memalloc_bucket (nbytes + effective_align align)"
    "p = a + effective_align align" by auto
  then show ?thesis using ma_alloc(2) by simp
next
  case (ma_fail nbytes align who s t live)
  have "ma_wf s live" using inv ma_fail(1) by simp
  from bmk_memalloc_ok [OF this ma_fail(3), of who] ma_fail(2,4) this show ?thesis by auto
next
  case (ma_free live p a b who s t)
  then show ?thesis using inv bmk_memfree_ok [of s live p a b who] by auto
next
  case (ma_write live p c x s v)
  then show ?thesis using inv by simp
qed

lemma ma_reach_wf: "ma_reach c \<Longrightarrow> ma_wf (fst c) (snd c)"
  by (induction rule: ma_reach.induct) (auto simp: ma_wf_init intro: ma_wf_step)

lemma usable_in_cell: "ma_wf s live \<Longrightarrow> live p = Some (a, b, w) \<Longrightarrow> usable p (a, b, w) \<subseteq> cell a b"
  using ma_wfD(2) [of s live p a b w] by (auto simp: usable_def cell_def)

lemma usable_disjoint:
  assumes "ma_wf s live" "live p = Some c" "live q = Some d" "p \<noteq> q"
  shows "usable p c \<inter> usable q d = {}"
proof -
  obtain a b w a' b' w' where "c = (a, b, w)" "d = (a', b', w')" by (cases c, cases d) auto
  then show ?thesis
    using live_disjoint [OF assms(1), of p a b w q a' b' w'] usable_in_cell [OF assms(1), of p a b w]
      usable_in_cell [OF assms(1), of q a' b' w'] assms(2-4) by blast
qed

section \<open>Reallocation\<close>

definition realloc_post :: "mstate \<Rightarrow> live_map \<Rightarrow> nat \<Rightarrow> nat \<times> nat \<times> bmk_memwho \<Rightarrow> nat \<Rightarrow> nat option \<Rightarrow> mstate \<Rightarrow> bool" where
  "realloc_post s live p c nbytes r t \<longleftrightarrow> (case r of
     None \<Rightarrow> t = s
   | Some q \<Rightarrow>
       if q = p then t = s \<and> nbytes \<le> card (usable p c)
       else \<exists>c'. live q = None \<and> ma_wf t (live(p := None, q \<mapsto> c')) \<and> {q..<q + nbytes} \<subseteq> usable q c' \<and>
         (\<forall>i < card (usable p c). bytes t (q + i) = bytes s (p + i)))"

lemma bmk_memrealloc_user_ok:
  assumes wf: "ma_wf s live" and p: "live p = Some (a, b, BMK_MEMWHO_USER)" and b: "b + MINSHIFT < 31"
    and n: "0 < nbytes" and req: "request_ok nbytes 8"
  shows "\<exists>r t. bmk_memrealloc_user (Some p) nbytes s = Inr (r, t) \<and>
    realloc_post s live p (a, b, BMK_MEMWHO_USER) nbytes r t"
proof -
  note h = ma_wfD(2) [OF wf p]
  define room where "room = a + bsize b - p"
  have "(bsize b + 2 ^ 64 - (p - a)) mod 2 ^ 64 = bsize b - (p - a)"
  proof (rule wrap_diff)
    have "bsize b < 2 ^ 31" using b unfolding bsize_def by (intro power_strict_increasing) simp_all
    then show "bsize b < 2 ^ 64" by simp
  qed (use h in linarith)
  also have "\<dots> = room" using h by (simp add: room_def MINALIGN_def)
  finally have rm: "(2 ^ (b + MINSHIFT) + 2 ^ 64 - (p - a)) mod 2 ^ 64 = room" by (simp add: bsize_def)
  have body: "bmk_memrealloc_user (Some p) nbytes s =
     (if room \<ge> nbytes then Inr (Some p, s)
      else bindE (bmk_memalloc nbytes 8 BMK_MEMWHO_USER s) (\<lambda>(np, s).
           case np of None \<Rightarrow> Inr (None, s)
           | Some q \<Rightarrow> bindE (bmk_memfree (Some p) BMK_MEMWHO_USER (memcpy_bytes q p room s)) (\<lambda>s. Inr (Some q, s))))"
    using h b n rm unfolding bmk_memrealloc_user_def by (simp add: Let_def)
  have card: "card (usable p (a, b, w)) = room" for w by (simp add: usable_def room_def)
  obtain r t where rt: "bmk_memalloc nbytes 8 BMK_MEMWHO_USER s = Inr (r, t)"
    "r = None \<Longrightarrow> t = s" "\<And>q. r = Some q \<Longrightarrow> \<exists>a' b'. live q = None \<and> ma_wf t (live(q \<mapsto> (a', b', BMK_MEMWHO_USER))) \<and>
       q + nbytes \<le> a' + bsize b' \<and> bytes t = bytes s"
    using bmk_memalloc_ok [OF wf req, of BMK_MEMWHO_USER] by (fastforce split: option.splits)
  consider "nbytes \<le> room" | "\<not> nbytes \<le> room" "r = None" | q where "\<not> nbytes \<le> room" "r = Some q" by (cases r) auto
  then show ?thesis
  proof cases
    case 1
    then show ?thesis by (simp add: body realloc_post_def card)
  next
    case 2
    then show ?thesis using rt(1,2) by (simp add: body realloc_post_def)
  next
    case (3 q)
    obtain a' b' where q: "live q = None" "ma_wf t (live(q \<mapsto> (a', b', BMK_MEMWHO_USER)))"
      "q + nbytes \<le> a' + bsize b'" "bytes t = bytes s" using rt(3) [OF 3(2)] by blast
    let ?m = "memcpy_bytes q p room t" and ?live = "live(q \<mapsto> (a', b', BMK_MEMWHO_USER))"
    have qp: "q \<noteq> p" using q(1) p by auto
    have "ma_wf ?m ?live" "?live p = Some (a, b, BMK_MEMWHO_USER)" using q(2) p qp by (simp_all add: memcpy_bytes_def)
    then obtain u where u: "bmk_memfree (Some p) BMK_MEMWHO_USER ?m = Inr u" "ma_wf u (?live(p := None))" "bytes u = bytes ?m"
      using bmk_memfree_ok by blast
    have "?live(p := None) = live(p := None, q \<mapsto> (a', b', BMK_MEMWHO_USER))" using qp by (auto simp: fun_eq_iff)
    moreover have "{q..<q + nbytes} \<subseteq> usable q (a', b', BMK_MEMWHO_USER)" using q(3) by (auto simp: usable_def)
    moreover have "bytes u (q + i) = bytes s (p + i)" if "i < room" for i
      using that u(3) q(4) by (simp add: memcpy_bytes_def)
    moreover have "bmk_memrealloc_user (Some p) nbytes s = Inr (Some q, u)"
      using 3 rt(1) u(1) by (simp add: body)
    ultimately show ?thesis using qp q(1) u(2) by (auto simp: realloc_post_def card)
  qed
qed

section \<open>A concrete heap\<close>

definition ma_zero :: mstate where
  "ma_zero = \<lparr>freebuckets = [], nmalloc = replicate LOCALBUCKETS 0,
     hdr_at = (\<lambda>_. \<lparr>mh_alignpad = 0, mh_magic = 0, mh_index = 0, mh_who = BMK_MEMWHO_USER\<rparr>),
     bytes = (\<lambda>_. 7), pgs = pg_demo\<rparr>"

definition ma_demo :: mstate where
  "ma_demo = bmk_memalloc_init ma_zero"

lemma ma_demo_wf: "ma_wf ma_demo Map.empty" "ma_reach (ma_demo, Map.empty)" "pgs ma_demo = pg_demo"
  unfolding ma_demo_def
  by (rule ma_wf_init ma_boot; simp add: ma_zero_def pg_demo_state)+ (simp add: bmk_memalloc_init_def ma_zero_def)

lemma demo_requests: "request_ok 100 64" "request_ok 5000 8" "request_ok 24 0" "request_ok 40 16"
  by (simp_all add: request_ok_def effective_align_def MINALIGN_def)

lemma ma_demo_alloc:
  obtains p a t where "bmk_memalloc 24 0 BMK_MEMWHO_USER ma_demo = Inr (Some p, t)"
    "ma_wf t [p \<mapsto> (a, 1, BMK_MEMWHO_USER)]"
proof -
  have lev: "0 < FREELIST_LEVELS" by (simp add: FREELIST_LEVELS_def BMK_PCPU_PAGE_SHIFT_def)
  have "order2size 0 dvd 0x2000 \<and> blk 0x2000 0 \<subseteq> free_bytes pg_demo"
    by (simp add: pg_demo_state blk_def order2size_def BMK_PCPU_PAGE_SHIFT_def)
  then obtain x pg where pg: "bmk_pgalloc 0 pg_demo = Inr (Some x, pg)"
    using pages.alloc_succeeds [OF pg_demo_state(2) lev, where a = "0x2000"] by auto
  have b: "memalloc_bucket 40 = 1"
    by (simp add: memalloc_bucket_def clzl_def bit_length.simps MINSHIFT_def)
  obtain r t where rt: "bmk_memalloc 24 0 BMK_MEMWHO_USER ma_demo = Inr (r, t)"
    "\<And>p. r = Some p \<Longrightarrow> \<exists>a. ma_wf t [p \<mapsto> (a, memalloc_bucket 40, BMK_MEMWHO_USER)]"
    using bmk_memalloc_ok [OF ma_demo_wf(1) demo_requests(3), of BMK_MEMWHO_USER]
    by (fastforce simp: effective_align_def MINALIGN_def)
  moreover have "r \<noteq> None"
    using rt(1) pg b
    by (auto simp: bmk_memalloc_def ma_demo_def ma_zero_def bmk_memalloc_init_def align_up_def sizeof_hdr_def MINALIGN_def
        Let_def LOCALBUCKETS_def MINSHIFT_def BMK_PCPU_PAGE_SHIFT_def BMK_PCPU_PAGE_SIZE_def bucketalloc_def morecore_def)
  ultimately show thesis using that b by auto
qed

section \<open>Properties\<close>



text \<open>
  Freeing a live pointer with the right owner returns and takes exactly that pointer out of
  the live set, small blocks going back to their bucket and large ones to the page
  allocator. A wrong owner halts the machine, the null pointer is ignored, and so is a pointer whose
  header does not carry the magic.
\<close>

theorem memfree_spec:
  assumes "ma_wf s live" "live p = Some (a, b, w)"
  shows "(\<exists>t. bmk_memfree (Some p) w s = Inr t \<and> ma_wf t (live(p := None)) \<and> bytes t = bytes s) \<and>
    (\<forall>w'. w' \<noteq> w \<longrightarrow> bmk_memfree (Some p) w' s = Inl (Halt ''bmk_memalloc error'')) \<and>
    bmk_memfree None w s = Inr s \<and>
    (\<forall>q w'. mh_magic (hdr_at s (q - sizeof_hdr)) \<noteq> MAGIC \<longrightarrow> bmk_memfree (Some q) w' s = Inr s)"
  using bmk_memfree_ok [OF assms] ma_wfD(2) [OF assms] by (auto simp: bmk_memfree_def)

theorem memfree_spec_witness:
  "\<exists>p t u. bmk_memalloc 24 0 BMK_MEMWHO_USER ma_demo = Inr (Some p, t) \<and>
     bmk_memfree (Some p) BMK_MEMWHO_USER t = Inr u \<and> ma_wf u Map.empty \<and>
     bmk_memfree (Some p) BMK_MEMWHO_RUMPKERN t = Inl (Halt ''bmk_memalloc error'')"
proof -
  obtain p a t where t: "bmk_memalloc 24 0 BMK_MEMWHO_USER ma_demo = Inr (Some p, t)" "ma_wf t [p \<mapsto> (a, 1, BMK_MEMWHO_USER)]"
    by (rule ma_demo_alloc)
  then show ?thesis using memfree_spec [OF t(2), of p a 1 BMK_MEMWHO_USER] by auto
qed



text \<open>
  The bucket that \<^verbatim>\<open>bmk_memalloc\<close> computes with \<^verbatim>\<open>__builtin_clzl\<close> is the smallest one whose
  blocks hold the request: the block is at least as large as the bytes needed, and the next smaller block
  is not.
\<close>

theorem memalloc_bucket_minimal:
  assumes "n \<le> 2 ^ 63"
  shows "n \<le> 2 ^ (memalloc_bucket n + MINSHIFT) \<and> (\<forall>b < memalloc_bucket n. 2 ^ (b + MINSHIFT) < n)"
proof -
  note bk = memalloc_bucket_ok [OF assms, unfolded bsize_def]
  have "2 ^ (b + MINSHIFT) < n" if "b < memalloc_bucket n" for b
  proof -
    have "(2 :: nat) ^ (b + MINSHIFT) \<le> 2 ^ (memalloc_bucket n - 1 + MINSHIFT)" using that by (simp add: power_increasing)
    then show ?thesis using bk(2) that by linarith
  qed
  then show ?thesis using bk(1) by blast
qed

theorem memalloc_bucket_minimal_witness:
  "(4096 :: nat) \<le> 2 ^ (memalloc_bucket 4096 + MINSHIFT) \<and> memalloc_bucket 4096 = 7"
  using memalloc_bucket_minimal [of 4096] by (simp add: memalloc_bucket_def clzl_def bit_length.simps MINSHIFT_def)



text \<open>
  \<^verbatim>\<open>bmk_memcalloc\<close> returns null, changing nothing, when \<open>n * size\<close> exceeds 64 bits; otherwise a
  returned pointer is a fresh live one whose \<open>n * size\<close> bytes fit and are all zero, and no
  other byte has changed.
\<close>

theorem memcalloc_spec:
  assumes "ma_wf s live" "n < 2 ^ 64" "sz < 2 ^ 64" "n * sz < 2 ^ 64 \<Longrightarrow> request_ok (n * sz) MINALIGN"
  shows "\<exists>r t. bmk_memcalloc n sz who s = Inr (r, t) \<and> (2 ^ 64 \<le> n * sz \<longrightarrow> r = None) \<and>
    (case r of
       None \<Rightarrow> t = s
     | Some p \<Rightarrow> \<exists>c. live p = None \<and> ma_wf t (live(p \<mapsto> c)) \<and> {p..<p + n * sz} \<subseteq> usable p c \<and>
         (\<forall>x. bytes t x = (if x \<in> {p..<p + n * sz} then 0 else bytes s x)))"
proof (cases "n * sz < 2 ^ 64")
  case True
  then have tot: "n * sz mod 2 ^ 64 = n * sz" "\<not> (sz \<noteq> 0 \<and> n * sz div sz \<noteq> n)" by simp_all
  obtain r t where rt: "bmk_memalloc (n * sz) MINALIGN who s = Inr (r, t)" "r = None \<Longrightarrow> t = s"
    "\<And>p. r = Some p \<Longrightarrow> \<exists>a b. live p = None \<and> ma_wf t (live(p \<mapsto> (a, b, who))) \<and> p + n * sz \<le> a + bsize b \<and> bytes t = bytes s"
    using bmk_memalloc_ok [OF assms(1) assms(4) [OF True], of who] by (fastforce split: option.splits)
  show ?thesis
  proof (cases r)
    case None
    then show ?thesis using rt True tot by (simp add: bmk_memcalloc_def Let_def)
  next
    case (Some p)
    then obtain a b where p: "live p = None" "ma_wf t (live(p \<mapsto> (a, b, who)))" "p + n * sz \<le> a + bsize b" "bytes t = bytes s"
      using rt(3) by blast
    have run: "bmk_memcalloc n sz who s = Inr (Some p, memset_bytes p 0 (n * sz) t)"
      using Some rt(1) tot unfolding bmk_memcalloc_def Let_def by simp
    have "ma_wf (memset_bytes p 0 (n * sz) t) (live(p \<mapsto> (a, b, who)))" using p(2) by (simp add: memset_bytes_def)
    moreover have "{p..<p + n * sz} \<subseteq> usable p (a, b, who)" using p(3) by (auto simp: usable_def)
    moreover have "bytes (memset_bytes p 0 (n * sz) t) x = (if x \<in> {p..<p + n * sz} then 0 else bytes s x)" for x
      using p(4) by (simp add: memset_bytes_def)
    ultimately show ?thesis using run True p(1) by (intro exI [of _ "Some p"] exI [of _ "memset_bytes p 0 (n * sz) t"]) auto
  qed
next
  case False
  have "(n * sz mod 2 ^ 64) div sz \<noteq> n"
  proof
    assume "(n * sz mod 2 ^ 64) div sz = n"
    then have "n * sz \<le> n * sz mod 2 ^ 64" by (metis div_times_less_eq_dividend)
    then show False using False mod_less_divisor [of "2 ^ 64" "n * sz"] by (meson le_less_trans zero_less_numeral zero_less_power)
  qed
  moreover have "sz \<noteq> 0" using False by (cases sz) auto
  ultimately show ?thesis using False by (simp add: bmk_memcalloc_def Let_def)
qed

theorem memcalloc_spec_witness:
  "\<exists>r t. bmk_memcalloc 5 8 BMK_MEMWHO_USER ma_demo = Inr (r, t) \<and> (\<forall>p. r = Some p \<longrightarrow> bytes t (p + 39) = 0)"
  using memcalloc_spec [OF ma_demo_wf(1), of 5 8 BMK_MEMWHO_USER] demo_requests(4)
  by (fastforce simp: MINALIGN_def)

text \<open>
  C34. The size computation wraps: a request for \<open>2 ^ 64 - 16\<close> bytes is served exactly like a request for
  none, from the bucket of 32-byte blocks, instead of being refused.
\<close>

theorem memalloc_size_wraps: "bmk_memalloc (2 ^ 64 - 16) 0 who s = bmk_memalloc 0 0 who s"
proof -
  have "memalloc_bucket 0 = memalloc_bucket 16" by (simp add: memalloc_bucket_def MINSHIFT_def)
  then show ?thesis by (simp add: bmk_memalloc_def align_up_def sizeof_hdr_def MINALIGN_def)
qed

end
