(* ===== verification/Bmk_String.thy ===== *)
theory Bmk_String
  imports Prelude
begin

text \<open>
  The string and memory routines of \<^verbatim>\<open>lib/libbmk_core/bmk_string.c\<close> and
  \<^verbatim>\<open>bmk_strtoul\<close> of \<^verbatim>\<open>lib/libbmk_core/strtoul.c\<close>, over a byte-addressed memory.
  Pointers are natural numbers; a routine whose loop runs to a terminating byte is
  a \<^theory_text>\<open>partial_function\<close>, so that a missing terminator is the value \<open>None\<close>.
\<close>

section \<open>Memory and C strings\<close>

type_synonym bytes = "nat \<Rightarrow> u8"

primrec bytes_at :: "bytes \<Rightarrow> nat \<Rightarrow> u8 list \<Rightarrow> bool" where
  "bytes_at m p [] = True"
| "bytes_at m p (b # bs) = (m p = b \<and> bytes_at m (p + 1) bs)"

definition cstr :: "bytes \<Rightarrow> nat \<Rightarrow> u8 list \<Rightarrow> bool" where
  "cstr m p s = (bytes_at m p (s @ [0]) \<and> 0 \<notin> set s)"

section \<open>The string routines\<close>

partial_function (option) strlen_loop :: "bytes \<Rightarrow> nat \<Rightarrow> nat \<Rightarrow> nat option" where
  "strlen_loop m str rv = (if m str = 0 then Some rv else strlen_loop m (str + 1) (rv + 1))"

definition bmk_strlen :: "bytes \<Rightarrow> nat \<Rightarrow> nat option" where
  "bmk_strlen m str = strlen_loop m str 0"

text \<open>Both pointers are advanced by a failing comparison as well.\<close>

partial_function (option) strcmp_loop :: "bytes \<Rightarrow> nat \<Rightarrow> nat \<Rightarrow> (nat \<times> nat) option" where
  "strcmp_loop m a b =
     (if m a = 0 then Some (a, b)
      else if m a = m b then strcmp_loop m (a + 1) (b + 1)
      else Some (a + 1, b + 1))"

text \<open>\<^verbatim>\<open>char\<close> is signed on the x86 ports, so the difference is that of signed bytes.\<close>

definition bmk_strcmp :: "bytes \<Rightarrow> nat \<Rightarrow> nat \<Rightarrow> int option" where
  "bmk_strcmp m a b =
     (case strcmp_loop m a b of
        None \<Rightarrow> None
      | Some (a, b) \<Rightarrow>
          (let (a, b) = (if m a \<noteq> 0 then (a - 1, b - 1) else (a, b))
           in Some (sint (m a) - sint (m b))))"

fun bmk_strncmp :: "bytes \<Rightarrow> nat \<Rightarrow> nat \<Rightarrow> nat \<Rightarrow> int" where
  "bmk_strncmp m a b 0 = 0"
| "bmk_strncmp m a b (Suc n) =
     (let u1 = m a; u2 = m b in
      if u1 \<noteq> u2 then uint u1 - uint u2
      else if u1 = 0 then 0
      else bmk_strncmp m (a + 1) (b + 1) n)"

partial_function (option) strcpy_loop :: "bytes \<Rightarrow> nat \<Rightarrow> nat \<Rightarrow> bytes option" where
  "strcpy_loop m d s =
     (let v = m s; m = m(d := v)
      in if v \<noteq> 0 then strcpy_loop m (d + 1) (s + 1) else Some m)"

definition bmk_strcpy :: "bytes \<Rightarrow> nat \<Rightarrow> nat \<Rightarrow> (nat \<times> bytes) option" where
  "bmk_strcpy m d s = map_option (\<lambda>m. (d, m)) (strcpy_loop m d s)"

text \<open>The first loop of \<^verbatim>\<open>bmk_strncpy\<close> returns the memory, \<open>d\<close> and the remaining \<open>n\<close>.\<close>

fun strncpy_copy :: "bytes \<Rightarrow> nat \<Rightarrow> nat \<Rightarrow> nat \<Rightarrow> bytes \<times> nat \<times> nat" where
  "strncpy_copy m d s 0 = (m, d, 0)"
| "strncpy_copy m d s (Suc n) =
     (let v = m s; m = m(d := v)
      in if v \<noteq> 0 then strncpy_copy m (d + 1) (s + 1) n else (m, d + 1, Suc n))"

fun strncpy_pad :: "bytes \<Rightarrow> nat \<Rightarrow> nat \<Rightarrow> bytes" where
  "strncpy_pad m d 0 = m"
| "strncpy_pad m d (Suc n) = strncpy_pad (m(d := 0)) (d + 1) n"

definition bmk_strncpy :: "bytes \<Rightarrow> nat \<Rightarrow> nat \<Rightarrow> nat \<Rightarrow> nat \<times> bytes" where
  "bmk_strncpy m d s n =
     (let (m, d', n) = strncpy_copy m d s n in (d, strncpy_pad m d' n))"

section \<open>The memory routines\<close>

fun memset_loop :: "bytes \<Rightarrow> nat \<Rightarrow> u8 \<Rightarrow> nat \<Rightarrow> bytes" where
  "memset_loop m v c 0 = m"
| "memset_loop m v c (Suc n) = memset_loop (m(v := c)) (v + 1) c n"

definition bmk_memset :: "bytes \<Rightarrow> nat \<Rightarrow> int \<Rightarrow> nat \<Rightarrow> nat \<times> bytes" where
  "bmk_memset m b c n = (b, memset_loop m b (word_of_int c) n)"

text \<open>\<^verbatim>\<open>rep movsb\<close> and \<^verbatim>\<open>rep movsq\<close>: \<open>units\<close> steps of one byte and of eight bytes.\<close>

fun movsb :: "bytes \<Rightarrow> nat \<Rightarrow> nat \<Rightarrow> nat \<Rightarrow> bytes \<times> nat \<times> nat" where
  "movsb m dp sp 0 = (m, dp, sp)"
| "movsb m dp sp (Suc units) = movsb (m(dp := m sp)) (dp + 1) (sp + 1) units"

definition store8 :: "bytes \<Rightarrow> nat \<Rightarrow> nat \<Rightarrow> bytes" where
  "store8 m dp sp = (\<lambda>x. if dp \<le> x \<and> x < dp + 8 then m (sp + (x - dp)) else m x)"

fun movsq :: "bytes \<Rightarrow> nat \<Rightarrow> nat \<Rightarrow> nat \<Rightarrow> bytes \<times> nat \<times> nat" where
  "movsq m dp sp 0 = (m, dp, sp)"
| "movsq m dp sp (Suc units) = movsq (store8 m dp sp) (dp + 8) (sp + 8) units"

function mempcpy_align :: "bytes \<Rightarrow> nat \<Rightarrow> nat \<Rightarrow> nat \<Rightarrow> bytes \<times> nat \<times> nat \<times> nat" where
  "mempcpy_align m dp sp n =
     (if dp mod 8 \<noteq> 0 then mempcpy_align (m(dp := m sp)) (dp + 1) (sp + 1) (n - 1)
      else (m, dp, sp, n))"
  by auto
termination
  by (relation "measure (\<lambda>(m, dp, sp, n). 8 - (dp + 7) mod 8)") (auto, presburger)

declare mempcpy_align.simps [simp del]

definition bmk_mempcpy :: "bytes \<Rightarrow> nat \<Rightarrow> nat \<Rightarrow> nat \<Rightarrow> nat \<times> bytes" where
  "bmk_mempcpy m d src n =
     (let (m, dp, sp, units) =
        (if 48 \<le> n then
           let (m, dp, sp, n) = mempcpy_align m d src n;
               (m, dp, sp) = movsq m dp sp (n div 8)
           in (m, dp, sp, n mod 8)
         else (m, d, src, n));
        (m, dp, sp) = movsb m dp sp units
      in (dp, m))"

text \<open>\<open>None\<close> is the null pointer.\<close>

fun memchr_loop :: "bytes \<Rightarrow> nat \<Rightarrow> u8 \<Rightarrow> nat \<Rightarrow> nat option" where
  "memchr_loop m p c 0 = None"
| "memchr_loop m p c (Suc n) = (if m p = c then Some p else memchr_loop m (p + 1) c n)"

definition bmk_memchr :: "bytes \<Rightarrow> nat \<Rightarrow> int \<Rightarrow> nat \<Rightarrow> nat option" where
  "bmk_memchr m d c n = memchr_loop m d (word_of_int c) n"

fun memrchr_loop :: "bytes \<Rightarrow> nat \<Rightarrow> u8 \<Rightarrow> nat \<Rightarrow> nat option" where
  "memrchr_loop m p c 0 = None"
| "memrchr_loop m p c (Suc n) = (if m p = c then Some p else memrchr_loop m (p - 1) c n)"

definition bmk_memrchr :: "bytes \<Rightarrow> nat \<Rightarrow> int \<Rightarrow> nat \<Rightarrow> nat option" where
  "bmk_memrchr m d c n = memrchr_loop m d (word_of_int c) n"

section \<open>bmk_strtoul\<close>

definition is_space :: "u8 \<Rightarrow> bool" where
  "is_space c = (c = chr8 CHR '' '' \<or> (9 \<le> c \<and> c \<le> 13))"

text \<open>The \<^verbatim>\<open>do ... while\<close> loop: returns \<open>s\<close> and the first byte that is not white space.\<close>

partial_function (option) strtoul_skip :: "bytes \<Rightarrow> nat \<Rightarrow> (nat \<times> u8) option" where
  "strtoul_skip m s =
     (let c = m s; s = s + 1 in if is_space c then strtoul_skip m s else Some (s, c))"

definition strtoul_sign :: "bytes \<Rightarrow> nat \<Rightarrow> u8 \<Rightarrow> nat \<times> u8 \<times> bool" where
  "strtoul_sign m s c =
     (if c = chr8 CHR ''-'' then (s + 1, m s, True)
      else if c = chr8 CHR ''+'' then (s + 1, m s, False)
      else (s, c, False))"

definition strtoul_base :: "bytes \<Rightarrow> int \<Rightarrow> nat \<Rightarrow> u8 \<Rightarrow> int \<times> nat \<times> u8" where
  "strtoul_base m base s c =
     (let (base, s, c) =
        (if (base = 0 \<or> base = 16) \<and> c = chr8 CHR ''0'' \<and> (m s = chr8 CHR ''x'' \<or> m s = chr8 CHR ''X'')
         then (16, s + 2, m (s + 1)) else (base, s, c))
      in (if base = 0 then (if c = chr8 CHR ''0'' then 8 else 10) else base, s, c))"

definition strtoul_digit :: "u8 \<Rightarrow> int option" where
  "strtoul_digit c =
     (if chr8 CHR ''0'' \<le> c \<and> c \<le> chr8 CHR ''9'' then Some (uint c - uint (chr8 CHR ''0''))
      else if chr8 CHR ''a'' \<le> c \<and> c \<le> chr8 CHR ''z'' then Some (uint c - uint (chr8 CHR ''a'') + 10)
      else if chr8 CHR ''A'' \<le> c \<and> c \<le> chr8 CHR ''Z'' then Some (uint c - uint (chr8 CHR ''A'') + 10)
      else None)"

text \<open>The conversion loop; the result is \<open>s\<close>, \<open>acc\<close> and \<open>any\<close> where it leaves.\<close>

partial_function (option) strtoul_loop ::
  "bytes \<Rightarrow> int \<Rightarrow> u64 \<Rightarrow> int \<Rightarrow> nat \<Rightarrow> u8 \<Rightarrow> u64 \<Rightarrow> int \<Rightarrow> (nat \<times> u64 \<times> int) option" where
  "strtoul_loop m base cutoff cutlim s c acc any =
     (case strtoul_digit c of
        None \<Rightarrow> Some (s, acc, any)
      | Some i \<Rightarrow>
          if base \<le> i then Some (s, acc, any)
          else if any < 0 then strtoul_loop m base cutoff cutlim (s + 1) (m s) acc any
          else if cutoff < acc \<or> (acc = cutoff \<and> cutlim < i) then Some (s, - 1, 0)
          else strtoul_loop m base cutoff cutlim (s + 1) (m s)
                 (acc * word_of_int base + word_of_int i) 1)"

definition strtoul_cutoff :: "int \<Rightarrow> u64" where
  "strtoul_cutoff base = - 1 div word_of_int base"

definition strtoul_cutlim :: "int \<Rightarrow> int" where
  "strtoul_cutlim base = uint (- 1 mod word_of_int base :: u64)"

text \<open>The result is the value and what is stored through \<^verbatim>\<open>endptr\<close> when it is not null.\<close>

definition bmk_strtoul :: "bytes \<Rightarrow> nat \<Rightarrow> int \<Rightarrow> (u64 \<times> nat) res" where
  "bmk_strtoul m nptr base =
     (if base \<noteq> 0 \<and> (base < 2 \<or> 36 < base) then Inl (Halt ''invalid base to strtoul'')
      else
        bindE (loopE (strtoul_skip m nptr)) (\<lambda>(s, c).
          let (s, c, neg) = strtoul_sign m s c;
              (base, s, c) = strtoul_base m base s c
          in bindE (loopE (strtoul_loop m base (strtoul_cutoff base) (strtoul_cutlim base) s c 0 0))
               (\<lambda>(s, acc, any).
                  let acc = (if neg \<and> 0 < any then - acc else acc)
                  in Inr (acc, if any \<noteq> 0 then s - 1 else nptr))))"

section \<open>Reading memory\<close>

lemma bytes_at_append [simp]:
  "bytes_at m p (xs @ ys) \<longleftrightarrow> bytes_at m p xs \<and> bytes_at m (p + length xs) ys"
  by (induction xs arbitrary: p) (auto simp: add.assoc)

lemma bytes_at_nth: "bytes_at m p bs \<longleftrightarrow> (\<forall>i<length bs. m (p + i) = bs ! i)"
proof (induction bs arbitrary: p)
  case (Cons b bs)
  show ?case unfolding bytes_at.simps Cons.IH
    by (auto simp: less_Suc_eq_0_disj all_conj_distrib)
qed simp

lemma cstr_Nil [simp]: "cstr m p [] \<longleftrightarrow> m p = 0"
  by (auto simp: cstr_def)

lemma cstr_Cons [simp]: "cstr m p (c # s) \<longleftrightarrow> m p = c \<and> c \<noteq> 0 \<and> cstr m (p + 1) s"
  by (auto simp: cstr_def)

lemma cstr_end: "cstr m p s \<Longrightarrow> m (p + length s) = 0"
  by (simp add: cstr_def)

section \<open>Lengths and comparisons\<close>

lemma strlen_loop_cstr: "cstr m p s \<Longrightarrow> strlen_loop m p rv = Some (rv + length s)"
  by (induction s arbitrary: p rv) (auto simp: strlen_loop.simps)

text \<open>
  Where the loop of \<^verbatim>\<open>bmk_strcmp\<close> stops: at the terminator of the first string when that is a
  prefix of the second, and otherwise one past the first position at which they differ.
\<close>

fun first_diff :: "u8 list \<Rightarrow> u8 list \<Rightarrow> nat option" where
  "first_diff [] t = None"
| "first_diff (x # s) [] = Some 0"
| "first_diff (x # s) (y # t) = (if x = y then map_option Suc (first_diff s t) else Some 0)"

lemma strcmp_loop_cstr:
  assumes "cstr m a s" "cstr m b t"
  shows "strcmp_loop m a b =
    (case first_diff s t of None \<Rightarrow> Some (a + length s, b + length s)
     | Some k \<Rightarrow> Some (a + k + 1, b + k + 1))"
  using assms
proof (induction s t arbitrary: a b rule: first_diff.induct)
  case (3 x s y t)
  then show ?case
    by (subst strcmp_loop.simps) (auto split: option.split)
qed (auto simp: strcmp_loop.simps)

lemma first_diff_lt: "first_diff s t = Some k \<Longrightarrow> k < length s \<and> k \<le> length t"
  by (induction s t arbitrary: k rule: first_diff.induct) (auto split: if_splits)

lemma bmk_strncmp_zero:
  "bmk_strncmp m a b n = 0 \<longleftrightarrow>
     (\<forall>i<n. (\<forall>j<i. m (a + j) \<noteq> 0) \<longrightarrow> m (a + i) = m (b + i))"
proof (induction n arbitrary: a b)
  case (Suc n)
  have split: "(\<forall>i<Suc n. P i) \<longleftrightarrow> P 0 \<and> (\<forall>i<n. P (Suc i))" for P
    by (auto simp: less_Suc_eq_0_disj)
  have split2: "(\<forall>j<Suc i. P j) \<longleftrightarrow> P 0 \<and> (\<forall>j<i. P (Suc j))" for P i
    by (auto simp: less_Suc_eq_0_disj)
  show ?case unfolding split split2
    by (auto simp: Let_def Suc.IH uint_0_iff simp flip: word_uint_eq_iff)
qed simp

lemma bmk_strncmp_sign:
  assumes "i < n" "\<And>j. j < i \<Longrightarrow> m (a + j) = m (b + j) \<and> m (b + j) \<noteq> 0" "m (a + i) \<noteq> m (b + i)"
  shows "bmk_strncmp m a b n = uint (m (a + i)) - uint (m (b + i))"
  using assms
proof (induction n arbitrary: a b i)
  case (Suc n)
  show ?case
  proof (cases i)
    case 0
    then show ?thesis using Suc.prems by simp
  next
    case (Suc i')
    have "m (a + 1 + j) = m (b + 1 + j) \<and> m (b + 1 + j) \<noteq> 0" if "j < i'" for j
      using Suc.prems(2) [of "Suc j"] that Suc by auto
    moreover have "m a = m b" "m b \<noteq> 0" using Suc.prems(2) [of 0] Suc by auto
    ultimately show ?thesis
      using Suc.IH [of i' "a + 1" "b + 1"] Suc.prems Suc by simp
  qed
qed simp

section \<open>Copies\<close>

definition copied :: "bytes \<Rightarrow> nat \<Rightarrow> nat \<Rightarrow> nat \<Rightarrow> bytes" where
  "copied m d s n = (\<lambda>x. if d \<le> x \<and> x < d + n then m (s + (x - d)) else m x)"

definition forward_ok :: "nat \<Rightarrow> nat \<Rightarrow> nat \<Rightarrow> bool" where
  "forward_ok d s n = (d \<le> s \<or> s + n \<le> d)"

lemma copied_0 [simp]: "copied m d s 0 = m"
  by (auto simp: copied_def fun_eq_iff)

lemma copied_1: "copied m d s 1 = m(d := m s)"
proof
  fix x show "copied m d s 1 x = (m(d := m s)) x"
    by (cases "x = d") (auto simp: copied_def)
qed

lemma copied_8: "copied m d s 8 = store8 m d s"
  by (simp add: copied_def store8_def)

lemma copied_copied:
  assumes "forward_ok d s (i + j)"
  shows "copied (copied m d s i) (d + i) (s + i) j = copied m d s (i + j)"
proof
  fix x
  show "copied (copied m d s i) (d + i) (s + i) j x = copied m d s (i + j) x"
    using assms by (auto simp: copied_def forward_ok_def)
qed

lemma forward_ok_tail: "forward_ok d s (i + j) \<Longrightarrow> forward_ok (d + i) (s + i) j"
  by (auto simp: forward_ok_def)

lemma movsb_copied:
  "forward_ok d s n \<Longrightarrow> movsb m d s n = (copied m d s n, d + n, s + n)"
proof (induction n arbitrary: m d s)
  case (Suc n)
  have "forward_ok d s (1 + n)" using Suc.prems by simp
  from copied_copied [OF this, of m] Suc.IH [OF forward_ok_tail [OF this]]
  show ?case by (simp flip: copied_1)
qed simp

lemma movsq_copied:
  "forward_ok d s (8 * n) \<Longrightarrow> movsq m d s n = (copied m d s (8 * n), d + 8 * n, s + 8 * n)"
proof (induction n arbitrary: m d s)
  case (Suc n)
  have "forward_ok d s (8 + 8 * n)" using Suc.prems by simp
  from copied_copied [OF this, of m] Suc.IH [OF forward_ok_tail [OF this]]
  show ?case by (simp flip: copied_8 add: algebra_simps)
qed simp

lemma mempcpy_align_copied:
  assumes "forward_ok d s n" "8 \<le> n + (d + 7) mod 8"
  shows "\<exists>k\<le>n. mempcpy_align m d s n = (copied m d s k, d + k, s + k, n - k) \<and> (d + k) mod 8 = 0"
  using assms
proof (induction "7 - (d + 7) mod 8" arbitrary: m d s n rule: less_induct)
  case less
  show ?case
  proof (cases "d mod 8 = 0")
    case True
    then show ?thesis
      by (intro exI [of _ 0]) (simp add: mempcpy_align.simps)
  next
    case False
    have step: "(d + 1 + 7) mod 8 = Suc ((d + 7) mod 8)" using False by presburger
    have "(d + 7) mod 8 < 8" by simp
    then have "n \<noteq> 0" using less.prems(2) by linarith
    then obtain n' where n: "n = 1 + n'" by (cases n) auto
    have fwd: "forward_ok d s (1 + n')" using less.prems(1) n by simp
    have "(d + 1 + 7) mod 8 < 8" by simp
    then have lt: "7 - (d + 1 + 7) mod 8 < 7 - (d + 7) mod 8" using step by linarith
    have ge: "8 \<le> n' + (d + 1 + 7) mod 8" using step less.prems(2) n by linarith
    obtain k where k: "k \<le> n'"
      "mempcpy_align (m(d := m s)) (d + 1) (s + 1) n' =
        (copied (m(d := m s)) (d + 1) (s + 1) k, d + 1 + k, s + 1 + k, n' - k)"
      "(d + 1 + k) mod 8 = 0"
      using less.hyps [OF lt forward_ok_tail [OF fwd] ge, of "m(d := m s)"] by (elim exE conjE) (rule that)
    have "forward_ok d s (1 + k)" using fwd k(1) by (auto simp: forward_ok_def)
    from copied_copied [OF this, of m]
    have "mempcpy_align m d s n = (copied m d s (1 + k), d + (1 + k), s + (1 + k), n - (1 + k))"
      using False k(2) n by (subst mempcpy_align.simps) (simp flip: copied_1 add: add.assoc)
    then show ?thesis using k(1,3) n by (intro exI [of _ "1 + k"]) (simp add: add.assoc)
  qed
qed

lemma strcpy_loop_cstr:
  assumes "cstr m s t" "d + length t < s \<or> s + length t < d"
  shows "strcpy_loop m d s = Some (copied m d s (length t + 1))"
  using assms
proof (induction t arbitrary: m d s)
  case Nil
  then show ?case using copied_1 [of m d s] by (simp add: strcpy_loop.simps fun_upd_def)
next
  case (Cons c t)
  have ok: "forward_ok d s (1 + (length t + 1))" using Cons.prems(2) by (auto simp: forward_ok_def)
  have fresh: "x \<noteq> d" if "s \<le> x" "x \<le> s + length t + 1" for x using that Cons.prems(2) by auto
  have "cstr (m(d := c)) (s + 1) t"
    using Cons.prems(1) fresh by (auto simp: cstr_def bytes_at_nth)
  moreover have "(m(d := c)) = copied m d s 1" using Cons.prems(1) by (simp add: copied_1 [simplified])
  ultimately have "strcpy_loop (m(d := c)) (d + 1) (s + 1) = Some (copied m d s (1 + (length t + 1)))"
    using Cons.IH [of "m(d := c)" "s + 1" "d + 1"] Cons.prems(2) copied_copied [OF ok, of m] by auto
  then show ?case using Cons.prems(1) by (subst strcpy_loop.simps) simp
qed

lemma strncpy_pad_eq: "strncpy_pad m d n = (\<lambda>x. if d \<le> x \<and> x < d + n then 0 else m x)"
  by (induction n arbitrary: m d) (auto simp: fun_eq_iff)

lemma memset_loop_eq: "memset_loop m v c n = (\<lambda>x. if v \<le> x \<and> x < v + n then c else m x)"
  by (induction n arbitrary: m v) (auto simp: fun_eq_iff)

lemma strncpy_copy_cstr:
  assumes "cstr m s t" "d + n \<le> s \<or> s + length t < d"
  shows "strncpy_copy m d s n =
    (if n \<le> length t then (copied m d s n, d + n, 0)
     else (copied m d s (length t + 1), d + length t + 1, n - length t))"
  using assms
proof (induction n arbitrary: m d s t)
  case (Suc n)
  show ?case
  proof (cases t)
    case Nil
    then show ?thesis using Suc.prems copied_1 [of m d s] by simp
  next
    case (Cons c u)
    have ok: "forward_ok d s (1 + n) \<or> n > length u" "forward_ok d s (1 + (length u + 1)) \<or> n \<le> length u"
      using Suc.prems(2) Cons by (auto simp: forward_ok_def)
    have fresh: "x \<noteq> d" if "s \<le> x" "x \<le> s + length u + 1" for x using that Suc.prems(2) Cons by auto
    have c: "m s = c" "c \<noteq> 0" "cstr m (s + 1) u" using Suc.prems(1) Cons by simp_all
    have "cstr (m(d := c)) (s + 1) u"
      using c fresh by (auto simp: cstr_def bytes_at_nth)
    moreover have "(m(d := c)) = copied m d s 1" using c by (simp add: copied_1 [simplified])
    ultimately have "strncpy_copy (copied m d s 1) (d + 1) (s + 1) n =
        (if n \<le> length u then (copied (copied m d s 1) (d + 1) (s + 1) n, d + 1 + n, 0)
         else (copied (copied m d s 1) (d + 1) (s + 1) (length u + 1), d + 1 + length u + 1, n - length u))"
      using Suc.IH [of "m(d := c)" "s + 1" u "d + 1"] Suc.prems(2) Cons by auto
    then show ?thesis
      using c Cons ok copied_copied [of d s 1 n m] copied_copied [of d s 1 "length u + 1" m]
      by (auto simp: Let_def copied_1 [simplified])
  qed
qed simp

section \<open>The digits of bmk_strtoul\<close>

definition digit_of :: "int \<Rightarrow> u8 \<Rightarrow> bool" where
  "digit_of base c = (\<exists>i. strtoul_digit c = Some i \<and> i < base)"

definition digit_val :: "u8 \<Rightarrow> nat" where
  "digit_val c = nat (the (strtoul_digit c))"

definition digits_val :: "nat \<Rightarrow> nat \<Rightarrow> u8 list \<Rightarrow> nat" where
  "digits_val base = foldl (\<lambda>acc c. acc * base + digit_val c)"

lemma digits_val_simps [simp]:
  "digits_val base acc [] = acc"
  "digits_val base acc (c # cs) = digits_val base (acc * base + digit_val c) cs"
  by (simp_all add: digits_val_def)

lemma digits_val_mono: "0 < base \<Longrightarrow> acc \<le> digits_val base acc ds"
proof (induction ds arbitrary: acc)
  case (Cons c ds)
  have "acc \<le> acc * base + digit_val c" using Cons.prems by (simp add: trans_le_add1)
  also have "\<dots> \<le> digits_val base (acc * base + digit_val c) ds" using Cons by blast
  finally show ?case by simp
qed simp

lemma strtoul_digit_range: "strtoul_digit c = Some i \<Longrightarrow> 0 \<le> i \<and> i < 36"
  by (auto simp: strtoul_digit_def word_le_def split: if_splits)

lemma digit_of_val:
  "digit_of base c \<Longrightarrow> strtoul_digit c = Some (int (digit_val c)) \<and> int (digit_val c) < base"
  using strtoul_digit_range by (auto simp: digit_of_def digit_val_def)

lemma not_digit_of:
  "\<not> digit_of base c \<Longrightarrow> (case strtoul_digit c of None \<Rightarrow> x | Some i \<Rightarrow> if base \<le> i then x else f i) = x"
  by (auto simp: digit_of_def split: option.split)

text \<open>The test against \<^verbatim>\<open>cutoff\<close> and \<^verbatim>\<open>cutlim\<close> is exactly the test for overflow.\<close>

lemma strtoul_base_unat:
  assumes "2 \<le> base" "base \<le> 36"
  shows "unat (word_of_int base :: u64) = nat base"
  using assms by (simp add: unat_eq_nat_uint uint_word_of_int)

lemma cutoff_unat:
  assumes "2 \<le> base" "base \<le> 36"
  shows "unat (strtoul_cutoff base) = (2 ^ 64 - 1) div nat base"
  unfolding strtoul_cutoff_def unat_div strtoul_base_unat [OF assms]
  by (simp add: unsigned_minus_1_eq_mask mask_eq_exp_minus_1)

lemma cutlim_int:
  assumes "2 \<le> base" "base \<le> 36"
  shows "strtoul_cutlim base = int ((2 ^ 64 - 1) mod nat base)"
proof -
  have "strtoul_cutlim base = int (unat (- 1 mod word_of_int base :: u64))"
    by (simp add: strtoul_cutlim_def)
  also have "\<dots> = int ((2 ^ 64 - 1) mod nat base)"
    unfolding unat_mod strtoul_base_unat [OF assms]
    by (simp add: unsigned_minus_1_eq_mask mask_eq_exp_minus_1)
  finally show ?thesis .
qed

lemma overflow_test_nat:
  fixes a b i M :: nat
  assumes "i < b"
  shows "(M div b < a \<or> (a = M div b \<and> M mod b < i)) \<longleftrightarrow> M < a * b + i"
proof -
  have M: "M = (M div b) * b + M mod b" by simp
  have r: "M mod b < b" using assms by simp
  consider "a < M div b" | "a = M div b" | "M div b < a" by linarith
  then show ?thesis
  proof cases
    case 1
    then have "(a + 1) * b \<le> (M div b) * b" by (intro mult_right_mono) simp_all
    then have "a * b + i < (M div b) * b" using assms by (simp add: algebra_simps)
    then show ?thesis using 1 M by linarith
  next
    case 2
    then have "M = a * b + M mod b" using M by simp
    then have "M mod b < i \<longleftrightarrow> M < a * b + i" by (metis nat_add_left_cancel_less)
    then show ?thesis using 2 by simp
  next
    case 3
    then have "(M div b + 1) * b \<le> a * b" by (intro mult_right_mono) simp_all
    then have "M div b * b + b \<le> a * b" by (simp only: distrib_right mult_1)
    then have "M < a * b" using M r by linarith
    then show ?thesis using 3 by simp
  qed
qed

lemma overflow_test:
  assumes "2 \<le> base" "base \<le> 36" "digit_of base c"
  shows "strtoul_cutoff base < acc \<or> (acc = strtoul_cutoff base \<and> strtoul_cutlim base < int (digit_val c))
    \<longleftrightarrow> 2 ^ 64 - 1 < unat acc * nat base + digit_val c"
proof -
  have "digit_val c < nat base" using digit_of_val [OF assms(3)] by linarith
  then show ?thesis
    using overflow_test_nat [of "digit_val c" "nat base" "2 ^ 64 - 1" "unat acc"]
    unfolding word_less_nat_alt word_unat_eq_iff cutoff_unat [OF assms(1,2)] cutlim_int [OF assms(1,2)]
      of_nat_less_iff
    by metis
qed

lemma accumulate_unat:
  assumes "2 \<le> base" "base \<le> 36" "\<not> 2 ^ 64 - 1 < unat acc * nat base + digit_val c"
  shows "unat (acc * word_of_int base + word_of_int (int (digit_val c)) :: u64)
    = unat acc * nat base + digit_val c"
proof -
  have "acc * word_of_int base + word_of_int (int (digit_val c)) =
      (of_nat (unat acc * nat base + digit_val c) :: u64)"
    using assms(1) by simp
  moreover have "unat acc * nat base + digit_val c < 2 ^ LENGTH(64)" using assms(3) by simp
  ultimately show ?thesis by (simp only: unat_of_nat mod_less)
qed

lemma strtoul_loop_spec:
  assumes "2 \<le> base" "base \<le> 36" "0 \<le> any"
    and "bytes_at m p (ds @ [e])" "\<forall>d\<in>set ds. digit_of base d" "\<not> digit_of base e"
  shows "\<exists>s. strtoul_loop m base (strtoul_cutoff base) (strtoul_cutlim base) (p + 1) (m p) acc any =
     Some (if digits_val (nat base) (unat acc) ds < 2 ^ 64
       then (p + length ds + 1, of_nat (digits_val (nat base) (unat acc) ds), if ds = [] then any else 1)
       else (s, - 1, 0))"
  using assms(3-6)
proof (induction ds arbitrary: p acc any)
  case Nil
  moreover have "unat acc < 2 ^ 64" using unsigned_less [of acc] by simp
  ultimately show ?case by (subst strtoul_loop.simps) (simp add: not_digit_of)
next
  case (Cons d ds)
  let ?v = "unat acc * nat base + digit_val d"
  have d: "digit_of base d" "m p = d" using Cons.prems by simp_all
  note dv = digit_of_val [OF d(1)]
  show ?case
  proof (cases "2 ^ 64 - 1 < ?v")
    case True
    have "?v \<le> digits_val (nat base) (unat acc) (d # ds)"
      using digits_val_mono [of "nat base" ?v ds] assms(1) by simp
    then have "\<not> digits_val (nat base) (unat acc) (d # ds) < 2 ^ 64" using True by linarith
    moreover have "strtoul_loop m base (strtoul_cutoff base) (strtoul_cutlim base) (p + 1) (m p) acc any
        = Some (p + 1, - 1, 0)"
      using overflow_test [OF assms(1,2) d(1), of acc] True dv Cons.prems(1) d(2)
      by (subst strtoul_loop.simps) simp
    ultimately show ?thesis by auto
  next
    case False
    have "strtoul_loop m base (strtoul_cutoff base) (strtoul_cutlim base) (p + 1) (m p) acc any =
      strtoul_loop m base (strtoul_cutoff base) (strtoul_cutlim base) (p + 1 + 1) (m (p + 1))
        (acc * word_of_int base + word_of_int (int (digit_val d))) 1"
      using overflow_test [OF assms(1,2) d(1), of acc] False dv Cons.prems(1) d(2)
      by (subst strtoul_loop.simps) auto
    then show ?thesis
      using Cons.IH [of 1 "p + 1" "acc * word_of_int base + word_of_int (int (digit_val d))"] Cons.prems
      unfolding accumulate_unat [OF assms(1,2) False] by (auto split: if_splits)
  qed
qed

lemma strtoul_skip_spaces:
  assumes "bytes_at m p (ws @ [c])" "\<forall>w\<in>set ws. is_space w" "\<not> is_space c"
  shows "strtoul_skip m p = Some (p + length ws + 1, c)"
  using assms
proof (induction ws arbitrary: p)
  case Nil
  then show ?case by (subst strtoul_skip.simps) simp
next
  case (Cons w ws)
  then show ?case using Cons.IH [of "p + 1"] by (subst strtoul_skip.simps) simp
qed

lemma digit_not_space: "digit_of base c \<Longrightarrow> \<not> is_space c \<and> c \<noteq> 43 \<and> c \<noteq> 45"
  by (auto simp: digit_of_def strtoul_digit_def is_space_def word_le_def word_uint_eq_iff split: if_splits)

lemma sign_not_space: "\<not> is_space 43" "\<not> is_space 45" "\<not> is_space 48"
  by (simp_all add: is_space_def word_le_def)

lemma x_not_digit: "base \<le> 16 \<Longrightarrow> \<not> digit_of base 120 \<and> \<not> digit_of base 88"
  by (simp add: digit_of_def strtoul_digit_def word_le_def)

definition effective_base :: "int \<Rightarrow> u8 list \<Rightarrow> u8 list \<Rightarrow> int" where
  "effective_base base pre ds =
     (if pre \<noteq> [] then 16 else if base = 0 then (if hd ds = 48 then 8 else 10) else base)"

text \<open>
  The shape of a numeral: white space, a sign, a radix prefix (only where the base admits
  one), at least one digit of the effective base, and a byte \<open>e\<close> that is no such digit.
\<close>

definition numeral_text ::
  "int \<Rightarrow> u8 list \<Rightarrow> u8 list \<Rightarrow> u8 list \<Rightarrow> u8 list \<Rightarrow> u8 \<Rightarrow> bool" where
  "numeral_text base ws sg pre ds e =
     ((base = 0 \<or> (2 \<le> base \<and> base \<le> 36)) \<and>
      list_all is_space ws \<and> sg \<in> {[], [43], [45]} \<and>
      (pre = [] \<or> (base \<in> {0, 16} \<and> pre \<in> {[48, 120], [48, 88]})) \<and>
      ds \<noteq> [] \<and> list_all (digit_of (effective_base base pre ds)) ds \<and>
      \<not> digit_of (effective_base base pre ds) e \<and>
      \<not> (pre = [] \<and> base \<in> {0, 16} \<and> ds = [48] \<and> e \<in> {120, 88}))"

lemma effective_base_range:
  "numeral_text base ws sg pre ds e \<Longrightarrow>
    2 \<le> effective_base base pre ds \<and> effective_base base pre ds \<le> 36"
  by (auto simp: numeral_text_def effective_base_def)

lemma strtoul_sign_eq:
  assumes "numeral_text base ws sg pre ds e" "bytes_at m p (sg @ pre @ ds @ [e])"
  shows "strtoul_sign m (p + 1) (m p) = (p + length sg + 1, m (p + length sg), sg = [45])"
proof -
  obtain d ds' where ds: "ds = d # ds'" using assms(1) by (cases ds) (auto simp: numeral_text_def)
  have "digit_of (effective_base base pre ds) d" using assms(1) ds by (auto simp: numeral_text_def)
  note d = digit_not_space [OF this]
  consider "sg = []" "pre = []" | "sg = []" "\<exists>x. pre = [48, x]" | "sg = [43]" | "sg = [45]"
    using assms(1) by (auto simp: numeral_text_def)
  then show ?thesis using assms(2) d ds by cases (auto simp: strtoul_sign_def)
qed

lemma strtoul_base_eq:
  assumes "numeral_text base ws sg pre ds e" "bytes_at m p (pre @ ds @ [e])"
  shows "strtoul_base m base (p + 1) (m p) =
    (effective_base base pre ds, p + length pre + 1, m (p + length pre))"
proof -
  obtain d ds' where ds: "ds = d # ds'" using assms(1) by (cases ds) (auto simp: numeral_text_def)
  consider (pre) x where "pre = [48, x]" "x \<in> {120, 88}" "base \<in> {0, 16}" | (none) "pre = []"
    using assms(1) by (auto simp: numeral_text_def)
  then show ?thesis
  proof cases
    case pre
    then show ?thesis using assms(2) ds
      by (auto simp: strtoul_base_def effective_base_def numeral_2_eq_2)
  next
    case none
    have "\<not> (d = 48 \<and> (m (p + 1) = 120 \<or> m (p + 1) = 88))" if base: "base \<in> {0, 16}"
    proof
      assume *: "d = 48 \<and> (m (p + 1) = 120 \<or> m (p + 1) = 88)"
      have le: "effective_base base pre ds \<le> 16" using base none by (auto simp: effective_base_def)
      show False
      proof (cases ds')
        case Nil
        then show False using * assms none ds base by (auto simp: numeral_text_def)
      next
        case (Cons d' ds'')
        then have "digit_of (effective_base base pre ds) d'" "m (p + 1) = d'"
          using assms none ds by (auto simp: numeral_text_def)
        then show False using * x_not_digit [OF le] by auto
      qed
    qed
    then show ?thesis using assms(2) ds none
      by (auto simp: strtoul_base_def effective_base_def)
  qed
qed

lemma bmk_strtoul_parses:
  assumes "numeral_text base ws sg pre ds e"
    and "bytes_at m nptr (ws @ sg @ pre @ ds @ [e])"
  shows "bmk_strtoul m nptr base =
    (let v = digits_val (nat (effective_base base pre ds)) 0 ds in
     Inr (if v < 2 ^ 64
          then (if sg = [45] then - of_nat v else of_nat v, nptr + length (ws @ sg @ pre @ ds))
          else (- 1, nptr)))"
proof -
  let ?B = "effective_base base pre ds" and ?p = "nptr + length ws"
  let ?q = "?p + length sg" let ?r = "?q + length pre"
  note B = effective_base_range [OF assms(1)]
  note num = assms(1) [unfolded numeral_text_def]
  obtain d ds' where ds: "ds = d # ds'" using num by (cases ds) auto
  have "digit_of ?B d" using num ds by auto
  note dns = digit_not_space [OF this]
  have at: "bytes_at m ?p (sg @ pre @ ds @ [e])" "bytes_at m ?q (pre @ ds @ [e])"
    "bytes_at m ?r (ds @ [e])" using assms(2) by (auto simp: add.assoc)
  consider "sg = []" "pre = []" | x where "sg = []" "pre = [48, x]" | "sg = [43]" | "sg = [45]"
    using num by auto
  then have "\<not> is_space (m ?p)" using at(1) dns ds by cases (auto simp: sign_not_space)
  moreover have "bytes_at m nptr (ws @ [m ?p])" using assms(2) by simp
  ultimately have skip: "strtoul_skip m nptr = Some (?p + 1, m ?p)"
    using strtoul_skip_spaces [of m nptr ws "m ?p"] num by (auto simp: list_all_iff)
  obtain s where loop: "strtoul_loop m ?B (strtoul_cutoff ?B) (strtoul_cutlim ?B) (?r + 1) (m ?r) 0 0 =
     Some (if digits_val (nat ?B) (unat (0 :: u64)) ds < 2 ^ 64
       then (?r + length ds + 1, of_nat (digits_val (nat ?B) (unat (0 :: u64)) ds), if ds = [] then 0 else 1)
       else (s, - 1, 0))"
    using strtoul_loop_spec [of ?B 0 m ?r ds e 0] B at(3) num by (auto simp: list_all_iff)
  show ?thesis
    using num B loop ds
    unfolding bmk_strtoul_def skip loopE_Some bindE_Inr prod.case Let_def
      strtoul_sign_eq [OF assms(1) at(1)] strtoul_base_eq [OF assms(1) at(2)] loop
    by (auto simp: add.assoc)
qed

section \<open>Properties\<close>

text \<open>
  C40: \<^verbatim>\<open>bmk_mempcpy\<close>, with its alignment loop, its \<^verbatim>\<open>rep movsq\<close> and its \<^verbatim>\<open>rep movsb\<close>, is the
  byte copy: for regions that are disjoint or overlap with the destination below the
  source, every byte of the destination holds the old byte of the source, all other
  memory is unchanged, and the result points behind the destination.
\<close>

theorem bmk_mempcpy_copies:
  assumes "d \<le> src \<or> src + n \<le> d"
  shows "bmk_mempcpy m d src n =
    (d + n, \<lambda>x. if d \<le> x \<and> x < d + n then m (src + (x - d)) else m x)"
proof -
  have ok: "forward_ok d src n" using assms by (simp add: forward_ok_def)
  have "bmk_mempcpy m d src n = (d + n, copied m d src n)"
  proof (cases "48 \<le> n")
    case False
    then show ?thesis using movsb_copied [OF ok, of m] by (simp add: bmk_mempcpy_def)
  next
    case True
    obtain k where k: "k \<le> n" "mempcpy_align m d src n = (copied m d src k, d + k, src + k, n - k)"
      using mempcpy_align_copied [OF ok, of m] True by auto
    define q r where "q = (n - k) div 8" and "r = (n - k) mod 8"
    then have n: "n = k + 8 * q + r" "(n - k) div 8 = q" "(n - k) mod 8 = r" using k(1) by simp_all
    have ok1: "forward_ok d src (k + 8 * q + r)" using ok n(1) by simp
    have ok2: "forward_ok d src (k + 8 * q)" using ok1 by (auto simp: forward_ok_def)
    have ok3: "forward_ok (d + k) (src + k) (8 * q)" by (rule forward_ok_tail [OF ok2])
    have ok4: "forward_ok (d + (k + 8 * q)) (src + (k + 8 * q)) r" by (rule forward_ok_tail [OF ok1])
    have "bmk_mempcpy m d src n = (d + (k + 8 * q + r), copied m d src (k + 8 * q + r))"
      using True k(2) n(2,3) movsq_copied [OF ok3] movsb_copied [OF ok4] copied_copied [OF ok2, of m]
        copied_copied [OF ok1, of m]
      by (simp add: bmk_mempcpy_def Let_def add.assoc)
    then show ?thesis using n(1) by simp
  qed
  then show ?thesis by (simp add: copied_def)
qed

theorem bmk_mempcpy_copies_witness:
  "bmk_mempcpy (\<lambda>x. word_of_nat x) 1003 2000 100 =
    (1103, \<lambda>x. if 1003 \<le> x \<and> x < 1103 then word_of_nat (2000 + (x - 1003)) else word_of_nat x)"
  using bmk_mempcpy_copies [of 1003 2000 100 "\<lambda>x. word_of_nat x"] by simp

text \<open>
  C47: the exact effect of \<^verbatim>\<open>bmk_strncpy\<close>. When the source is shorter than \<open>n\<close> the
  destination receives the string and NUL padding up to and including \<open>d + n\<close>, which is
  \<open>n + 1\<close> bytes and one more than the caller asked for; otherwise exactly \<open>n\<close> bytes are
  written, without a terminator.
\<close>

theorem bmk_strncpy_writes:
  assumes "cstr m s t" "d + n < s \<or> s + length t < d"
  shows "bmk_strncpy m d s n =
    (d, \<lambda>x. if d \<le> x \<and> x < d + (if length t < n then n + 1 else n)
            then (if x - d < length t then t ! (x - d) else 0) else m x)"
proof -
  have t: "m (s + i) = t ! i" if "i < length t" for i
    using assms(1) that by (auto simp: cstr_def bytes_at_nth nth_append)
  have z: "m (s + length t) = 0" by (rule cstr_end [OF assms(1)])
  have copy: "strncpy_copy m d s n =
    (if n \<le> length t then (copied m d s n, d + n, 0)
     else (copied m d s (length t + 1), d + length t + 1, n - length t))"
    using assms by (intro strncpy_copy_cstr) auto
  show ?thesis
  proof (cases "n \<le> length t")
    case True
    then have "copied m d s n x =
      (if d \<le> x \<and> x < d + n then if x - d < length t then t ! (x - d) else 0 else m x)" for x
      using t [of "x - d"] by (auto simp: copied_def)
    then show ?thesis using True by (simp add: bmk_strncpy_def copy fun_eq_iff)
  next
    case False
    have pw: "(if d + length t + 1 \<le> x \<and> x < d + length t + 1 + (n - length t) then 0 else copied m d s (length t + 1) x) =
      (if d \<le> x \<and> x < d + (n + 1) then if x - d < length t then t ! (x - d) else 0 else m x)" for x
    proof -
      consider "x < d" | "d \<le> x" "x < d + length t" | "x = d + length t" | "d + length t < x" by linarith
      then show ?thesis using False t [of "x - d"] z by cases (auto simp: copied_def)
    qed
    have "bmk_strncpy m d s n =
        (d, strncpy_pad (copied m d s (length t + 1)) (d + length t + 1) (n - length t))"
      using False by (simp add: bmk_strncpy_def copy)
    also have "strncpy_pad (copied m d s (length t + 1)) (d + length t + 1) (n - length t) =
        (\<lambda>x. if d \<le> x \<and> x < d + (n + 1) then if x - d < length t then t ! (x - d) else 0 else m x)"
      unfolding strncpy_pad_eq by (rule ext) (rule pw)
    finally show ?thesis using False by simp
  qed
qed

theorem bmk_strncpy_writes_witness:
  "bmk_strncpy ((\<lambda>x. 7)(100 := 65, 101 := 66, 102 := 0)) 10 100 4 =
    (10, \<lambda>x. if 10 \<le> x \<and> x < 15 then (if x - 10 < length [65, 66 :: u8] then [65, 66] ! (x - 10) else 0)
             else ((\<lambda>x. 7)(100 := 65, 101 := 66, 102 := 0)) x)"
  using bmk_strncpy_writes [of "(\<lambda>x. 7)(100 := 65, 101 := 66, 102 := 0)" 100 "[65, 66]" 10 4] by simp

text \<open>
  C46: what \<^verbatim>\<open>bmk_strcmp\<close> returns for two strings. If the first is a prefix of the second the
  result is minus the next byte of the second, which is 0 exactly for equal strings. If
  they first differ before the last character of the first string, the result is the
  difference there. If they first differ at the last character of the first string, the
  result is minus the byte of the second one position further, so that two strings of
  equal length that differ only in their last character compare as equal.
\<close>

theorem bmk_strcmp_exact:
  assumes "cstr m a s" "cstr m b t"
  shows "bmk_strcmp m a b = Some (case first_diff s t of
      None \<Rightarrow> - sint (m (b + length s))
    | Some k \<Rightarrow> if k + 1 < length s then sint (s ! k) - sint (m (b + k))
                else - sint (m (b + k + 1)))"
proof (cases "first_diff s t")
  case None
  then show ?thesis
    using strcmp_loop_cstr [OF assms] cstr_end [OF assms(1)] by (simp add: bmk_strcmp_def)
next
  case (Some k)
  note lt = first_diff_lt [OF Some]
  have at: "m (a + i) = s ! i" "s ! i \<noteq> 0" if "i < length s" for i
    using assms(1) that by (auto simp: cstr_def bytes_at_nth nth_append in_set_conv_nth)
  show ?thesis
  proof (cases "k + 1 < length s")
    case True
    then show ?thesis
      using strcmp_loop_cstr [OF assms] Some at(1) [of k] at [of "k + 1"] by (simp add: bmk_strcmp_def)
  next
    case False
    then have "k + 1 = length s" using lt by simp
    then have "m (a + k + 1) = 0" using cstr_end [OF assms(1)] by (metis add.assoc)
    then show ?thesis
      using strcmp_loop_cstr [OF assms] Some False by (simp add: bmk_strcmp_def)
  qed
qed

theorem bmk_strcmp_exact_witness:
  "let m = (\<lambda>x. [65, 66, 0, 65, 67, 0] ! x) in
   bmk_strcmp m 0 3 = Some 0 \<and> cstr m 0 [65, 66] \<and> cstr m 3 [65, 67]"
  using bmk_strcmp_exact [of "\<lambda>x. [65, 66, 0, 65, 67, 0] ! x" 0 "[65, 66]" 3 "[65, 67]"]
  by simp

end
