(* ===== verification/Printf.thy ===== *)
theory Printf
  imports Bmk_String
begin

text \<open>
  The console and buffer formatter of \<^verbatim>\<open>lib/libbmk_core/subr_prf.c\<close>. The format, the
  string arguments and the output buffer live in one byte-addressed memory, so the
  model makes no assumption about overlap; the variable arguments are the eight-byte
  slots of the amd64 calling convention, of which \<^verbatim>\<open>va_arg(ap, int)\<close> reads the low half.
  The characters handed to \<^verbatim>\<open>v_putc\<close> are recorded in order. Field widths and the
  returned count are mathematical integers.
\<close>

section \<open>State and output\<close>

record kp =
  kp_mem :: bytes
  kp_ap :: "u64 list"
  kp_sbuf :: nat
  kp_dmesg :: "u8 list"
  kp_dmesgoff :: nat
  kp_putc :: "u8 list"
  kp_ret :: int

definition BMK_DMESG_SIZE :: nat where "BMK_DMESG_SIZE = 16 * 1024"
definition KPRINTF_BUFSIZE :: nat where "KPRINTF_BUFSIZE = 8 * 8 div 3 + 2"

definition hexdigits :: "u8 list" where "hexdigits = map of_char ''0123456789abcdef''"
definition HEXDIGITS :: "u8 list" where "HEXDIGITS = map of_char ''0123456789ABCDEF''"

definition cons_putchar :: "u8 \<Rightarrow> kp \<Rightarrow> kp" where
  "cons_putchar c st =
     (let off = kp_dmesgoff st + 1 in
      st\<lparr>kp_dmesg := (kp_dmesg st)[kp_dmesgoff st := c],
         kp_dmesgoff := (if off = BMK_DMESG_SIZE - 1 then 0 else off),
         kp_putc := kp_putc st @ [c]\<rparr>)"

text \<open>
  \<open>TOBUFONLY tailp\<close> carries \<^verbatim>\<open>tailp\<close>, with \<open>None\<close> for a null \<^verbatim>\<open>vp\<close>; a null \<^verbatim>\<open>sbuf\<close> is 0.
\<close>

datatype oflags = TOBUFONLY "nat option" | TOCONS

fun KPRINTF_PUTCHAR :: "oflags \<Rightarrow> u8 \<Rightarrow> kp \<Rightarrow> kp" where
  "KPRINTF_PUTCHAR (TOBUFONLY tailp) c st =
     (if kp_sbuf st \<noteq> 0 \<and> (case tailp of None \<Rightarrow> True | Some t \<Rightarrow> kp_sbuf st < t)
      then st\<lparr>kp_mem := (kp_mem st)(kp_sbuf st := c), kp_sbuf := kp_sbuf st + 1\<rparr>
      else st)"
| "KPRINTF_PUTCHAR TOCONS c st = cons_putchar c st"

text \<open>\<^verbatim>\<open>while (n-- > 0) KPRINTF_PUTCHAR(c)\<close>\<close>

primrec put_rep :: "oflags \<Rightarrow> u8 \<Rightarrow> nat \<Rightarrow> kp \<Rightarrow> kp" where
  "put_rep ofl c 0 st = st"
| "put_rep ofl c (Suc n) st = put_rep ofl c n (KPRINTF_PUTCHAR ofl c st)"

section \<open>Conversion specifications\<close>

record conv =
  cv_flags :: u32
  cv_width :: int
  cv_prec :: int
  cv_sign :: u8

abbreviation "ALT \<equiv> 0x001 :: u32"
abbreviation "HEXPREFIX \<equiv> 0x002 :: u32"
abbreviation "LADJUST \<equiv> 0x004 :: u32"
abbreviation "LONGINT \<equiv> 0x010 :: u32"
abbreviation "QUADINT \<equiv> 0x020 :: u32"
abbreviation "SHORTINT \<equiv> 0x040 :: u32"
abbreviation "MAXINT \<equiv> 0x080 :: u32"
abbreviation "PTRINT \<equiv> 0x100 :: u32"
abbreviation "SIZEINT \<equiv> 0x200 :: u32"
abbreviation "ZEROPAD \<equiv> 0x400 :: u32"

datatype prbase = OCT | DEC | HEX

text \<open>What \<^verbatim>\<open>cp\<close> points to: the local buffer (or a literal), or memory.\<close>

datatype chars = Lit "u8 list" | Ptr nat

fun chars_mem :: "bytes \<Rightarrow> chars \<Rightarrow> bytes" where
  "chars_mem m (Lit l) = (\<lambda>i. if i < length l then l ! i else 0)"
| "chars_mem m (Ptr p) = (\<lambda>i. m (p + i))"

text \<open>
  Where one pass through the \<^verbatim>\<open>switch\<close> leads: back to \<^verbatim>\<open>rflag\<close> or \<^verbatim>\<open>reswitch\<close>, to the
  output of a field (\<^verbatim>\<open>ch\<close>, \<^verbatim>\<open>dprec\<close>, \<^verbatim>\<open>cp\<close>, \<^verbatim>\<open>size\<close>), to the next directive without
  output, or to \<^verbatim>\<open>done\<close>.
\<close>

datatype switch =
  Rflag nat conv kp
| Reswitch nat u8 conv
| Field nat u8 conv int chars nat kp
| NoOutput nat kp
| Done

definition to_digit :: "u8 \<Rightarrow> int" where "to_digit c = uint c - uint (chr8 CHR ''0'')"
definition is_digit :: "u8 \<Rightarrow> bool" where "is_digit c = (0 \<le> to_digit c \<and> to_digit c \<le> 9)"
definition to_char :: "u64 \<Rightarrow> u8" where "to_char n = ucast n + chr8 CHR ''0''"

definition set_flag :: "u32 \<Rightarrow> conv \<Rightarrow> conv" where
  "set_flag f cv = cv\<lparr>cv_flags := cv_flags cv OR f\<rparr>"

definition has_flag :: "u32 \<Rightarrow> u32 \<Rightarrow> bool" where
  "has_flag flags f = (flags AND f \<noteq> 0)"

definition va_arg :: "kp \<Rightarrow> (u64 \<times> kp) res" where
  "va_arg st = (case kp_ap st of
      [] \<Rightarrow> Inl (Undefined ''va_arg'')
    | v # ap \<Rightarrow> Inr (v, st\<lparr>kp_ap := ap\<rparr>))"

definition va_int :: "u64 \<Rightarrow> int" where "va_int v = sint (ucast v :: u32)"

definition SARG :: "u32 \<Rightarrow> u64 \<Rightarrow> u64" where
  "SARG flags v =
     (if has_flag flags MAXINT then v
      else if has_flag flags PTRINT then v
      else if has_flag flags SIZEINT then v
      else if has_flag flags QUADINT then v
      else if has_flag flags LONGINT then v
      else if has_flag flags SHORTINT then word_of_int (sint (ucast v :: u16))
      else word_of_int (va_int v))"

definition UARG :: "u32 \<Rightarrow> u64 \<Rightarrow> u64" where
  "UARG flags v =
     (if has_flag flags MAXINT then v
      else if has_flag flags PTRINT then v
      else if has_flag flags SIZEINT then v
      else if has_flag flags QUADINT then v
      else if has_flag flags LONGINT then v
      else if has_flag flags SHORTINT then word_of_int (va_int v)
      else ucast (ucast v :: u32))"

text \<open>A run of digits; \<open>ch\<close> is the current character and \<open>fmt\<close> points behind it.\<close>

partial_function (option) fmt_digits :: "bytes \<Rightarrow> nat \<Rightarrow> u8 \<Rightarrow> int \<Rightarrow> (nat \<times> u8 \<times> int) option" where
  "fmt_digits m fmt ch n =
     (if is_digit ch then fmt_digits m (fmt + 1) (m fmt) (10 * n + to_digit ch)
      else Some (fmt, ch, n))"

text \<open>The flag, width, precision and size characters; \<open>None\<close> when \<open>ch\<close> is none of them.\<close>

definition kprintf_flag :: "nat \<Rightarrow> u8 \<Rightarrow> conv \<Rightarrow> kp \<Rightarrow> switch res option" where
  "kprintf_flag fmt ch cv st =
     (let m = kp_mem st in
      if ch = chr8 CHR '' '' then
        Some (Inr (Rflag fmt (if cv_sign cv = 0 then cv\<lparr>cv_sign := chr8 CHR '' ''\<rparr> else cv) st))
      else if ch = chr8 CHR ''#'' then Some (Inr (Rflag fmt (set_flag ALT cv) st))
      else if ch = chr8 CHR ''*'' then
        Some (bindE (va_arg st) (\<lambda>(v, st).
          if 0 \<le> va_int v then Inr (Rflag fmt (cv\<lparr>cv_width := va_int v\<rparr>) st)
          else Inr (Rflag fmt (set_flag LADJUST (cv\<lparr>cv_width := - va_int v\<rparr>)) st)))
      else if ch = chr8 CHR ''-'' then Some (Inr (Rflag fmt (set_flag LADJUST cv) st))
      else if ch = chr8 CHR ''+'' then Some (Inr (Rflag fmt (cv\<lparr>cv_sign := chr8 CHR ''+''\<rparr>) st))
      else if ch = chr8 CHR ''.'' then
        (let ch = m fmt; fmt = fmt + 1 in
         if ch = chr8 CHR ''*'' then
           Some (bindE (va_arg st) (\<lambda>(v, st).
             Inr (Rflag fmt (cv\<lparr>cv_prec := (if va_int v < 0 then - 1 else va_int v)\<rparr>) st)))
         else
           Some (bindE (loopE (fmt_digits m fmt ch 0)) (\<lambda>(fmt, ch, n).
             Inr (Reswitch fmt ch (cv\<lparr>cv_prec := (if n < 0 then - 1 else n)\<rparr>)))))
      else if ch = chr8 CHR ''0'' then Some (Inr (Rflag fmt (set_flag ZEROPAD cv) st))
      else if is_digit ch then
        Some (bindE (loopE (fmt_digits m fmt ch 0)) (\<lambda>(fmt, ch, n).
          Inr (Reswitch fmt ch (cv\<lparr>cv_width := n\<rparr>))))
      else if ch = chr8 CHR ''h'' then Some (Inr (Rflag fmt (set_flag SHORTINT cv) st))
      else if ch = chr8 CHR ''j'' then Some (Inr (Rflag fmt (set_flag MAXINT cv) st))
      else if ch = chr8 CHR ''l'' then
        (if m fmt = chr8 CHR ''l'' then Some (Inr (Rflag (fmt + 1) (set_flag QUADINT cv) st))
         else Some (Inr (Rflag fmt (set_flag LONGINT cv) st)))
      else if ch = chr8 CHR ''q'' then Some (Inr (Rflag fmt (set_flag QUADINT cv) st))
      else if ch = chr8 CHR ''t'' then Some (Inr (Rflag fmt (set_flag PTRINT cv) st))
      else if ch = chr8 CHR ''z'' then Some (Inr (Rflag fmt (set_flag SIZEINT cv) st))
      else None)"

section \<open>Numbers\<close>

lemma unat_drop_bit_less:
  assumes "drop_bit k q \<noteq> 0" "0 < k"
  shows "unat (drop_bit k (q :: u64)) < unat q"
proof -
  have "q \<noteq> 0" using assms(1) by auto
  then have "0 < unat q" by (simp add: unat_gt_0)
  moreover have "1 < (2 :: nat) ^ k" using one_less_power [of "2 :: nat", OF _ assms(2)] by simp
  ultimately show ?thesis 
    unfolding unat_drop_bit_eq unfolding drop_bit_eq_div by (simp only: div_less_dividend)
qed

text \<open>\<^verbatim>\<open>*--cp = d\<close> on the local buffer puts \<open>d\<close> in front of what \<^verbatim>\<open>cp\<close> points to.\<close>

function oct_loop :: "u64 \<Rightarrow> u8 list \<Rightarrow> u8 list" where
  "oct_loop q cp =
     (let cp = to_char (q AND 7) # cp; q = drop_bit 3 q
      in if q \<noteq> 0 then oct_loop q cp else cp)"
  by auto
termination
  by (relation "measure (\<lambda>(q, cp). unat q)") (simp_all add: unat_drop_bit_less)

function dec_loop :: "u64 \<Rightarrow> u8 list \<Rightarrow> u8 list" where
  "dec_loop q cp =
     (if 10 \<le> q then dec_loop (q div 10) (to_char (q mod 10) # cp) else to_char q # cp)"
  by auto
termination
  by (relation "measure (\<lambda>(q, cp). unat q)") (auto simp: unat_div word_le_nat_alt)

function hex_loop :: "u8 list \<Rightarrow> u64 \<Rightarrow> u8 list \<Rightarrow> u8 list" where
  "hex_loop xdigs q cp =
     (let cp = xdigs ! unat (q AND 15) # cp; q = drop_bit 4 q
      in if q \<noteq> 0 then hex_loop xdigs q cp else cp)"
  by auto
termination
  by (relation "measure (\<lambda>(xdigs, q, cp). unat q)") (simp_all add: unat_drop_bit_less)

declare oct_loop.simps [simp del] dec_loop.simps [simp del] hex_loop.simps [simp del]

definition number_chars :: "u32 \<Rightarrow> int \<Rightarrow> prbase \<Rightarrow> u8 list \<Rightarrow> u64 \<Rightarrow> u8 list" where
  "number_chars flags prec base xdigs q =
     (if q \<noteq> 0 \<or> prec \<noteq> 0 then
        (case base of
           OCT \<Rightarrow> (let cp = oct_loop q [] in
             if has_flag flags ALT \<and> hd cp \<noteq> chr8 CHR ''0'' then chr8 CHR ''0'' # cp else cp)
         | DEC \<Rightarrow> dec_loop q []
         | HEX \<Rightarrow> hex_loop xdigs q [])
      else [])"

text \<open>The code from \<^verbatim>\<open>number:\<close> on; writing in front of the local buffer is undefined.\<close>

definition kprintf_number ::
  "nat \<Rightarrow> u8 \<Rightarrow> conv \<Rightarrow> prbase \<Rightarrow> u8 list \<Rightarrow> u64 \<Rightarrow> kp \<Rightarrow> switch res" where
  "kprintf_number fmt ch cv base xdigs q st =
     (let dprec = cv_prec cv;
          cv = (if 0 \<le> dprec then cv\<lparr>cv_flags := cv_flags cv AND NOT ZEROPAD\<rparr> else cv);
          cp = number_chars (cv_flags cv) (cv_prec cv) base xdigs q
      in if KPRINTF_BUFSIZE < length cp then Inl (Undefined ''bf'')
         else Inr (Field fmt ch cv dprec (Lit cp) (length cp) st))"

text \<open>From \<^verbatim>\<open>nosign:\<close> on.\<close>

definition kprintf_nosign ::
  "nat \<Rightarrow> u8 \<Rightarrow> conv \<Rightarrow> prbase \<Rightarrow> u8 list \<Rightarrow> u64 \<Rightarrow> kp \<Rightarrow> switch res" where
  "kprintf_nosign fmt ch cv base xdigs q st =
     kprintf_number fmt ch (cv\<lparr>cv_sign := 0\<rparr>) base xdigs q st"

section \<open>The conversions\<close>

text \<open>\<^verbatim>\<open>*va_arg(ap, T *) = ret\<close>: little-endian, \<open>w\<close> bytes wide.\<close>

definition store_int :: "bytes \<Rightarrow> nat \<Rightarrow> nat \<Rightarrow> int \<Rightarrow> bytes" where
  "store_int m p w n =
     (\<lambda>x. if p \<le> x \<and> x < p + w then word_of_int (drop_bit (8 * (x - p)) n) else m x)"

definition n_width :: "u32 \<Rightarrow> nat" where
  "n_width flags =
     (if has_flag flags MAXINT then 8
      else if has_flag flags PTRINT then 8
      else if has_flag flags SIZEINT then 8
      else if has_flag flags QUADINT then 8
      else if has_flag flags LONGINT then 8
      else if has_flag flags SHORTINT then 2
      else 4)"

definition kprintf_n :: "nat \<Rightarrow> conv \<Rightarrow> kp \<Rightarrow> switch res" where
  "kprintf_n fmt cv st =
     bindE (va_arg st) (\<lambda>(v, st).
       Inr (NoOutput fmt
         (st\<lparr>kp_mem := store_int (kp_mem st) (unat v) (n_width (cv_flags cv)) (kp_ret st)\<rparr>)))"

definition kprintf_s :: "nat \<Rightarrow> u8 \<Rightarrow> conv \<Rightarrow> kp \<Rightarrow> switch res" where
  "kprintf_s fmt ch cv st =
     bindE (va_arg st) (\<lambda>(v, st).
       let cp = (if v = 0 then Lit (map of_char ''(null)'') else Ptr (unat v));
           m = chars_mem (kp_mem st) cp
       in bindE
            (if 0 \<le> cv_prec cv then
               (case bmk_memchr m 0 0 (nat (cv_prec cv)) of
                  Some p \<Rightarrow> Inr (if nat (cv_prec cv) < p then nat (cv_prec cv) else p)
                | None \<Rightarrow> Inr (nat (cv_prec cv)))
             else loopE (bmk_strlen m 0))
            (\<lambda>size. Inr (Field fmt ch (cv\<lparr>cv_sign := 0\<rparr>) 0 cp size st)))"

definition kprintf_d :: "nat \<Rightarrow> u8 \<Rightarrow> conv \<Rightarrow> kp \<Rightarrow> switch res" where
  "kprintf_d fmt ch cv st =
     bindE (va_arg st) (\<lambda>(v, st).
       let q = SARG (cv_flags cv) v in
       if sint q < 0
       then kprintf_number fmt ch (cv\<lparr>cv_sign := chr8 CHR ''-''\<rparr>) DEC [] (- q) st
       else kprintf_number fmt ch cv DEC [] q st)"

definition kprintf_u :: "nat \<Rightarrow> u8 \<Rightarrow> conv \<Rightarrow> prbase \<Rightarrow> kp \<Rightarrow> switch res" where
  "kprintf_u fmt ch cv base st =
     bindE (va_arg st) (\<lambda>(v, st). kprintf_nosign fmt ch cv base [] (UARG (cv_flags cv) v) st)"

definition kprintf_x :: "nat \<Rightarrow> u8 \<Rightarrow> conv \<Rightarrow> u8 list \<Rightarrow> kp \<Rightarrow> switch res" where
  "kprintf_x fmt ch cv xdigs st =
     bindE (va_arg st) (\<lambda>(v, st).
       let q = UARG (cv_flags cv) v;
           cv = (if has_flag (cv_flags cv) ALT \<and> q \<noteq> 0 then set_flag HEXPREFIX cv else cv)
       in kprintf_nosign fmt ch cv HEX xdigs q st)"

definition kprintf_conv :: "nat \<Rightarrow> u8 \<Rightarrow> conv \<Rightarrow> kp \<Rightarrow> switch res" where
  "kprintf_conv fmt ch cv st =
     (if ch = chr8 CHR ''c'' then
        bindE (va_arg st) (\<lambda>(v, st). Inr (Field fmt ch (cv\<lparr>cv_sign := 0\<rparr>) 0 (Lit [ucast v]) 1 st))
      else if ch = chr8 CHR ''D'' then kprintf_d fmt ch (set_flag LONGINT cv) st
      else if ch = chr8 CHR ''d'' \<or> ch = chr8 CHR ''i'' then kprintf_d fmt ch cv st
      else if ch = chr8 CHR ''n'' then kprintf_n fmt cv st
      else if ch = chr8 CHR ''O'' then kprintf_u fmt ch (set_flag LONGINT cv) OCT st
      else if ch = chr8 CHR ''o'' then kprintf_u fmt ch cv OCT st
      else if ch = chr8 CHR ''p'' then
        bindE (va_arg st) (\<lambda>(v, st).
          kprintf_nosign fmt (chr8 CHR ''x'') (set_flag HEXPREFIX cv) HEX hexdigits v st)
      else if ch = chr8 CHR ''s'' then kprintf_s fmt ch cv st
      else if ch = chr8 CHR ''U'' then kprintf_u fmt ch (set_flag LONGINT cv) DEC st
      else if ch = chr8 CHR ''u'' then kprintf_u fmt ch cv DEC st
      else if ch = chr8 CHR ''X'' then kprintf_x fmt ch cv HEXDIGITS st
      else if ch = chr8 CHR ''x'' then kprintf_x fmt ch cv hexdigits st
      else if ch = 0 then Inr Done
      else Inr (Field fmt ch (cv\<lparr>cv_sign := 0\<rparr>) 0 (Lit [ch]) 1 st))"

definition kprintf_switch :: "nat \<Rightarrow> u8 \<Rightarrow> conv \<Rightarrow> kp \<Rightarrow> switch res" where
  "kprintf_switch fmt ch cv st =
     (case kprintf_flag fmt ch cv st of Some r \<Rightarrow> r | None \<Rightarrow> kprintf_conv fmt ch cv st)"

section \<open>The output of a field\<close>

primrec put_chars :: "oflags \<Rightarrow> chars \<Rightarrow> nat \<Rightarrow> nat \<Rightarrow> kp \<Rightarrow> kp" where
  "put_chars ofl cp i 0 st = st"
| "put_chars ofl cp i (Suc sz) st =
     put_chars ofl cp (i + 1) sz (KPRINTF_PUTCHAR ofl (chars_mem (kp_mem st) cp i) st)"

definition field_realsz :: "conv \<Rightarrow> int \<Rightarrow> int \<Rightarrow> int" where
  "field_realsz cv dprec sz =
     (let realsz = (if sz < dprec then dprec else sz) in
      if cv_sign cv \<noteq> 0 then realsz + 1
      else if has_flag (cv_flags cv) HEXPREFIX then realsz + 2
      else realsz)"

definition kprintf_field :: "oflags \<Rightarrow> u8 \<Rightarrow> conv \<Rightarrow> int \<Rightarrow> chars \<Rightarrow> nat \<Rightarrow> kp \<Rightarrow> kp" where
  "kprintf_field ofl ch cv dprec cp sz st =
     (let flags = cv_flags cv; width = cv_width cv;
          realsz = field_realsz cv dprec (int sz);
          st = st\<lparr>kp_ret := kp_ret st + (if realsz < width then width else realsz)\<rparr>;
          st = (if flags AND (LADJUST OR ZEROPAD) = 0
                then put_rep ofl (chr8 CHR '' '') (nat (width - realsz)) st else st);
          st = (if cv_sign cv \<noteq> 0 then KPRINTF_PUTCHAR ofl (cv_sign cv) st
                else if has_flag flags HEXPREFIX
                then KPRINTF_PUTCHAR ofl ch (KPRINTF_PUTCHAR ofl (chr8 CHR ''0'') st)
                else st);
          st = (if flags AND (LADJUST OR ZEROPAD) = ZEROPAD
                then put_rep ofl (chr8 CHR ''0'') (nat (width - realsz)) st else st);
          st = put_rep ofl (chr8 CHR ''0'') (nat (dprec - int sz)) st;
          st = put_chars ofl cp 0 sz st
      in if has_flag flags LADJUST
         then put_rep ofl (chr8 CHR '' '') (nat (width - realsz)) st else st)"

section \<open>The formatter\<close>

text \<open>The jumps to \<^verbatim>\<open>rflag\<close> and \<^verbatim>\<open>reswitch\<close> of one directive.\<close>

partial_function (option) kprintf_directive ::
  "nat \<Rightarrow> u8 \<Rightarrow> conv \<Rightarrow> kp \<Rightarrow> switch res option" where
  "kprintf_directive fmt ch cv st =
     (case kprintf_switch fmt ch cv st of
        Inl e \<Rightarrow> Some (Inl e)
      | Inr sw \<Rightarrow>
          (case sw of
             Rflag fmt cv st \<Rightarrow> kprintf_directive (fmt + 1) (kp_mem st fmt) cv st
           | Reswitch fmt ch cv \<Rightarrow> kprintf_directive fmt ch cv st
           | _ \<Rightarrow> Some (Inr sw)))"

definition conv0 :: conv where
  "conv0 = \<lparr>cv_flags = 0, cv_width = 0, cv_prec = - 1, cv_sign = 0\<rparr>"

partial_function (option) kprintf_loop :: "oflags \<Rightarrow> nat \<Rightarrow> kp \<Rightarrow> kp res option" where
  "kprintf_loop ofl fmt st =
     (let c = kp_mem st fmt in
      if c \<noteq> chr8 CHR ''%'' \<and> c \<noteq> 0 then
        kprintf_loop ofl (fmt + 1) (KPRINTF_PUTCHAR ofl c (st\<lparr>kp_ret := kp_ret st + 1\<rparr>))
      else if c = 0 then Some (Inr st)
      else
        (case kprintf_directive (fmt + 2) (kp_mem st (fmt + 1)) conv0 st of
           None \<Rightarrow> None
         | Some r \<Rightarrow>
             (case r of
                Inl e \<Rightarrow> Some (Inl e)
              | Inr sw \<Rightarrow>
                  (case sw of
                     Field fmt ch cv dprec cp sz st \<Rightarrow>
                       kprintf_loop ofl fmt (kprintf_field ofl ch cv dprec cp sz st)
                   | NoOutput fmt st \<Rightarrow> kprintf_loop ofl fmt st
                   | _ \<Rightarrow> Some (Inr st)))))"

definition kprintf :: "oflags \<Rightarrow> nat \<Rightarrow> kp \<Rightarrow> kp res" where
  "kprintf ofl fmt st = bindE (loopE (kprintf_loop ofl fmt (st\<lparr>kp_ret := 0\<rparr>))) (\<lambda>r. r)"

text \<open>\<^verbatim>\<open>bmk_vsnprintf\<close> and \<^verbatim>\<open>bmk_snprintf\<close>: the argument list is a field of the state.\<close>

definition bmk_vsnprintf :: "nat \<Rightarrow> nat \<Rightarrow> nat \<Rightarrow> kp \<Rightarrow> (int \<times> kp) res" where
  "bmk_vsnprintf bf sz fmt st =
     bindE (kprintf (TOBUFONLY (Some (bf + sz))) fmt (st\<lparr>kp_sbuf := bf\<rparr>)) (\<lambda>st.
       let retval = kp_ret st;
           st = (if bf \<noteq> 0 \<and> 0 < sz then
                   (if int sz \<le> retval then st\<lparr>kp_mem := (kp_mem st)(bf + sz - 1 := 0)\<rparr>
                    else st\<lparr>kp_mem := (kp_mem st)(bf + nat retval := 0)\<rparr>)
                 else st)
       in Inr (retval, st))"

definition bmk_vprintf :: "nat \<Rightarrow> kp \<Rightarrow> kp res" where
  "bmk_vprintf fmt st = kprintf TOCONS fmt st"

section \<open>The number buffer\<close>

lemma oct_loop_length:
  "unat q < 8 ^ k \<Longrightarrow> 0 < k \<Longrightarrow> length (oct_loop q cp) \<le> length cp + k"
proof (induction q cp arbitrary: k rule: oct_loop.induct)
  case (1 q cp)
  show ?case
  proof (cases "drop_bit 3 q = 0")
    case True
    then show ?thesis using 1(3) by (subst oct_loop.simps) simp
  next
    case False
    have div: "unat (drop_bit 3 q) = unat q div 8" unfolding unat_drop_bit_eq unfolding drop_bit_eq_div by simp
    obtain j where k: "k = Suc j" using 1(3) by (cases k) auto
    have "unat (drop_bit 3 q) < 8 ^ j" using 1(2) k div by (simp add: less_mult_imp_div_less mult.commute)
    moreover have "0 < j"
    proof (rule ccontr)
      assume "\<not> 0 < j"
      then have "unat (drop_bit 3 q) = 0" using calculation by simp
      then show False using False by (simp add: unat_eq_zero)
    qed
    ultimately have "length (oct_loop (drop_bit 3 q) (to_char (q AND 7) # cp)) \<le> Suc (length cp) + j"
      using 1(1) [OF refl refl False, of j] by simp
    then show ?thesis using False k by (subst oct_loop.simps) (simp add: Let_def)
  qed
qed

lemma dec_loop_length:
  "unat q < 10 ^ k \<Longrightarrow> 0 < k \<Longrightarrow> length (dec_loop q cp) \<le> length cp + k"
proof (induction q cp arbitrary: k rule: dec_loop.induct)
  case (1 q cp)
  show ?case
  proof (cases "10 \<le> q")
    case False
    then show ?thesis using 1(3) by (subst dec_loop.simps) simp
  next
    case True
    have ge: "10 \<le> unat q" using True by (simp add: word_le_nat_alt)
    obtain j where k: "k = Suc j" using 1(3) by (cases k) auto
    have "unat (q div 10) < 10 ^ j" using 1(2) k by (simp add: unat_div less_mult_imp_div_less mult.commute)
    moreover have "0 < j" using ge 1(2) k by (cases j) simp_all
    ultimately have "length (dec_loop (q div 10) (to_char (q mod 10) # cp)) \<le> Suc (length cp) + j"
      using 1(1) [OF True, of j] by simp
    then show ?thesis using True k by (subst dec_loop.simps) simp
  qed
qed

lemma hex_loop_length:
  "unat q < 16 ^ k \<Longrightarrow> 0 < k \<Longrightarrow> length (hex_loop xdigs q cp) \<le> length cp + k"
proof (induction xdigs q cp arbitrary: k rule: hex_loop.induct)
  case (1 xdigs q cp)
  show ?case
  proof (cases "drop_bit 4 q = 0")
    case True
    then show ?thesis using 1(3) by (subst hex_loop.simps) simp
  next
    case False
    have div: "unat (drop_bit 4 q) = unat q div 16" unfolding unat_drop_bit_eq unfolding drop_bit_eq_div by simp
    obtain j where k: "k = Suc j" using 1(3) by (cases k) auto
    have "unat (drop_bit 4 q) < 16 ^ j" using 1(2) k div by (simp add: less_mult_imp_div_less mult.commute)
    moreover have "0 < j"
    proof (rule ccontr)
      assume "\<not> 0 < j"
      then have "unat (drop_bit 4 q) = 0" using calculation by simp
      then show False using False by (simp add: unat_eq_zero)
    qed
    ultimately have "length (hex_loop xdigs (drop_bit 4 q) (xdigs ! unat (q AND 15) # cp)) \<le> Suc (length cp) + j"
      using 1(1) [OF refl refl False, of j] by simp
    then show ?thesis using False k by (subst hex_loop.simps) (simp add: Let_def)
  qed
qed

lemma number_chars_length: "length (number_chars flags prec base xdigs q) \<le> KPRINTF_BUFSIZE"
proof -
  have q: "unat q < 2 ^ 64" using unsigned_less [of q] by simp
  have "length (oct_loop q []) \<le> 22" using oct_loop_length [of q 22 "[]"] q by simp
  moreover have "length (dec_loop q []) \<le> 20" using dec_loop_length [of q 20 "[]"] q by simp
  moreover have "length (hex_loop xdigs q []) \<le> 16" using hex_loop_length [of q 16 xdigs "[]"] q by simp
  ultimately show ?thesis
    by (auto simp: number_chars_def KPRINTF_BUFSIZE_def Let_def split: prbase.split)
qed

text \<open>The bound is reached by \<^verbatim>\<open>%#lo\<close> on the largest value.\<close>

lemma number_chars_tight:
  "length (number_chars ALT (- 1) OCT xdigs 0xFFFFFFFFFFFFFFFF) = KPRINTF_BUFSIZE"
  by (simp add: number_chars_def KPRINTF_BUFSIZE_def has_flag_def oct_loop.simps to_char_def Let_def)

lemma kprintf_number_eq:
  "kprintf_number fmt ch cv base xdigs q st =
     (let cv' = (if 0 \<le> cv_prec cv then cv\<lparr>cv_flags := cv_flags cv AND NOT ZEROPAD\<rparr> else cv);
          cp = number_chars (cv_flags cv') (cv_prec cv) base xdigs q
      in Inr (Field fmt ch cv' (cv_prec cv) (Lit cp) (length cp) st))"
  using number_chars_length by (simp add: kprintf_number_def Let_def not_less)

section \<open>Fields as sequences of characters\<close>

definition puts :: "oflags \<Rightarrow> u8 list \<Rightarrow> kp \<Rightarrow> kp" where
  "puts ofl cs st = fold (KPRINTF_PUTCHAR ofl) cs st"

lemma puts_Nil [simp]: "puts ofl [] st = st"
  by (simp add: puts_def)

lemma puts_Cons: "puts ofl (c # cs) st = puts ofl cs (KPRINTF_PUTCHAR ofl c st)"
  by (simp add: puts_def)

lemma puts_append: "puts ofl (cs @ ds) st = puts ofl ds (puts ofl cs st)"
  by (simp add: puts_def)

lemma put_rep_puts: "put_rep ofl c n st = puts ofl (replicate n c) st"
  by (induction n arbitrary: st) (simp_all add: puts_Cons)

lemma put_chars_puts: "\<exists>cs. put_chars ofl cp i n st = puts ofl cs st \<and> length cs = n"
proof (induction n arbitrary: i st)
  case (Suc n)
  obtain cs where "put_chars ofl cp (i + 1) n (KPRINTF_PUTCHAR ofl (chars_mem (kp_mem st) cp i) st)
      = puts ofl cs (KPRINTF_PUTCHAR ofl (chars_mem (kp_mem st) cp i) st)" "length cs = n"
    using Suc by blast
  then show ?case
    by (intro exI [of _ "chars_mem (kp_mem st) cp i # cs"]) (simp add: puts_Cons)
qed simp

lemma put_chars_Lit:
  "i + n \<le> length l \<Longrightarrow> put_chars ofl (Lit l) i n st = puts ofl (take n (drop i l)) st"
proof (induction n arbitrary: i st)
  case (Suc n)
  then have "take (Suc n) (drop i l) = l ! i # take n (drop (i + 1) l)"
    by (simp add: take_Suc_conv_app_nth Cons_nth_drop_Suc [symmetric])
  then show ?case using Suc by (simp add: puts_Cons)
qed simp

lemma flag_and: "(f :: u32) AND 2 ^ n = (if bit f n then 2 ^ n else 0)"
  by (rule bit_word_eqI) (auto simp: bit_simps)

lemma and_LADJUST: "f AND 4 = (if bit f 2 then 4 else 0)" for f :: u32
  using flag_and [of f 2] by simp
lemma and_ZEROPAD: "f AND 0x400 = (if bit f 10 then 0x400 else 0)" for f :: u32
  using flag_and [of f 10] by simp

lemma pad_flag_cases:
  fixes f :: u32
  shows "f AND (LADJUST OR ZEROPAD) = 0 \<longleftrightarrow> \<not> bit f 2 \<and> \<not> bit f 10"
    and "f AND (LADJUST OR ZEROPAD) = ZEROPAD \<longleftrightarrow> \<not> bit f 2 \<and> bit f 10"
    and "has_flag f LADJUST \<longleftrightarrow> bit f 2"
  unfolding has_flag_def bit.conj_disj_distrib and_LADJUST and_ZEROPAD by simp_all
lemma puts_if: "(if b then puts ofl cs st else st) = puts ofl (if b then cs else []) st"
  by simp

lemma puts_prefix:
  "(if a then KPRINTF_PUTCHAR ofl x st
    else if b then KPRINTF_PUTCHAR ofl z (KPRINTF_PUTCHAR ofl y st) else st)
   = puts ofl (if a then [x] else if b then [y, z] else []) st"
  by (simp add: puts_Cons)

text \<open>
  A field is a sequence of characters, and \<^verbatim>\<open>ret\<close> grows by exactly their number: the
  padding is emitted in one of the three places.
\<close>

lemma kprintf_field_puts:
  "\<exists>cs. kprintf_field ofl ch cv dprec cp n st = puts ofl cs (st\<lparr>kp_ret := kp_ret st + int (length cs)\<rparr>)"
proof -
  let ?rsz = "field_realsz cv dprec (int n)" and ?f = "cv_flags cv"
  let ?pad = "nat (cv_width cv - ?rsz)"
  let ?lead = "if \<not> bit ?f 2 \<and> \<not> bit ?f 10 then replicate ?pad (chr8 CHR '' '') else []"
  let ?prefix = "if cv_sign cv \<noteq> 0 then [cv_sign cv] else if has_flag ?f HEXPREFIX then [chr8 CHR ''0'', ch] else []"
  let ?zero = "if \<not> bit ?f 2 \<and> bit ?f 10 then replicate ?pad (chr8 CHR ''0'') else []"
  let ?dz = "replicate (nat (dprec - int n)) (chr8 CHR ''0'')"
  let ?trail = "if bit ?f 2 then replicate ?pad (chr8 CHR '' '') else []"
  let ?st = "st\<lparr>kp_ret := kp_ret st + (if ?rsz < cv_width cv then cv_width cv else ?rsz)\<rparr>"
  let ?pre = "?lead @ ?prefix @ ?zero @ ?dz"
  obtain cs where cs: "put_chars ofl cp 0 n (puts ofl ?pre ?st) = puts ofl cs (puts ofl ?pre ?st)" "length cs = n"
    using put_chars_puts by blast
  have eq: "kprintf_field ofl ch cv dprec cp n st = puts ofl (?pre @ cs @ ?trail) ?st"
    using cs(1) unfolding kprintf_field_def Let_def pad_flag_cases put_rep_puts puts_if puts_prefix
      puts_append by (simp only:)
  have len: "int (length (?pre @ cs @ ?trail)) = (if ?rsz < cv_width cv then cv_width cv else ?rsz)"
    using cs(2) by (auto simp: field_realsz_def Let_def)
  show ?thesis by (rule exI [of _ "?pre @ cs @ ?trail"]) (simp only: eq len)
qed

section \<open>Invariants of the formatter\<close>

text \<open>
  How the parsing of a directive changes the state: it consumes arguments, and \<^verbatim>\<open>%n\<close>
  stores through one of them.
\<close>

definition consumes :: "kp \<Rightarrow> kp \<Rightarrow> bool" where
  "consumes st st' = (\<exists>k. st' = st\<lparr>kp_ap := drop k (kp_ap st)\<rparr>)"

lemma consumes_refl [simp]: "consumes st st"
  unfolding consumes_def by (rule exI [of _ 0]) simp

lemma consumes_trans: "consumes st st' \<Longrightarrow> consumes st' st'' \<Longrightarrow> consumes st st''"
  unfolding consumes_def by (auto simp: add.commute)

lemma va_arg_consumes: "va_arg st = Inr (v, st') \<Longrightarrow> consumes st st' \<and> v \<in> set (kp_ap st)"
  by (auto simp: va_arg_def consumes_def split: list.splits intro: exI [of _ 1])

fun switch_ok :: "kp \<Rightarrow> switch \<Rightarrow> bool" where
  "switch_ok st (Rflag fmt cv st') = consumes st st'"
| "switch_ok st (Reswitch fmt ch cv) = True"
| "switch_ok st (Field fmt ch cv dprec cp n st') = consumes st st'"
| "switch_ok st (NoOutput fmt st') =
     (\<exists>st1 v w. consumes st st1 \<and> v \<in> set (kp_ap st) \<and> w \<le> 8 \<and>
        st' = st1\<lparr>kp_mem := store_int (kp_mem st1) (unat v) w (kp_ret st1)\<rparr>)"
| "switch_ok st Done = True"

lemma kprintf_flag_ok: "kprintf_flag fmt ch cv st = Some (Inr sw) \<Longrightarrow> switch_ok st sw"
  unfolding kprintf_flag_def Let_def
  by (auto simp: res_simps dest: va_arg_consumes split: if_splits prod.splits)

lemma kprintf_number_ok: "kprintf_number fmt ch cv base xdigs q st' = Inr sw \<Longrightarrow> consumes st st' \<Longrightarrow> switch_ok st sw"
  by (auto simp: kprintf_number_eq Let_def)

lemma kprintf_nosign_ok: "kprintf_nosign fmt ch cv base xdigs q st' = Inr sw \<Longrightarrow> consumes st st' \<Longrightarrow> switch_ok st sw"
  unfolding kprintf_nosign_def by (rule kprintf_number_ok)

lemma kprintf_n_ok:
  assumes "kprintf_n fmt cv st = Inr sw"
  shows "switch_ok st sw"
proof -
  obtain v st1 where va: "va_arg st = Inr (v, st1)"
    using assms by (auto simp: kprintf_n_def bindE_eq_Inr)
  have "n_width (cv_flags cv) \<le> 8" by (simp add: n_width_def)
  moreover have sw: "sw = NoOutput fmt
      (st1\<lparr>kp_mem := store_int (kp_mem st1) (unat v) (n_width (cv_flags cv)) (kp_ret st1)\<rparr>)"
    using assms unfolding kprintf_n_def va bindE_Inr prod.case by simp
  ultimately show ?thesis using va_arg_consumes [OF va] unfolding sw switch_ok.simps by blast
qed

lemma kprintf_s_ok: "kprintf_s fmt ch cv st = Inr sw \<Longrightarrow> switch_ok st sw"
  unfolding kprintf_s_def Let_def
  by (auto simp: res_simps dest: va_arg_consumes split: prod.splits)

lemma kprintf_d_ok: "kprintf_d fmt ch cv st = Inr sw \<Longrightarrow> switch_ok st sw"
  unfolding kprintf_d_def Let_def
  by (auto simp: res_simps dest: va_arg_consumes kprintf_number_ok split: prod.splits if_splits)

lemma kprintf_u_ok: "kprintf_u fmt ch cv base st = Inr sw \<Longrightarrow> switch_ok st sw"
  unfolding kprintf_u_def
  by (auto simp: res_simps dest: va_arg_consumes kprintf_nosign_ok split: prod.splits)

lemma kprintf_x_ok: "kprintf_x fmt ch cv xdigs st = Inr sw \<Longrightarrow> switch_ok st sw"
  unfolding kprintf_x_def Let_def
  by (auto simp: res_simps dest: va_arg_consumes kprintf_nosign_ok split: prod.splits)

lemma kprintf_conv_ok: "kprintf_conv fmt ch cv st = Inr sw \<Longrightarrow> switch_ok st sw"
  unfolding kprintf_conv_def
  by (auto simp: bindE_eq_Inr split: if_splits
      dest: va_arg_consumes kprintf_nosign_ok kprintf_d_ok kprintf_n_ok kprintf_u_ok kprintf_s_ok kprintf_x_ok)

lemma kprintf_switch_ok: "kprintf_switch fmt ch cv st = Inr sw \<Longrightarrow> switch_ok st sw"
  unfolding kprintf_switch_def
  by (auto split: option.splits dest: kprintf_flag_ok kprintf_conv_ok)

lemma switch_ok_consumes: "consumes st st1 \<Longrightarrow> switch_ok st1 sw \<Longrightarrow> switch_ok st sw"
proof (cases sw)
  case (NoOutput fmt st')
  assume "consumes st st1" "switch_ok st1 sw"
  moreover from this(1) have "set (kp_ap st1) \<subseteq> set (kp_ap st)"
    by (auto simp: consumes_def dest: in_set_dropD)
  ultimately show ?thesis using NoOutput consumes_trans by fastforce
qed (auto intro: consumes_trans)

lemmas kprintf_directive_induct = kprintf_directive.raw_induct [rotated 1, consumes 1, case_names step]
lemmas kprintf_loop_induct = kprintf_loop.raw_induct [rotated 1, consumes 1, case_names step]

lemma kprintf_directive_ok:
  assumes "kprintf_directive fmt ch cv st = Some (Inr sw)"
  shows "switch_ok st sw"
proof -
  have "\<forall>sw. r = Inr sw \<longrightarrow> switch_ok st sw" if "kprintf_directive fmt ch cv st = Some r" for r
    using that
  proof (induction rule: kprintf_directive_induct)
    case (step f fmt ch cv st r)
    show ?case
    proof (intro allI impI)
      fix sw
      assume r: "r = Inr sw"
      obtain sw1 where sw1: "kprintf_switch fmt ch cv st = Inr sw1"
        using step(2) r by (auto split: sum.splits)
      note ok = kprintf_switch_ok [OF sw1]
      show "switch_ok st sw"
      proof (cases sw1)
        case (Rflag fmt' cv' st')
        then have "switch_ok st' sw" using step sw1 r by auto
        then show ?thesis using switch_ok_consumes ok Rflag by auto
      next
        case (Reswitch fmt' ch' cv')
        then show ?thesis using step sw1 r by auto
      qed (use step sw1 ok r in auto)
    qed
  qed
  then show ?thesis using assms by blast
qed

text \<open>
  Every property of the state that survives a run of characters together with the
  update of \<^verbatim>\<open>ret\<close>, the consumption of arguments and the store of \<^verbatim>\<open>%n\<close> survives the formatter.
\<close>

lemma kprintf_loop_invariant:
  assumes run: "kprintf_loop ofl fmt st = Some (Inr st')" and init: "P st"
    and put: "\<And>cs st. P st \<Longrightarrow> P (puts ofl cs (st\<lparr>kp_ret := kp_ret st + int (length cs)\<rparr>))"
    and con: "\<And>st st1. P st \<Longrightarrow> consumes st st1 \<Longrightarrow> P st1"
    and sto: "\<And>st st1 v w. P st \<Longrightarrow> consumes st st1 \<Longrightarrow> v \<in> set (kp_ap st) \<Longrightarrow> w \<le> 8 \<Longrightarrow>
      P (st1\<lparr>kp_mem := store_int (kp_mem st1) (unat v) w (kp_ret st1)\<rparr>)"
  shows "P st'"
proof -
  have "r = Inr st' \<longrightarrow> P st \<longrightarrow> P st'" if "kprintf_loop ofl fmt st = Some r" for r
    using that put
  proof (induction rule: kprintf_loop_induct)
    case (step f ofl fmt st r)
    let ?c = "kp_mem st fmt"
    have one: "P (KPRINTF_PUTCHAR ofl c (st\<lparr>kp_ret := kp_ret st + 1\<rparr>))" if "P st" for c
      using step(3) [OF that, of "[c]"] by (simp add: puts_Cons)
    show ?case
    proof (intro impI)
      assume r: "r = Inr st'" and P: "P st"
      consider "?c = 0" | "?c \<noteq> 0" "?c \<noteq> chr8 CHR ''%''" | "?c = chr8 CHR ''%''" "?c \<noteq> 0" by auto
      then show "P st'"
      proof cases
        case 1
        then show ?thesis using step(2) r P by auto
      next
        case 2
        then show ?thesis using step(1) [OF _ step(3)] step(2) r one [OF P] by auto
      next
        case 3
        obtain sw where sw: "kprintf_directive (fmt + 2) (kp_mem st (fmt + 1)) conv0 st = Some (Inr sw)"
          using step(2) r 3 by (auto split: option.splits sum.splits)
        note ok = kprintf_directive_ok [OF sw]
        show ?thesis
        proof (cases sw)
          case (Field fmt' ch cv dprec cp n st1)
          obtain cs where "kprintf_field ofl ch cv dprec cp n st1
              = puts ofl cs (st1\<lparr>kp_ret := kp_ret st1 + int (length cs)\<rparr>)"
            using kprintf_field_puts by blast
          moreover have "P st1" using con [OF P] ok Field by simp
          ultimately have "P (kprintf_field ofl ch cv dprec cp n st1)" using step(3) by simp
          then show ?thesis using step(1) [OF _ step(3)] step(2) r 3 sw Field by auto
        next
          case (NoOutput fmt' st1)
          then have "P st1" using ok sto [OF P] by auto
          then show ?thesis using step(1) [OF _ step(3)] step(2) r 3 sw NoOutput by auto
        qed (use step(2) r 3 sw P in auto)
      qed
    qed
  qed
  then show ?thesis using run init by blast
qed


section \<open>The two sinks\<close>

lemma puts_cons:
  "puts TOCONS cs st =
     st\<lparr>kp_dmesg := kp_dmesg (puts TOCONS cs st), kp_dmesgoff := kp_dmesgoff (puts TOCONS cs st),
        kp_putc := kp_putc st @ cs\<rparr>"
proof (induction cs arbitrary: st)
  case (Cons c cs)
  show ?case
    unfolding puts_Cons by (subst Cons) (simp add: cons_putchar_def Let_def)
qed simp

lemma puts_dmesg:
  "kp_dmesgoff st < BMK_DMESG_SIZE - 1 \<Longrightarrow> length (kp_dmesg st) = BMK_DMESG_SIZE \<Longrightarrow>
   kp_dmesgoff (puts TOCONS cs st) < BMK_DMESG_SIZE - 1 \<and>
   length (kp_dmesg (puts TOCONS cs st)) = BMK_DMESG_SIZE"
  by (induction cs arbitrary: st)
    (auto simp: puts_Cons cons_putchar_def Let_def BMK_DMESG_SIZE_def)

lemma puts_buf_null: "kp_sbuf st = 0 \<Longrightarrow> puts (TOBUFONLY t) cs st = st"
  by (induction cs) (simp_all add: puts_Cons)

lemma puts_buf:
  assumes "kp_sbuf st \<noteq> 0" "kp_sbuf st \<le> t"
  shows "puts (TOBUFONLY (Some t)) cs st =
     st\<lparr>kp_mem := (\<lambda>x. if kp_sbuf st \<le> x \<and> x < kp_sbuf st + length cs \<and> x < t
                      then cs ! (x - kp_sbuf st) else kp_mem st x),
        kp_sbuf := min t (kp_sbuf st + length cs)\<rparr>"
  using assms
proof (induction cs arbitrary: st)
  case Nil
  then show ?case by (auto simp: min_def fun_eq_iff intro!: kp.equality)
next
  case (Cons c cs)
  show ?case
  proof (cases "kp_sbuf st < t")
    case True
    let ?st = "st\<lparr>kp_mem := (kp_mem st)(kp_sbuf st := c), kp_sbuf := kp_sbuf st + 1\<rparr>"
    have "puts (TOBUFONLY (Some t)) (c # cs) st = puts (TOBUFONLY (Some t)) cs ?st"
      using True Cons.prems by (simp add: puts_Cons)
    also have "\<dots> = ?st\<lparr>kp_mem := (\<lambda>x. if kp_sbuf ?st \<le> x \<and> x < kp_sbuf ?st + length cs \<and> x < t
                      then cs ! (x - kp_sbuf ?st) else kp_mem ?st x),
        kp_sbuf := min t (kp_sbuf ?st + length cs)\<rparr>"
      using True by (intro Cons.IH) simp_all
    also have "\<dots> = st\<lparr>kp_mem := (\<lambda>x. if kp_sbuf st \<le> x \<and> x < kp_sbuf st + length (c # cs) \<and> x < t
                      then (c # cs) ! (x - kp_sbuf st) else kp_mem st x),
        kp_sbuf := min t (kp_sbuf st + length (c # cs))\<rparr>"
    proof -
      have "(\<lambda>x. if kp_sbuf ?st \<le> x \<and> x < kp_sbuf ?st + length cs \<and> x < t
                      then cs ! (x - kp_sbuf ?st) else kp_mem ?st x) =
        (\<lambda>x. if kp_sbuf st \<le> x \<and> x < kp_sbuf st + length (c # cs) \<and> x < t
                      then (c # cs) ! (x - kp_sbuf st) else kp_mem st x)"
        using True by (auto simp: fun_eq_iff nth_Cons')
      then show ?thesis by simp
    qed
    finally show ?thesis .
  next
    case False
    then have "kp_sbuf st = t" using Cons.prems by simp
    moreover have "puts (TOBUFONLY (Some t)) (c # cs) st = puts (TOBUFONLY (Some t)) cs st"
      using False by (simp add: puts_Cons)
    moreover have "puts (TOBUFONLY (Some t)) cs st = st" if "kp_sbuf st = t" for cs
      using that by (induction cs) (simp_all add: puts_Cons)
    ultimately show ?thesis by (auto simp: min_def fun_eq_iff intro!: kp.equality)
  qed
qed

end
