(* ===== verification/Printf_Correct.thy ===== *)
theory Printf_Correct
  imports Printf
begin

text \<open>
  Correctness of the formatter: where it writes, what it returns, that its local buffer is
  large enough, and that \<^verbatim>\<open>bmk_strtoul\<close> reads back the numbers it prints.
\<close>

section \<open>What the formatter writes\<close>

definition arg_object :: "u64 list \<Rightarrow> nat \<Rightarrow> bool" where
  "arg_object ap x = list_ex (\<lambda>v. unat v \<le> x \<and> x < unat v + 8) ap"

definition buf_inv :: "nat \<Rightarrow> nat \<Rightarrow> kp \<Rightarrow> kp \<Rightarrow> bool" where
  "buf_inv bf n st0 st =
     (0 \<le> kp_ret st \<and>
      kp_sbuf st = (if bf = 0 then 0 else min (bf + n) (bf + nat (kp_ret st))) \<and>
      (\<forall>x. kp_mem st x \<noteq> kp_mem st0 x \<longrightarrow> (bf \<noteq> 0 \<and> bf \<le> x \<and> x < bf + n) \<or> arg_object (kp_ap st0) x) \<and>
      set (kp_ap st) \<subseteq> set (kp_ap st0) \<and>
      kp_putc st = kp_putc st0 \<and> kp_dmesg st = kp_dmesg st0 \<and> kp_dmesgoff st = kp_dmesgoff st0)"

lemma consumes_fields:
  "consumes st st1 \<Longrightarrow> kp_mem st1 = kp_mem st \<and> kp_ret st1 = kp_ret st \<and> kp_sbuf st1 = kp_sbuf st \<and>
     kp_putc st1 = kp_putc st \<and> kp_dmesg st1 = kp_dmesg st \<and> kp_dmesgoff st1 = kp_dmesgoff st \<and>
     set (kp_ap st1) \<subseteq> set (kp_ap st)"
  by (auto simp: consumes_def dest: in_set_dropD)

lemma buf_inv_consumes: "buf_inv bf n st0 st \<Longrightarrow> consumes st st1 \<Longrightarrow> buf_inv bf n st0 st1"
  using consumes_fields [of st st1] by (auto simp: buf_inv_def)

lemma buf_inv_puts:
  assumes "buf_inv bf n st0 st"
  shows "buf_inv bf n st0 (puts (TOBUFONLY (Some (bf + n))) cs (st\<lparr>kp_ret := kp_ret st + int (length cs)\<rparr>))"
proof (cases "bf = 0")
  case True
  then show ?thesis using assms by (auto simp: buf_inv_def puts_buf_null)
next
  case False
  let ?st = "st\<lparr>kp_ret := kp_ret st + int (length cs)\<rparr>"
  have s: "kp_sbuf st = min (bf + n) (bf + nat (kp_ret st))" "0 \<le> kp_ret st"
    using assms False by (auto simp: buf_inv_def)
  have eq: "puts (TOBUFONLY (Some (bf + n))) cs ?st =
     ?st\<lparr>kp_mem := (\<lambda>x. if kp_sbuf st \<le> x \<and> x < kp_sbuf st + length cs \<and> x < bf + n
                      then cs ! (x - kp_sbuf st) else kp_mem st x),
        kp_sbuf := min (bf + n) (kp_sbuf st + length cs)\<rparr>"
    using puts_buf [of ?st "bf + n" cs] s False by (simp cong: if_cong)
  have "min (bf + n) (kp_sbuf st + length cs) = min (bf + n) (bf + nat (kp_ret st + int (length cs)))"
    using s by (simp add: nat_add_distrib)
  moreover have "bf \<le> kp_sbuf st" using s by simp
  ultimately show ?thesis
    using assms False unfolding eq by (auto simp: buf_inv_def split: if_splits)
qed

lemma store_int_frame: "store_int m p w k x \<noteq> m x \<Longrightarrow> p \<le> x \<and> x < p + w"
  by (auto simp: store_int_def split: if_splits)

lemma buf_inv_store:
  assumes "buf_inv bf n st0 st" "consumes st st1" "v \<in> set (kp_ap st)" "w \<le> 8"
  shows "buf_inv bf n st0 (st1\<lparr>kp_mem := store_int (kp_mem st1) (unat v) w (kp_ret st1)\<rparr>)"
proof -
  note 1 = buf_inv_consumes [OF assms(1,2)]
  have "v \<in> set (kp_ap st0)" using assms(1,3) by (auto simp: buf_inv_def)
  then have st: "arg_object (kp_ap st0) x" if "store_int (kp_mem st1) (unat v) w (kp_ret st1) x \<noteq> kp_mem st1 x" for x
    using store_int_frame [OF that] assms(4) by (force simp: arg_object_def list_ex_iff)
  have "(bf \<noteq> 0 \<and> bf \<le> x \<and> x < bf + n) \<or> arg_object (kp_ap st0) x"
    if "store_int (kp_mem st1) (unat v) w (kp_ret st1) x \<noteq> kp_mem st0 x" for x
  proof (cases "store_int (kp_mem st1) (unat v) w (kp_ret st1) x = kp_mem st1 x")
    case True
    then show ?thesis using 1 that unfolding buf_inv_def by metis
  qed (use st in blast)
  then show ?thesis using 1 unfolding buf_inv_def by simp
qed

lemma kprintf_buf_inv:
  assumes "kprintf (TOBUFONLY (Some (bf + n))) fmt (st\<lparr>kp_sbuf := bf\<rparr>) = Inr st'"
  shows "buf_inv bf n st st'"
proof -
  have init: "buf_inv bf n st (st\<lparr>kp_sbuf := bf, kp_ret := 0\<rparr>)" by (simp add: buf_inv_def)
  have run: "kprintf_loop (TOBUFONLY (Some (bf + n))) fmt (st\<lparr>kp_sbuf := bf, kp_ret := 0\<rparr>) = Some (Inr st')"
    using assms by (simp add: kprintf_def bindE_eq_Inr loopE_eq_Inr)
  show ?thesis
    by (rule kprintf_loop_invariant [where P = "buf_inv bf n st", OF run init])
      (rule buf_inv_puts buf_inv_consumes buf_inv_store; assumption)+
qed

lemma kprintf_cons_inv:
  assumes "kprintf TOCONS fmt st = Inr st'"
  shows "\<exists>out. kp_putc st' = kp_putc st @ out \<and> kp_ret st' = int (length out)"
proof -
  let ?P = "\<lambda>s. \<exists>out. kp_putc s = kp_putc st @ out \<and> kp_ret s = int (length out)"
  have "?P (puts TOCONS cs (s\<lparr>kp_ret := kp_ret s + int (length cs)\<rparr>))" if s: "?P s" for cs s
  proof -
    obtain out where "kp_putc s = kp_putc st @ out" "kp_ret s = int (length out)" using s by blast
    then show ?thesis by (intro exI [of _ "out @ cs"]) (subst (1 2) puts_cons, simp)
  qed
  moreover have con: "?P s1" if "?P s" "consumes s s1" for s s1 using that consumes_fields [of s s1] by auto
  moreover have "?P (s1\<lparr>kp_mem := m\<rparr>)" if "?P s" "consumes s s1" for s s1 m using con [OF that] by auto
  moreover have "?P (st\<lparr>kp_ret := 0\<rparr>)" by simp
  moreover have run: "kprintf_loop TOCONS fmt (st\<lparr>kp_ret := 0\<rparr>) = Some (Inr st')"
    using assms by (simp add: kprintf_def bindE_eq_Inr loopE_eq_Inr)
  ultimately show ?thesis
    using kprintf_loop_invariant [where P = ?P, OF run] by blast
qed

lemma vsnprintf_confined_lemma:
  assumes "bmk_vsnprintf bf n fmt st = Inr (r, st')"
  shows "0 \<le> r \<and>
    (\<forall>x. (kp_mem st' x = kp_mem st x \<or> (bf \<noteq> 0 \<and> bf \<le> x \<and> x < bf + n) \<or> arg_object (kp_ap st) x)) \<and>
    (bf = 0 \<or> n = 0 \<or> kp_mem st' (bf + min (nat r) (n - 1)) = 0) \<and>
    kp_putc st' = kp_putc st \<and> kp_dmesg st' = kp_dmesg st"
proof -
  obtain st1 where k: "kprintf (TOBUFONLY (Some (bf + n))) fmt (st\<lparr>kp_sbuf := bf\<rparr>) = Inr st1"
    and r: "r = kp_ret st1"
    and st': "st' = (if bf \<noteq> 0 \<and> 0 < n then
                   (if int n \<le> kp_ret st1 then st1\<lparr>kp_mem := (kp_mem st1)(bf + n - 1 := 0)\<rparr>
                    else st1\<lparr>kp_mem := (kp_mem st1)(bf + nat (kp_ret st1) := 0)\<rparr>)
                 else st1)"
    using assms by (auto simp: bmk_vsnprintf_def Let_def bindE_eq_Inr)
  have inv: "0 \<le> kp_ret st1" "kp_putc st1 = kp_putc st" "kp_dmesg st1 = kp_dmesg st"
    "kp_mem st1 x = kp_mem st x \<or> (bf \<noteq> 0 \<and> bf \<le> x \<and> x < bf + n) \<or> arg_object (kp_ap st) x" for x
    using kprintf_buf_inv [OF k] by (auto simp: buf_inv_def)
  show ?thesis
  proof (cases "bf \<noteq> 0 \<and> 0 < n")
    case True
    show ?thesis using True inv unfolding st' r by (auto simp: min_def)
  next
    case False
    then show ?thesis using inv unfolding st' r by auto
  qed
qed

section \<open>Printing and parsing numbers\<close>

fun radix :: "prbase \<Rightarrow> nat" where
  "radix OCT = 8" | "radix DEC = 10" | "radix HEX = 16"

definition digit_is :: "nat \<Rightarrow> u8 \<Rightarrow> nat \<Rightarrow> bool" where
  "digit_is r c k = (strtoul_digit c = Some (int k) \<and> k < r)"

lemma digit_is_val: "digit_is r c k \<Longrightarrow> digit_of (int r) c \<and> digit_val c = k"
  by (auto simp: digit_is_def digit_of_def digit_val_def)

lemma to_char_digit: "unat q < r \<Longrightarrow> r \<le> 10 \<Longrightarrow> digit_is r (to_char q) (unat q)"
proof -
  assume *: "unat q < r" "r \<le> 10"
  have "unat (to_char q) = unat q + 48"
    using * by (simp add: to_char_def unat_word_ariths unsigned_ucast_eq take_bit_eq_mod)
  then have "uint (to_char q) = int (unat q) + 48"
    by (metis int_nat_eq of_nat_add of_nat_numeral uint_nonnegative unat_eq_nat_uint)
  moreover have "int (unat q) \<le> 9" using * by linarith
  then have "uint q \<le> 9" by simp
  ultimately show ?thesis using * by (auto simp: digit_is_def strtoul_digit_def word_le_def)
qed

lemma hexdigits_digit:
  assumes "k < 16"
  shows "digit_is 16 (hexdigits ! k) k"
proof -
  have "list_all (\<lambda>k. digit_is 16 (hexdigits ! k) k) [0..<16]"
    by (simp add: upt_rec hexdigits_def digit_is_def strtoul_digit_def word_le_def)
  then show ?thesis using assms by (simp add: list_all_iff)
qed


text \<open>What each loop adds in front of \<^verbatim>\<open>cp\<close> are digits of the base, and their value is \<^verbatim>\<open>_uquad\<close>.\<close>

definition represents :: "nat \<Rightarrow> nat \<Rightarrow> u8 list \<Rightarrow> u8 list \<Rightarrow> bool" where
  "represents r x cs cp =
     (\<exists>ds. cs = ds @ cp \<and> ds \<noteq> [] \<and> list_all (digit_of (int r)) ds \<and> digits_val r 0 ds = x)"

lemma digits_val_append: "digits_val r a (xs @ ys) = digits_val r (digits_val r a xs) ys"
  by (simp add: digits_val_def)

lemma represents_digit: "digit_is r c k \<Longrightarrow> represents r k (c # cp) cp"
  unfolding represents_def by (rule exI [of _ "[c]"]) (use digit_is_val [of r c k] in simp)

lemma represents_step:
  "represents r (x div r) cs (c # cp) \<Longrightarrow> digit_is r c (x mod r) \<Longrightarrow> represents r x cs cp"
  unfolding represents_def
proof (elim exE conjE)
  fix ds
  assume *: "digit_is r c (x mod r)" "cs = ds @ c # cp" "ds \<noteq> []" "list_all (digit_of (int r)) ds"
    "digits_val r 0 ds = x div r"
  show "\<exists>ds. cs = ds @ cp \<and> ds \<noteq> [] \<and> list_all (digit_of (int r)) ds \<and> digits_val r 0 ds = x"
    by (rule exI [of _ "ds @ [c]"]) (use * digit_is_val [OF *(1)] in \<open>simp add: digits_val_append\<close>)
qed

lemma oct_loop_represents: "represents 8 (unat q) (oct_loop q cp) cp"
proof (induction q cp rule: oct_loop.induct)
  case (1 q cp)
  have m: "unat (q AND 7) = unat q mod 8"
    using unat_take_bit_mod [of 3 q] by (simp add: take_bit_eq_mask mask_eq_exp_minus_1)
  have d: "unat (drop_bit 3 q) = unat q div 8" unfolding unat_drop_bit_eq unfolding drop_bit_eq_div by simp
  have dig: "digit_is 8 (to_char (q AND 7)) (unat q mod 8)" using to_char_digit [of "q AND 7" 8] m by simp
  show ?case
  proof (cases "drop_bit 3 q = 0")
    case True
    then have "unat q div 8 = 0" using d by simp
    then have "unat q mod 8 = unat q" by simp
    then show ?thesis using represents_digit [OF dig, of cp] True by (subst oct_loop.simps) simp
  next
    case False
    then show ?thesis
      using 1 [OF refl refl False] represents_step [OF _ dig] d by (subst oct_loop.simps) (simp add: Let_def)
  qed
qed

lemma hex_loop_represents: "represents 16 (unat q) (hex_loop hexdigits q cp) cp"
proof (induction hexdigits q cp rule: hex_loop.induct)
  case (1 q cp)
  have m: "unat (q AND 15) = unat q mod 16"
    using unat_take_bit_mod [of 4 q] by (simp add: take_bit_eq_mask mask_eq_exp_minus_1)
  have d: "unat (drop_bit 4 q) = unat q div 16" unfolding unat_drop_bit_eq unfolding drop_bit_eq_div by simp
  have dig: "digit_is 16 (hexdigits ! unat (q AND 15)) (unat q mod 16)"
    using hexdigits_digit [of "unat q mod 16"] m by simp
  show ?case
  proof (cases "drop_bit 4 q = 0")
    case True
    then have "unat q div 16 = 0" using d by simp
    then have "unat q mod 16 = unat q" by simp
    then show ?thesis using represents_digit [OF dig, of cp] True by (subst hex_loop.simps) simp
  next
    case False
    then show ?thesis
      using 1 [OF refl refl False] represents_step [OF _ dig] d by (subst hex_loop.simps) (simp add: Let_def)
  qed
qed

lemma dec_loop_represents: "represents 10 (unat q) (dec_loop q cp) cp"
proof (induction q cp rule: dec_loop.induct)
  case (1 q cp)
  show ?case
  proof (cases "10 \<le> q")
    case False
    then have "unat q < 10" by (simp add: word_le_nat_alt)
    then show ?thesis
      using represents_digit [OF to_char_digit, of q 10 cp] False by (subst dec_loop.simps) simp
  next
    case True
    have "digit_is 10 (to_char (q mod 10)) (unat q mod 10)"
      using to_char_digit [of "q mod 10" 10] by (simp add: unat_mod)
    moreover have "represents 10 (unat q div 10) (dec_loop q cp) (to_char (q mod 10) # cp)"
      using 1 [OF True] True by (subst dec_loop.simps) (simp add: unat_div)
    ultimately show ?thesis by (rule represents_step [rotated])
  qed
qed

lemma number_chars_represents:
  assumes "prec \<noteq> 0" "\<not> has_flag flags ALT"
  shows "represents (radix base) (unat q) (number_chars flags prec base hexdigits q) []"
  using assms oct_loop_represents [of q "[]"] dec_loop_represents [of q "[]"] hex_loop_represents [of q "[]"]
  by (cases base) (simp_all add: number_chars_def Let_def)

lemma representsD:
  "represents r x cs [] \<Longrightarrow> cs \<noteq> [] \<and> list_all (digit_of (int r)) cs \<and> digits_val r 0 cs = x"
  by (auto simp: represents_def)

text \<open>The run of \<^verbatim>\<open>kprintf\<close> on the format of one \<^verbatim>\<open>long\<close> conversion.\<close>

definition long_conv :: conv where
  "long_conv = \<lparr>cv_flags = LONGINT, cv_width = 0, cv_prec = - 1, cv_sign = 0\<rparr>"

definition long_neg :: "char \<Rightarrow> u64 \<Rightarrow> bool" where
  "long_neg c v = (c = CHR ''d'' \<and> sint v < 0)"

definition long_sign :: "char \<Rightarrow> u64 \<Rightarrow> u8" where
  "long_sign c v = (if long_neg c v then chr8 CHR ''-'' else 0)"

definition long_base :: "char \<Rightarrow> prbase" where
  "long_base c = (if c = CHR ''x'' then HEX else if c = CHR ''o'' then OCT else DEC)"

definition long_digits :: "char \<Rightarrow> u64 \<Rightarrow> u8 list" where
  "long_digits c v = number_chars LONGINT (- 1) (long_base c) hexdigits (if long_neg c v then - v else v)"

lemma number_chars_xdigs: "base \<noteq> HEX \<Longrightarrow> number_chars f p base xd q = number_chars f p base xd' q"
  by (cases base) (simp_all add: number_chars_def)

lemma conv_switch:
  "kprintf_switch fmt (chr8 CHR ''d'') cv st = kprintf_d fmt (chr8 CHR ''d'') cv st"
  "kprintf_switch fmt (chr8 CHR ''u'') cv st = kprintf_u fmt (chr8 CHR ''u'') cv DEC st"
  "kprintf_switch fmt (chr8 CHR ''o'') cv st = kprintf_u fmt (chr8 CHR ''o'') cv OCT st"
  "kprintf_switch fmt (chr8 CHR ''x'') cv st = kprintf_x fmt (chr8 CHR ''x'') cv hexdigits st"
  by (simp_all add: kprintf_switch_def kprintf_flag_def kprintf_conv_def is_digit_def to_digit_def)

lemma long_number:
  "kprintf_number fmt ch (long_conv\<lparr>cv_sign := sg\<rparr>) base xdigs q st =
     (let cs = number_chars LONGINT (- 1) base xdigs q
      in Inr (Field fmt ch (long_conv\<lparr>cv_sign := sg\<rparr>) (- 1) (Lit cs) (length cs) st))"
  by (simp add: kprintf_number_eq long_conv_def)

lemma long_conv_sign: "long_conv\<lparr>cv_sign := 0\<rparr> = long_conv"
  by (simp add: long_conv_def)

lemmas long_number0 = long_number [of _ _ 0, unfolded long_conv_sign]

lemma long_switch:
  assumes "kp_ap st = v # ap" "c \<in> {CHR ''d'', CHR ''u'', CHR ''x'', CHR ''o''}"
  shows "kprintf_switch fmt (of_char c) long_conv st =
      Inr (Field fmt (of_char c) (long_conv\<lparr>cv_sign := long_sign c v\<rparr>) (- 1)
        (Lit (long_digits c v)) (length (long_digits c v)) (st\<lparr>kp_ap := ap\<rparr>))"
proof -
  have va: "va_arg st = Inr (v, st\<lparr>kp_ap := ap\<rparr>)" using assms(1) by (simp add: va_arg_def)
  have arg: "SARG (cv_flags long_conv) v = v" "UARG (cv_flags long_conv) v = v"
    "\<not> has_flag (cv_flags long_conv) ALT"
    by (simp_all add: SARG_def UARG_def long_conv_def has_flag_def)
  have xd: "number_chars LONGINT (- 1) DEC [] q = number_chars LONGINT (- 1) DEC hexdigits q"
    "number_chars LONGINT (- 1) OCT [] q = number_chars LONGINT (- 1) OCT hexdigits q" for q
    by (rule number_chars_xdigs; simp)+
  note defs = va bindE_Inr prod.case arg kprintf_nosign_def long_number Let_def xd
    long_digits_def long_base_def long_sign_def long_neg_def
  consider "c = CHR ''d''" | "c = CHR ''u''" | "c = CHR ''x''" | "c = CHR ''o''"
    using assms(2) by blast
  then show ?thesis
  proof cases
    case 1
    show ?thesis
    proof (cases "sint v < 0")
      case True
      then show ?thesis unfolding 1 conv_switch kprintf_d_def defs by simp
    next
      case False
      then show ?thesis
        unfolding 1 conv_switch kprintf_d_def defs by (simp add: long_number0 long_conv_sign xd Let_def)
    qed
  next
    case 2
    show ?thesis unfolding 2 conv_switch kprintf_u_def defs by simp
  next
    case 3
    show ?thesis unfolding 3 conv_switch kprintf_x_def defs by (simp add: defs)
  next
    case 4
    show ?thesis unfolding 4 conv_switch kprintf_u_def defs by simp
  qed
qed

lemma long_directive:
  assumes "kp_mem st fmt = of_char c" "kp_ap st = v # ap" "c \<in> {CHR ''d'', CHR ''u'', CHR ''x'', CHR ''o''}"
  shows "kprintf_directive fmt (chr8 CHR ''l'') conv0 st =
      Some (Inr (Field (fmt + 1) (of_char c) (long_conv\<lparr>cv_sign := long_sign c v\<rparr>) (- 1)
        (Lit (long_digits c v)) (length (long_digits c v)) (st\<lparr>kp_ap := ap\<rparr>)))"
proof -
  have "kprintf_switch fmt (chr8 CHR ''l'') conv0 st = Inr (Rflag fmt long_conv st)"
    using assms(1,3) by (auto simp: kprintf_switch_def kprintf_flag_def conv0_def long_conv_def set_flag_def is_digit_def to_digit_def)
  then have 1: "kprintf_directive fmt (chr8 CHR ''l'') conv0 st = kprintf_directive (fmt + 1) (of_char c) long_conv st"
    using assms(1) by (subst kprintf_directive.simps) simp
  show ?thesis unfolding 1
    by (subst kprintf_directive.simps) (simp add: long_switch [OF assms(2,3)])
qed

lemma field_long:
  "kprintf_field ofl ch (long_conv\<lparr>cv_sign := sg\<rparr>) (- 1) (Lit cs) (length cs) st =
     puts ofl (if sg = 0 then cs else sg # cs)
       (st\<lparr>kp_ret := kp_ret st + int (length (if sg = 0 then cs else sg # cs))\<rparr>)"
  by (simp add: kprintf_field_def long_conv_def field_realsz_def has_flag_def put_chars_Lit puts_Cons)
    (simp add: add.commute)

definition long_text :: "char \<Rightarrow> u64 \<Rightarrow> u8 list" where
  "long_text c v = (if long_neg c v then [chr8 CHR ''-''] else []) @ long_digits c v"

lemma long_text_length: "length (long_text c v) \<le> 24"
  using number_chars_length [of LONGINT "- 1" "long_base c" hexdigits "if long_neg c v then - v else v"]
  by (auto simp: long_text_def long_digits_def KPRINTF_BUFSIZE_def split: if_splits)

text \<open>\<^verbatim>\<open>bmk_snprintf(bf, n, "%lu", v)\<close> and its variants leave the numeral and a NUL in the buffer.\<close>

lemma snprintf_long:
  assumes fmt: "bytes_at (kp_mem st) fmt [chr8 CHR ''%'', chr8 CHR ''l'', of_char c, 0]"
    and ap: "kp_ap st = v # ap" and c: "c \<in> {CHR ''d'', CHR ''u'', CHR ''x'', CHR ''o''}"
    and bf: "bf \<noteq> 0" "24 < n" "fmt + 3 < bf \<or> bf + n \<le> fmt"
  shows "\<exists>st'. bmk_vsnprintf bf n fmt st = Inr (int (length (long_text c v)), st') \<and>
    bytes_at (kp_mem st') bf (long_text c v @ [0])"
proof -
  let ?ofl = "TOBUFONLY (Some (bf + n))" and ?cs = "long_text c v"
  let ?st0 = "st\<lparr>kp_sbuf := bf, kp_ret := 0\<rparr>"
  have m: "kp_mem ?st0 fmt = chr8 CHR ''%''" "kp_mem ?st0 (fmt + 1) = chr8 CHR ''l''"
    "kp_mem ?st0 (fmt + 2) = of_char c" "kp_mem ?st0 (fmt + 3) = 0" "kp_ap ?st0 = v # ap"
    using fmt ap by (simp_all add: numeral_eq_Suc)
  have text_eq: "?cs = (if long_sign c v = 0 then long_digits c v else long_sign c v # long_digits c v)"
    by (simp add: long_text_def long_sign_def)
  let ?st1 = "?st0\<lparr>kp_ap := ap, kp_ret := int (length ?cs)\<rparr>"
  have dir: "kprintf_directive (fmt + 2) (kp_mem ?st0 (fmt + 1)) conv0 ?st0 =
      Some (Inr (Field (fmt + 3) (of_char c) (long_conv\<lparr>cv_sign := long_sign c v\<rparr>) (- 1)
        (Lit (long_digits c v)) (length (long_digits c v)) (?st0\<lparr>kp_ap := ap\<rparr>)))"
    using long_directive [OF m(3) m(5) c] unfolding m(2) by (simp add: numeral_eq_Suc)
  have field: "kprintf_field ?ofl (of_char c) (long_conv\<lparr>cv_sign := long_sign c v\<rparr>) (- 1)
        (Lit (long_digits c v)) (length (long_digits c v)) (?st0\<lparr>kp_ap := ap\<rparr>) = puts ?ofl ?cs ?st1"
    unfolding field_long text_eq [symmetric] by simp
  have 1: "kprintf_loop ?ofl fmt ?st0 = kprintf_loop ?ofl (fmt + 3) (puts ?ofl ?cs ?st1)"
    by (subst kprintf_loop.simps) (simp only: m(1) dir Let_def option.case sum.case switch.case field,
        simp)
  have buf: "puts ?ofl ?cs ?st1 = ?st1\<lparr>kp_mem := (\<lambda>x. if bf \<le> x \<and> x < bf + length ?cs \<and> x < bf + n
                      then ?cs ! (x - bf) else kp_mem st x), kp_sbuf := min (bf + n) (bf + length ?cs)\<rparr>"
    using puts_buf [of ?st1 "bf + n" ?cs] bf by (simp cong: if_cong)
  have "kp_mem (puts ?ofl ?cs ?st1) (fmt + 3) = 0"
    unfolding buf using m(4) bf long_text_length [of c v] by auto
  then have run: "kprintf ?ofl fmt (st\<lparr>kp_sbuf := bf\<rparr>) = Inr (puts ?ofl ?cs ?st1)"
    unfolding kprintf_def using 1 by (subst (asm) kprintf_loop.simps) simp
  define S where "S = puts ?ofl ?cs ?st1"
  have S: "kp_ret S = int (length ?cs)" "kp_mem S x =
      (if bf \<le> x \<and> x < bf + length ?cs \<and> x < bf + n then ?cs ! (x - bf) else kp_mem st x)" for x
    unfolding S_def buf by simp_all
  have len: "length ?cs < n" using bf(2) long_text_length [of c v] by simp
  show ?thesis
    unfolding bmk_vsnprintf_def run [folded S_def] bindE_Inr Let_def
    using bf len by (simp add: S bytes_at_nth nth_append)
qed

section \<open>Properties\<close>

text \<open>
  C35: \<^verbatim>\<open>bmk_strtoul\<close> reads back what \<^verbatim>\<open>bmk_snprintf\<close> prints. For each of the conversions
  \<^verbatim>\<open>%ld\<close>, \<^verbatim>\<open>%lu\<close>, \<^verbatim>\<open>%lx\<close> and \<^verbatim>\<open>%lo\<close>, every 64-bit value, and a buffer of more than 24
  bytes that does not overlap the format, the formatter returns, and parsing the buffer
  in the base of the conversion gives the value back and stops at the terminating NUL.
\<close>

theorem printf_strtoul_roundtrip:
  assumes "bytes_at (kp_mem st) fmt [chr8 CHR ''%'', chr8 CHR ''l'', of_char c, 0]"
    and "kp_ap st = v # ap" "c \<in> {CHR ''d'', CHR ''u'', CHR ''x'', CHR ''o''}"
    and "bf \<noteq> 0" "24 < n" "fmt + 3 < bf \<or> bf + n \<le> fmt"
  shows "\<exists>len st'. bmk_vsnprintf bf n fmt st = Inr (int len, st') \<and>
    bmk_strtoul (kp_mem st') bf
      (if c = CHR ''x'' then 16 else if c = CHR ''o'' then 8 else 10) = Inr (v, bf + len)"
proof -
  obtain st' where st': "bmk_vsnprintf bf n fmt st = Inr (int (length (long_text c v)), st')"
    "bytes_at (kp_mem st') bf (long_text c v @ [0])"
    using snprintf_long [OF assms] by blast
  let ?q = "if long_neg c v then - v else v" and ?sg = "if long_neg c v then [45] else [] :: u8 list"
  let ?base = "if c = CHR ''x'' then 16 else if c = CHR ''o'' then 8 else 10 :: int"
  have base: "?base = int (radix (long_base c))" by (simp add: long_base_def)
  have "represents (radix (long_base c)) (unat ?q) (long_digits c v) []"
    unfolding long_digits_def by (rule number_chars_represents) (simp_all add: has_flag_def)
  note rep = representsD [OF this]
  have eff: "effective_base ?base [] (long_digits c v) = ?base" by (simp add: effective_base_def)
  have "\<not> digit_of b 0" for b by (simp add: digit_of_def strtoul_digit_def word_le_def)
  then have num: "numeral_text ?base [] ?sg [] (long_digits c v) 0"
    using rep unfolding numeral_text_def eff base [symmetric] by (auto split: if_splits)
  have at: "bytes_at (kp_mem st') bf ([] @ ?sg @ [] @ long_digits c v @ [0])"
    using st'(2) by (cases "long_neg c v") (simp_all add: long_text_def)
  have q: "unat ?q < 2 ^ 64" using unsigned_less [of ?q] by simp
  have val: "digits_val (nat ?base) 0 (long_digits c v) = unat ?q" using rep unfolding base by simp
  have "bmk_strtoul (kp_mem st') bf ?base = Inr (v, bf + length (long_text c v))"
    using q unfolding bmk_strtoul_parses [OF num at] eff val Let_def
    by (cases "long_neg c v") (simp_all add: long_text_def)
  then show ?thesis using st'(1) by blast
qed


definition demo_kp :: kp where
  "demo_kp = \<lparr>kp_mem = (\<lambda>x. if x < 4 then [chr8 CHR ''%'', chr8 CHR ''l'', chr8 CHR ''d'', 0] ! x else 255),
     kp_ap = [- 42], kp_sbuf = 0, kp_dmesg = replicate BMK_DMESG_SIZE 0, kp_dmesgoff = 0,
     kp_putc = [], kp_ret = 0\<rparr>"

theorem printf_strtoul_roundtrip_witness:
  "\<exists>len st'. bmk_vsnprintf 256 64 0 demo_kp = Inr (int len, st') \<and>
    bmk_strtoul (kp_mem st') 256 10 = Inr (- 42, 256 + len)"
  using printf_strtoul_roundtrip [of demo_kp 0 "CHR ''d''" "- 42" "[]" 256 64]
  by (simp add: demo_kp_def)



text \<open>
  C38: the console formatter returns exactly the number of characters it has handed to
  \<^verbatim>\<open>v_putc\<close>, whatever the flags, widths, precisions and conversions of the format are.
\<close>

theorem vprintf_counts:
  assumes "bmk_vprintf fmt st = Inr st'"
  shows "\<exists>out. kp_putc st' = kp_putc st @ out \<and> kp_ret st' = int (length out)"
  using kprintf_cons_inv assms unfolding bmk_vprintf_def by blast

theorem vprintf_counts_witness:
  "\<exists>st' out. bmk_vprintf 0 (demo_kp\<lparr>kp_mem := (\<lambda>x. [72, 105, 37, 37, 0] ! x)\<rparr>) = Inr st' \<and>
    kp_putc st' = out \<and> kp_ret st' = int (length out)"
proof -
  have "\<exists>st'. bmk_vprintf 0 (demo_kp\<lparr>kp_mem := (\<lambda>x. [72, 105, 37, 37, 0] ! x)\<rparr>) = Inr st'"
    by (simp add: bmk_vprintf_def kprintf_def demo_kp_def kprintf_loop.simps cons_putchar_def
        kprintf_directive.simps kprintf_switch_def kprintf_flag_def kprintf_conv_def conv0_def
        is_digit_def to_digit_def kprintf_field_def field_realsz_def has_flag_def)
  then obtain st' where run: "bmk_vprintf 0 (demo_kp\<lparr>kp_mem := (\<lambda>x. [72, 105, 37, 37, 0] ! x)\<rparr>) = Inr st'" ..
  show ?thesis using vprintf_counts [OF run] run by (simp add: demo_kp_def)
qed

text \<open>
  C39: the local buffer of \<^verbatim>\<open>kprintf\<close> is just large enough: no conversion writes in front
  of its \<^verbatim>\<open>KPRINTF_BUFSIZE\<close> bytes, and \<^verbatim>\<open>%#lo\<close> of the largest value uses all of them.
\<close>

theorem kprintf_buffer_fits:
  "(\<exists>sw. kprintf_number fmt ch cv base xdigs q st = Inr sw) \<and>
   length (number_chars ALT (- 1) OCT xdigs 0xFFFFFFFFFFFFFFFF) = KPRINTF_BUFSIZE"
  using number_chars_tight by (simp add: kprintf_number_eq Let_def)

text \<open>
  C33: \<^verbatim>\<open>bmk_strtoul\<close> on a numeral: white space, a sign, an optional \<^verbatim>\<open>0x\<close> prefix where the base
  admits it, digits of the base that is in effect, and a byte that is no such digit. A value
  that fits 64 bits is returned (negated modulo \<open>2 ^ 64\<close> behind a minus sign) with the end
  pointer behind the digits; a larger one gives the largest value, and then the end pointer
  is the start of the text, as if there had been no digits.
\<close>

theorem bmk_strtoul_spec:
  assumes "numeral_text base ws sg pre ds e"
    and "bytes_at m nptr (ws @ sg @ pre @ ds @ [e])"
  shows "bmk_strtoul m nptr base =
    (let v = digits_val (nat (effective_base base pre ds)) 0 ds in
     Inr (if v < 2 ^ 64
          then (if sg = [45] then - of_nat v else of_nat v, nptr + length (ws @ sg @ pre @ ds))
          else (- 1, nptr)))"
  by (rule bmk_strtoul_parses [OF assms])

theorem bmk_strtoul_spec_witness:
  "bmk_strtoul (\<lambda>x. if x < 7 then [32, 45, 48, 120, 49, 102, 44] ! x else 0) 0 0 = Inr (- 31, 6)"
  using bmk_strtoul_spec [of 0 "[32]" "[45]" "[48, 120]" "[49, 102]" 44
      "\<lambda>x. if x < 7 then [32, 45, 48, 120, 49, 102, 44] ! x else 0" 0]
  by (simp add: numeral_text_def effective_base_def is_space_def digit_of_def strtoul_digit_def
      word_le_def digit_val_def)

end
