(* ===== verification/Jsmn.thy ===== *)
theory Jsmn
  imports Prelude
begin

text \<open>
  The JSON tokenizer of \<^verbatim>\<open>lib/libbmk_core/jsmn.c\<close>, as it is compiled here: neither
  \<^verbatim>\<open>JSMN_STRICT\<close> nor \<^verbatim>\<open>JSMN_PARENT_LINKS\<close> is defined. The text is the list of its \<open>len\<close>
  bytes and the token array the list of its \<open>num_tokens\<close> tokens, or \<open>None\<close> for the null
  pointer of a counting run. Positions are natural numbers, which is the behaviour of the
  code for texts shorter than \<open>2 ^ 31\<close> bytes; an access outside the token array is
  \<open>Undefined\<close>.
\<close>

section \<open>Tokens and parser state\<close>

datatype jsmntype_t = JSMN_PRIMITIVE | JSMN_OBJECT | JSMN_ARRAY | JSMN_STRING

datatype jsmnerr_t = JSMN_ERROR_NOMEM | JSMN_ERROR_INVAL | JSMN_ERROR_PART

record jsmntok_t =
  tk_type :: jsmntype_t
  tk_start :: int
  tk_end :: int
  tk_size :: int

record jsmn_parser =
  js_pos :: nat
  js_toknext :: nat
  js_toksuper :: int

type_synonym tokens = "jsmntok_t list option"

definition jsmn_init :: jsmn_parser where
  "jsmn_init = \<lparr>js_pos = 0, js_toknext = 0, js_toksuper = - 1\<rparr>"

definition jsmn_alloc_token ::
  "jsmn_parser \<Rightarrow> jsmntok_t list \<Rightarrow> (nat \<times> jsmn_parser \<times> jsmntok_t list) option" where
  "jsmn_alloc_token p ts =
     (if length ts \<le> js_toknext p then None
      else let i = js_toknext p in
        Some (i, p\<lparr>js_toknext := i + 1\<rparr>,
              ts[i := (ts ! i)\<lparr>tk_start := - 1, tk_end := - 1, tk_size := 0\<rparr>]))"

definition jsmn_fill_token ::
  "jsmntok_t list \<Rightarrow> nat \<Rightarrow> jsmntype_t \<Rightarrow> int \<Rightarrow> int \<Rightarrow> jsmntok_t list" where
  "jsmn_fill_token ts i ty st en =
     ts[i := (ts ! i)\<lparr>tk_type := ty, tk_start := st, tk_end := en, tk_size := 0\<rparr>]"

section \<open>Primitives\<close>

definition primitive_end :: "u8 \<Rightarrow> bool" where
  "primitive_end c =
     (c = chr8 CHR '':'' \<or> c = 9 \<or> c = 13 \<or> c = 10 \<or> c = chr8 CHR '' '' \<or>
      c = chr8 CHR '','' \<or> c = chr8 CHR '']'' \<or> c = chr8 CHR ''}'')"

text \<open>The loop of \<^verbatim>\<open>jsmn_parse_primitive\<close>; \<open>None\<close> is the invalid character.\<close>

function primitive_scan :: "u8 list \<Rightarrow> nat \<Rightarrow> nat option" where
  "primitive_scan js pos =
     (if pos < length js \<and> js ! pos \<noteq> 0 then
        if primitive_end (js ! pos) then Some pos
        else if sint (js ! pos) < 32 \<or> 127 \<le> sint (js ! pos) then None
        else primitive_scan js (pos + 1)
      else Some pos)"
  by auto
termination
  by (relation "measure (\<lambda>(js, pos). length js - pos)") auto

declare primitive_scan.simps [simp del]

text \<open>A returned \<open>None\<close> in the first component is the value 0.\<close>

definition jsmn_parse_primitive ::
  "jsmn_parser \<Rightarrow> u8 list \<Rightarrow> tokens \<Rightarrow> jsmnerr_t option \<times> jsmn_parser \<times> tokens" where
  "jsmn_parse_primitive p js tokens =
     (let start = js_pos p in
      case primitive_scan js start of
        None \<Rightarrow> (Some JSMN_ERROR_INVAL, p\<lparr>js_pos := start\<rparr>, tokens)
      | Some pos \<Rightarrow>
          (case tokens of
             None \<Rightarrow> (None, p\<lparr>js_pos := pos - 1\<rparr>, tokens)
           | Some ts \<Rightarrow>
               (case jsmn_alloc_token p ts of
                  None \<Rightarrow> (Some JSMN_ERROR_NOMEM, p\<lparr>js_pos := start\<rparr>, tokens)
                | Some (i, p, ts) \<Rightarrow>
                    (None, p\<lparr>js_pos := pos - 1\<rparr>,
                     Some (jsmn_fill_token ts i JSMN_PRIMITIVE (int start) (int pos))))))"

section \<open>Strings\<close>

definition hex_char :: "u8 \<Rightarrow> bool" where
  "hex_char c = ((48 \<le> c \<and> c \<le> 57) \<or> (65 \<le> c \<and> c \<le> 70) \<or> (97 \<le> c \<and> c \<le> 102))"

text \<open>The loop over the digits of \<^verbatim>\<open>\uXXXX\<close>; \<open>None\<close> is a character that is no digit.\<close>

fun hex_scan :: "u8 list \<Rightarrow> nat \<Rightarrow> nat \<Rightarrow> nat option" where
  "hex_scan js pos 0 = Some pos"
| "hex_scan js pos (Suc i) =
     (if pos < length js \<and> js ! pos \<noteq> 0 then
        if hex_char (js ! pos) then hex_scan js (pos + 1) i else None
      else Some pos)"

datatype string_end = Quote nat | Inval | Part

definition escape_ok :: "u8 \<Rightarrow> bool" where
  "escape_ok c =
     (c = 34 \<or> c = chr8 CHR ''/'' \<or> c = 92 \<or> c = chr8 CHR ''b'' \<or> c = chr8 CHR ''f'' \<or>
      c = chr8 CHR ''r'' \<or> c = chr8 CHR ''n'' \<or> c = chr8 CHR ''t'')"

lemma hex_scan_mono: "hex_scan js pos i = Some pos' \<Longrightarrow> pos \<le> pos' \<and> pos' \<le> pos + i"
  by (induction js pos i rule: hex_scan.induct) (auto split: if_splits)

function string_scan :: "u8 list \<Rightarrow> nat \<Rightarrow> string_end" where
  "string_scan js pos =
     (if pos < length js \<and> js ! pos \<noteq> 0 then
        if js ! pos = 34 then Quote pos
        else if js ! pos = 92 \<and> pos + 1 < length js then
          if escape_ok (js ! (pos + 1)) then string_scan js (pos + 2)
          else if js ! (pos + 1) = chr8 CHR ''u'' then
            (case hex_scan js (pos + 2) 4 of
               None \<Rightarrow> Inval
             | Some pos' \<Rightarrow> string_scan js (pos' - 1 + 1))
          else Inval
        else string_scan js (pos + 1)
      else Part)"
  by auto
termination
  by (relation "measure (\<lambda>(js, pos). length js - pos)") (auto dest!: hex_scan_mono)

declare string_scan.simps [simp del]

definition jsmn_parse_string ::
  "jsmn_parser \<Rightarrow> u8 list \<Rightarrow> tokens \<Rightarrow> jsmnerr_t option \<times> jsmn_parser \<times> tokens" where
  "jsmn_parse_string p js tokens =
     (let start = js_pos p in
      case string_scan js (start + 1) of
        Inval \<Rightarrow> (Some JSMN_ERROR_INVAL, p\<lparr>js_pos := start\<rparr>, tokens)
      | Part \<Rightarrow> (Some JSMN_ERROR_PART, p\<lparr>js_pos := start\<rparr>, tokens)
      | Quote pos \<Rightarrow>
          (case tokens of
             None \<Rightarrow> (None, p\<lparr>js_pos := pos\<rparr>, tokens)
           | Some ts \<Rightarrow>
               (case jsmn_alloc_token p ts of
                  None \<Rightarrow> (Some JSMN_ERROR_NOMEM, p\<lparr>js_pos := start\<rparr>, tokens)
                | Some (i, p, ts) \<Rightarrow>
                    (None, p\<lparr>js_pos := pos\<rparr>,
                     Some (jsmn_fill_token ts i JSMN_STRING (int start + 1) (int pos))))))"

section \<open>The parser\<close>

definition tk_open :: "jsmntok_t \<Rightarrow> bool" where
  "tk_open t = (tk_start t \<noteq> - 1 \<and> tk_end t = - 1)"

text \<open>\<^verbatim>\<open>for (i = n - 1; i >= 0; i--)\<close> up to the first open token.\<close>

fun find_open :: "jsmntok_t list \<Rightarrow> nat \<Rightarrow> nat option" where
  "find_open ts 0 = None"
| "find_open ts (Suc i) = (if tk_open (ts ! i) then Some i else find_open ts i)"

definition is_container :: "jsmntok_t \<Rightarrow> bool" where
  "is_container t = (tk_type t = JSMN_ARRAY \<or> tk_type t = JSMN_OBJECT)"

fun find_open_container :: "jsmntok_t list \<Rightarrow> nat \<Rightarrow> nat option" where
  "find_open_container ts 0 = None"
| "find_open_container ts (Suc i) =
     (if is_container (ts ! i) \<and> tk_open (ts ! i) then Some i else find_open_container ts i)"

text \<open>\<^verbatim>\<open>if (parser->toksuper != -1 && tokens != NULL) tokens[parser->toksuper].size++\<close>\<close>

definition bump_super :: "jsmn_parser \<Rightarrow> tokens \<Rightarrow> tokens res" where
  "bump_super p tokens =
     (case tokens of
        None \<Rightarrow> Inr None
      | Some ts \<Rightarrow>
          if js_toksuper p = - 1 then Inr tokens
          else let i = nat (js_toksuper p) in
            if 0 \<le> js_toksuper p \<and> i < length ts
            then Inr (Some (ts[i := (ts ! i)\<lparr>tk_size := tk_size (ts ! i) + 1\<rparr>]))
            else Inl (Undefined ''tokens[toksuper]''))"

text \<open>
  One pass through the \<^verbatim>\<open>switch\<close>: an early return of an error, or the state and the count
  with which the loop goes on.
\<close>

type_synonym js_result = "(jsmnerr_t + jsmn_parser \<times> tokens \<times> nat) res"

definition open_bracket :: "u8 \<Rightarrow> jsmn_parser \<Rightarrow> tokens \<Rightarrow> nat \<Rightarrow> js_result" where
  "open_bracket c p tokens count =
     (case tokens of
        None \<Rightarrow> Inr (Inr (p, tokens, count + 1))
      | Some ts \<Rightarrow>
          (case jsmn_alloc_token p ts of
             None \<Rightarrow> Inr (Inl JSMN_ERROR_NOMEM)
           | Some (i, p, ts) \<Rightarrow>
               bindE (bump_super p (Some ts)) (\<lambda>tokens.
                 let ts = the tokens;
                     ts = ts[i := (ts ! i)\<lparr>
                       tk_type := (if c = chr8 CHR ''{'' then JSMN_OBJECT else JSMN_ARRAY),
                       tk_start := int (js_pos p)\<rparr>]
                 in Inr (Inr (p\<lparr>js_toksuper := int (js_toknext p) - 1\<rparr>, Some ts, count + 1)))))"

definition close_bracket :: "u8 \<Rightarrow> jsmn_parser \<Rightarrow> tokens \<Rightarrow> nat \<Rightarrow> js_result" where
  "close_bracket c p tokens count =
     (case tokens of
        None \<Rightarrow> Inr (Inr (p, tokens, count))
      | Some ts \<Rightarrow>
          let ty = (if c = chr8 CHR ''}'' then JSMN_OBJECT else JSMN_ARRAY) in
          (case find_open ts (js_toknext p) of
             None \<Rightarrow> Inr (Inl JSMN_ERROR_INVAL)
           | Some i \<Rightarrow>
               if tk_type (ts ! i) \<noteq> ty then Inr (Inl JSMN_ERROR_INVAL)
               else
                 let ts = ts[i := (ts ! i)\<lparr>tk_end := int (js_pos p) + 1\<rparr>];
                     super = (case find_open ts (i + 1) of None \<Rightarrow> - 1 | Some j \<Rightarrow> int j)
                 in Inr (Inr (p\<lparr>js_toksuper := super\<rparr>, Some ts, count))))"

definition comma :: "jsmn_parser \<Rightarrow> tokens \<Rightarrow> nat \<Rightarrow> js_result" where
  "comma p tokens count =
     (case tokens of
        None \<Rightarrow> Inr (Inr (p, tokens, count))
      | Some ts \<Rightarrow>
          if js_toksuper p < 0 \<or> length ts \<le> nat (js_toksuper p)
          then Inl (Undefined ''tokens[toksuper]'')
          else if is_container (ts ! nat (js_toksuper p)) then Inr (Inr (p, tokens, count))
          else
            (case find_open_container ts (js_toknext p) of
               None \<Rightarrow> Inr (Inr (p, tokens, count))
             | Some i \<Rightarrow> Inr (Inr (p\<lparr>js_toksuper := int i\<rparr>, tokens, count))))"

definition scalar ::
  "jsmnerr_t option \<times> jsmn_parser \<times> tokens \<Rightarrow> nat \<Rightarrow> js_result" where
  "scalar r count =
     (case r of
        (Some e, p, tokens) \<Rightarrow> Inr (Inl e)
      | (None, p, tokens) \<Rightarrow>
          bindE (bump_super p tokens) (\<lambda>tokens. Inr (Inr (p, tokens, count + 1))))"

definition jsmn_step :: "u8 list \<Rightarrow> jsmn_parser \<Rightarrow> tokens \<Rightarrow> nat \<Rightarrow> js_result" where
  "jsmn_step js p tokens count =
     (let c = js ! js_pos p in
      if c = chr8 CHR ''{'' \<or> c = chr8 CHR ''['' then open_bracket c p tokens count
      else if c = chr8 CHR ''}'' \<or> c = chr8 CHR '']'' then close_bracket c p tokens count
      else if c = 34 then scalar (jsmn_parse_string p js tokens) count
      else if c = 9 \<or> c = 13 \<or> c = 10 \<or> c = chr8 CHR '' '' then Inr (Inr (p, tokens, count))
      else if c = chr8 CHR '':'' then
        Inr (Inr (p\<lparr>js_toksuper := int (js_toknext p) - 1\<rparr>, tokens, count))
      else if c = chr8 CHR '','' then comma p tokens count
      else scalar (jsmn_parse_primitive p js tokens) count)"

definition jsmn_finish :: "jsmn_parser \<Rightarrow> tokens \<Rightarrow> nat \<Rightarrow> (jsmnerr_t + nat) res" where
  "jsmn_finish p tokens count =
     (case tokens of
        None \<Rightarrow> if js_toknext p = 0 then Inr (Inr count) else Inl (Undefined ''tokens'')
      | Some ts \<Rightarrow>
          if find_open ts (js_toknext p) \<noteq> None then Inr (Inl JSMN_ERROR_PART)
          else Inr (Inr count))"

text \<open>
  The loop. The result holds the final parser and tokens beside the returned value; after an
  early return they are those of the last iteration that was entered.
\<close>

partial_function (option) jsmn_loop ::
  "u8 list \<Rightarrow> jsmn_parser \<Rightarrow> tokens \<Rightarrow> nat \<Rightarrow> ((jsmnerr_t + nat) \<times> jsmn_parser \<times> tokens) res option" where
  "jsmn_loop js p tokens count =
     (if js_pos p < length js \<and> js ! js_pos p \<noteq> 0 then
        (case jsmn_step js p tokens count of
           Inl e \<Rightarrow> Some (Inl e)
         | Inr r \<Rightarrow>
             (case r of
                Inl e \<Rightarrow> Some (Inr (Inl e, p, tokens))
              | Inr s \<Rightarrow>
                  (case s of (p, tokens, count) \<Rightarrow>
                     jsmn_loop js (p\<lparr>js_pos := js_pos p + 1\<rparr>) tokens count)))
      else Some (bindE (jsmn_finish p tokens count) (\<lambda>r. Inr (r, p, tokens))))"

declare jsmn_loop.simps [code]

definition jsmn_parse ::
  "jsmn_parser \<Rightarrow> u8 list \<Rightarrow> tokens \<Rightarrow> ((jsmnerr_t + nat) \<times> jsmn_parser \<times> tokens) res option" where
  "jsmn_parse p js tokens = jsmn_loop js p tokens 0"

section \<open>Positions\<close>

lemma primitive_scan_bounds:
  "primitive_scan js pos = Some pos' \<Longrightarrow> pos \<le> length js \<Longrightarrow> pos \<le> pos' \<and> pos' \<le> length js"
  by (induction js pos rule: primitive_scan.induct)
    (subst (asm) (2) primitive_scan.simps, auto split: if_splits)

lemma primitive_scan_progress:
  assumes "primitive_scan js pos = Some pos'" "pos < length js" "js ! pos \<noteq> 0" "\<not> primitive_end (js ! pos)"
  shows "pos < pos' \<and> pos' \<le> length js"
proof -
  have "primitive_scan js (pos + 1) = Some pos'"
    using assms by (subst (asm) primitive_scan.simps) (auto split: if_splits)
  then show ?thesis using primitive_scan_bounds [of js "pos + 1" pos'] assms(2) by simp
qed

lemma string_scan_bounds:
  "string_scan js pos = Quote pos' \<Longrightarrow> pos \<le> pos' \<and> pos' < length js \<and> js ! pos' = 34"
proof (induction "length js - pos" arbitrary: pos rule: less_induct)
  case less
  have IH: "pos < pos' \<and> pos' < length js \<and> js ! pos' = 34"
    if "pos < q" "pos < length js" "string_scan js q = Quote pos'" for q
    using less(1) [of q] that by fastforce
  have IHx: "pos < pos' \<and> pos' < length js \<and> js ! pos' = 34"
    if "hex_scan js (pos + 2) 4 = Some q" "pos < length js" "string_scan js (q - 1 + 1) = Quote pos'" for q
    using IH [of "q - 1 + 1"] that hex_scan_mono [OF that(1)] by simp
  consider "\<not> (pos < length js \<and> js ! pos \<noteq> 0)" | "pos < length js" "js ! pos = 34"
    | "pos < length js" "string_scan js (pos + 1) = Quote pos'"
    | "pos < length js" "string_scan js (pos + 2) = Quote pos'"
    | q where "pos < length js" "hex_scan js (pos + 2) 4 = Some q" "string_scan js (q - 1 + 1) = Quote pos'"
    using less(2) by (subst (asm) string_scan.simps) (auto split: if_splits option.splits)
  then show ?case
  proof cases
    case 1
    then show ?thesis using less(2) by (subst (asm) string_scan.simps) (simp split: if_splits)
  next
    case 2
    then show ?thesis using less(2) by (subst (asm) string_scan.simps) (simp split: if_splits)
  next
    case 5
    then show ?thesis using IHx by auto
  qed (use IH [of "pos + 1"] IH [of "pos + 2"] in auto)
qed

text \<open>
  What one iteration does to the position: it never moves back, and the next one starts
  inside or at the end of the text.
\<close>

lemma alloc_pos: "jsmn_alloc_token p ts = Some (i, p', ts') \<Longrightarrow> js_pos p' = js_pos p"
  by (auto simp: jsmn_alloc_token_def Let_def split: if_splits)

lemma scalar_pos:
  "scalar r count = Inr (Inr (p', tokens', count')) \<Longrightarrow>
     \<exists>tokens. r = (None, p', tokens) \<and> bump_super p' tokens = Inr tokens' \<and> count' = count + 1"
  by (auto simp: scalar_def bindE_eq_Inr split: prod.splits option.splits)

lemma parse_string_pos:
  assumes "jsmn_parse_string p js tokens = (None, p', tokens')"
  shows "js_pos p < js_pos p' \<and> js_pos p' < length js"
  using assms string_scan_bounds [of js "js_pos p + 1"]
  by (auto simp: jsmn_parse_string_def Let_def split: string_end.splits option.splits)

lemma parse_primitive_pos:
  assumes "jsmn_parse_primitive p js tokens = (None, p', tokens')"
    and "js_pos p < length js" "js ! js_pos p \<noteq> 0" "\<not> primitive_end (js ! js_pos p)"
  shows "js_pos p \<le> js_pos p' \<and> js_pos p' < length js"
  using assms primitive_scan_progress [of js "js_pos p"]
  by (auto simp: jsmn_parse_primitive_def Let_def split: option.splits)

lemma jsmn_step_pos:
  assumes "jsmn_step js p tokens count = Inr (Inr (p', tokens', count'))"
    and "js_pos p < length js" "js ! js_pos p \<noteq> 0"
  shows "js_pos p \<le> js_pos p' \<and> js_pos p' < length js"
proof -
  let ?c = "js ! js_pos p"
  have ob: "js_pos p' = js_pos p" if "open_bracket c p tokens count = Inr (Inr (p', tokens', count'))" for c
    using that alloc_pos by (auto simp: open_bracket_def bindE_eq_Inr Let_def split: option.splits)
  have cb: "js_pos p' = js_pos p" if "close_bracket c p tokens count = Inr (Inr (p', tokens', count'))" for c
    using that by (auto simp: close_bracket_def Let_def split: option.splits if_splits)
  have co: "js_pos p' = js_pos p" if "comma p tokens count = Inr (Inr (p', tokens', count'))"
    using that by (auto simp: comma_def split: option.splits if_splits)
  have st: "js_pos p \<le> js_pos p' \<and> js_pos p' < length js"
    if "scalar (jsmn_parse_string p js tokens) count = Inr (Inr (p', tokens', count'))"
    using scalar_pos [OF that] parse_string_pos [of p js tokens p'] by fastforce
  have pr: "js_pos p \<le> js_pos p' \<and> js_pos p' < length js"
    if "scalar (jsmn_parse_primitive p js tokens) count = Inr (Inr (p', tokens', count'))" "\<not> primitive_end ?c"
    using scalar_pos [OF that(1)] parse_primitive_pos [OF _ assms(2,3) that(2)] by auto
  show ?thesis
    using assms unfolding jsmn_step_def Let_def primitive_end_def
    by (auto split: if_splits dest!: ob cb co st pr simp: primitive_end_def)
qed

text \<open>Hence the loop ends, whatever the text and the tokens are.\<close>

lemma jsmn_loop_returns: "\<exists>r. jsmn_loop js p tokens count = Some r"
proof (induction "length js - js_pos p" arbitrary: p tokens count rule: less_induct)
  case less
  show ?case
  proof (cases "js_pos p < length js \<and> js ! js_pos p \<noteq> 0")
    case True
    show ?thesis
    proof (cases "\<exists>p' tokens' count'. jsmn_step js p tokens count = Inr (Inr (p', tokens', count'))")
      case go: True
      then obtain p' tokens' count' where go: "jsmn_step js p tokens count = Inr (Inr (p', tokens', count'))" by blast
      have "js_pos p \<le> js_pos p'" using jsmn_step_pos [OF go] True by simp
      then have "\<exists>r. jsmn_loop js (p'\<lparr>js_pos := js_pos p' + 1\<rparr>) tokens' count' = Some r"
        using True by (intro less) (simp, linarith)
      then show ?thesis using True go by (subst jsmn_loop.simps) simp
    next
      case False
      then show ?thesis using True by (subst jsmn_loop.simps) (auto split: sum.split)
    qed
  next
    case False
    then show ?thesis by (subst jsmn_loop.simps) auto
  qed
qed

section \<open>Counting runs\<close>

text \<open>
  A run without tokens and a run with tokens go through the text in lockstep, as long as
  the latter finds neither a missing bracket nor the array full.
\<close>

definition lockstep :: "jsmn_parser \<Rightarrow> jsmn_parser \<Rightarrow> bool" where
  "lockstep p q = (js_pos q = js_pos p \<and> js_toknext q = 0)"

lemma bump_super_None [simp]: "bump_super p None = Inr None"
  by (simp add: bump_super_def)

lemma bump_super_length:
  "bump_super p (Some ts) = Inr tokens \<Longrightarrow> \<exists>ts'. tokens = Some ts' \<and> length ts' = length ts"
  by (auto simp: bump_super_def Let_def split: if_splits)

lemma alloc_token_Some:
  "jsmn_alloc_token p ts = Some (i, p', ts') \<longleftrightarrow>
     js_toknext p < length ts \<and> i = js_toknext p \<and> p' = p\<lparr>js_toknext := js_toknext p + 1\<rparr> \<and>
     ts' = ts[js_toknext p := (ts ! js_toknext p)\<lparr>tk_start := - 1, tk_end := - 1, tk_size := 0\<rparr>]"
  by (auto simp: jsmn_alloc_token_def Let_def)

lemma alloc_token_None: "jsmn_alloc_token p ts = None \<longleftrightarrow> length ts \<le> js_toknext p"
  by (simp add: jsmn_alloc_token_def Let_def)

lemma string_lockstep:
  assumes "lockstep p q"
  shows "case jsmn_parse_string p js (Some ts) of
      (None, p', tokens') \<Rightarrow> (\<exists>q' ts'. tokens' = Some ts' \<and> length ts' = length ts \<and>
          js_toknext p' = js_toknext p + 1 \<and>
          jsmn_parse_string q js None = (None, q', None) \<and> lockstep p' q')
    | (Some e, p', tokens') \<Rightarrow> e = JSMN_ERROR_NOMEM \<longrightarrow>
        length ts \<le> js_toknext p \<and> (\<exists>q'. jsmn_parse_string q js None = (None, q', None))"
  using assms
  by (auto simp: jsmn_parse_string_def lockstep_def Let_def alloc_token_Some alloc_token_None
      jsmn_fill_token_def split: string_end.splits option.splits)

lemma primitive_lockstep:
  assumes "lockstep p q"
  shows "case jsmn_parse_primitive p js (Some ts) of
      (None, p', tokens') \<Rightarrow> (\<exists>q' ts'. tokens' = Some ts' \<and> length ts' = length ts \<and>
          js_toknext p' = js_toknext p + 1 \<and>
          jsmn_parse_primitive q js None = (None, q', None) \<and> lockstep p' q')
    | (Some e, p', tokens') \<Rightarrow> e = JSMN_ERROR_NOMEM \<longrightarrow>
        length ts \<le> js_toknext p \<and> (\<exists>q'. jsmn_parse_primitive q js None = (None, q', None))"
  using assms
  by (auto simp: jsmn_parse_primitive_def lockstep_def Let_def alloc_token_Some alloc_token_None
      jsmn_fill_token_def split: option.splits)

lemma scalar_lockstep:
  assumes "case r of
      (None, p', tokens') \<Rightarrow> (\<exists>q' ts'. tokens' = Some ts' \<and> length ts' = length ts \<and>
          js_toknext p' = js_toknext p + 1 \<and> s = (None, q', None) \<and> lockstep p' q')
    | (Some e, p', tokens') \<Rightarrow> e = JSMN_ERROR_NOMEM \<longrightarrow>
        length ts \<le> js_toknext p \<and> (\<exists>q'. s = (None, q', None))"
  shows "scalar r c = Inr (Inr (p', tokens', c')) \<Longrightarrow>
      (\<exists>q' ts'. tokens' = Some ts' \<and> length ts' = length ts \<and> lockstep p' q' \<and>
         js_toknext p' + c = js_toknext p + c' \<and> scalar s c = Inr (Inr (q', None, c')))"
    and "scalar r c = Inr (Inl JSMN_ERROR_NOMEM) \<Longrightarrow>
      length ts \<le> js_toknext p \<and> (\<exists>q'. scalar s c = Inr (Inr (q', None, c + 1)))"
proof -
  obtain e p1 t1 where r: "r = (e, p1, t1)" by (cases r)
  assume ok: "scalar r c = Inr (Inr (p', tokens', c'))"
  then have e: "e = None" "p' = p1" "c' = c + 1" "bump_super p1 t1 = Inr tokens'"
    using scalar_pos [OF ok] r by auto
  then obtain q' ts1 where t: "t1 = Some ts1" "length ts1 = length ts" "js_toknext p1 = js_toknext p + 1"
    "s = (None, q', None)" "lockstep p1 q'" using assms r by auto
  obtain ts' where "tokens' = Some ts'" "length ts' = length ts1" using bump_super_length e t by blast
  then show "\<exists>q' ts'. tokens' = Some ts' \<and> length ts' = length ts \<and> lockstep p' q' \<and>
         js_toknext p' + c = js_toknext p + c' \<and> scalar s c = Inr (Inr (q', None, c'))"
    using e t by (auto simp: scalar_def)
next
  obtain e p1 t1 where r: "r = (e, p1, t1)" by (cases r)
  assume "scalar r c = Inr (Inl JSMN_ERROR_NOMEM)"
  then have "e = Some JSMN_ERROR_NOMEM" using r by (auto simp: scalar_def bindE_eq_Inr split: option.splits)
  then show "length ts \<le> js_toknext p \<and> (\<exists>q'. scalar s c = Inr (Inr (q', None, c + 1)))"
    using assms r by (auto simp: scalar_def)
qed

lemma open_bracket_lockstep:
  assumes "lockstep p q"
  shows "open_bracket x p (Some ts) c = Inr (Inr (p', tokens', c')) \<Longrightarrow>
      (\<exists>q' ts'. tokens' = Some ts' \<and> length ts' = length ts \<and> lockstep p' q' \<and>
         js_toknext p' + c = js_toknext p + c' \<and> open_bracket x q None c = Inr (Inr (q', None, c')))"
    and "open_bracket x p (Some ts) c = Inr (Inl JSMN_ERROR_NOMEM) \<Longrightarrow>
      length ts \<le> js_toknext p \<and> (\<exists>q'. open_bracket x q None c = Inr (Inr (q', None, c + 1)))"
  using assms
  by (auto simp: open_bracket_def lockstep_def bindE_eq_Inr Let_def alloc_token_Some alloc_token_None
      dest!: bump_super_length split: option.splits)

lemma close_bracket_lockstep:
  assumes "lockstep p q"
  shows "close_bracket x p (Some ts) c = Inr (Inr (p', tokens', c')) \<Longrightarrow>
      (\<exists>q' ts'. tokens' = Some ts' \<and> length ts' = length ts \<and> lockstep p' q' \<and>
         js_toknext p' + c = js_toknext p + c' \<and> close_bracket x q None c = Inr (Inr (q', None, c')))"
    and "close_bracket x p (Some ts) c \<noteq> Inr (Inl JSMN_ERROR_NOMEM)"
  using assms
  by (auto simp: close_bracket_def lockstep_def Let_def split: option.splits if_splits)

lemma comma_lockstep:
  assumes "lockstep p q"
  shows "comma p (Some ts) c = Inr (Inr (p', tokens', c')) \<Longrightarrow>
      (\<exists>q' ts'. tokens' = Some ts' \<and> length ts' = length ts \<and> lockstep p' q' \<and>
         js_toknext p' + c = js_toknext p + c' \<and> comma q None c = Inr (Inr (q', None, c')))"
    and "comma p (Some ts) c \<noteq> Inr (Inl JSMN_ERROR_NOMEM)"
  using assms by (auto simp: comma_def lockstep_def split: option.splits if_splits)

text \<open>The seven cases of the \<^verbatim>\<open>switch\<close>.\<close>

lemma jsmn_step_cases:
  obtains
    (Open) "js ! pos = chr8 CHR ''{'' \<or> js ! pos = chr8 CHR ''[''"
      "\<And>p tokens count. js_pos p = pos \<Longrightarrow> jsmn_step js p tokens count = open_bracket (js ! pos) p tokens count"
  | (Close) "js ! pos = chr8 CHR ''}'' \<or> js ! pos = chr8 CHR '']''"
      "\<And>p tokens count. js_pos p = pos \<Longrightarrow> jsmn_step js p tokens count = close_bracket (js ! pos) p tokens count"
  | (Str) "js ! pos = 34"
      "\<And>p tokens count. js_pos p = pos \<Longrightarrow> jsmn_step js p tokens count = scalar (jsmn_parse_string p js tokens) count"
  | (Blank) "\<And>p tokens count. js_pos p = pos \<Longrightarrow> jsmn_step js p tokens count = Inr (Inr (p, tokens, count))"
  | (Colon) "js ! pos = chr8 CHR '':''"
      "\<And>p tokens count. js_pos p = pos \<Longrightarrow> jsmn_step js p tokens count =
        Inr (Inr (p\<lparr>js_toksuper := int (js_toknext p) - 1\<rparr>, tokens, count))"
  | (Comma) "js ! pos = chr8 CHR '',''"
      "\<And>p tokens count. js_pos p = pos \<Longrightarrow> jsmn_step js p tokens count = comma p tokens count"
  | (Prim) "\<not> primitive_end (js ! pos)"
      "\<And>p tokens count. js_pos p = pos \<Longrightarrow> jsmn_step js p tokens count = scalar (jsmn_parse_primitive p js tokens) count"
proof -
  let ?c = "js ! pos"
  consider "?c = chr8 CHR ''{'' \<or> ?c = chr8 CHR ''[''" | "?c = chr8 CHR ''}'' \<or> ?c = chr8 CHR '']''"
    | "?c = 34" | "?c = 9 \<or> ?c = 13 \<or> ?c = 10 \<or> ?c = chr8 CHR '' ''" | "?c = chr8 CHR '':''"
    | "?c = chr8 CHR '',''" | "\<not> primitive_end ?c" "?c \<noteq> chr8 CHR ''{''" "?c \<noteq> chr8 CHR ''[''" "?c \<noteq> 34"
    by (auto simp: primitive_end_def)
  then show ?thesis
  proof cases
    case 1
    then show ?thesis by (intro Open) (auto simp: jsmn_step_def)
  next
    case 2
    then show ?thesis by (intro Close) (auto simp: jsmn_step_def)
  next
    case 3
    then show ?thesis by (intro Str) (auto simp: jsmn_step_def)
  next
    case 4
    then show ?thesis by (intro Blank) (auto simp: jsmn_step_def)
  next
    case 5
    then show ?thesis by (intro Colon) (auto simp: jsmn_step_def)
  next
    case 6
    then show ?thesis by (intro Comma) (auto simp: jsmn_step_def)
  next
    case 7
    then show ?thesis by (intro Prim) (auto simp: jsmn_step_def primitive_end_def)
  qed
qed

lemma jsmn_step_lockstep:
  assumes "lockstep p q"
  shows "jsmn_step js p (Some ts) c = Inr (Inr (p', tokens', c')) \<Longrightarrow>
      \<exists>q' ts'. tokens' = Some ts' \<and> length ts' = length ts \<and> lockstep p' q' \<and>
         js_toknext p' + c = js_toknext p + c' \<and> jsmn_step js q None c = Inr (Inr (q', None, c'))"
    and "jsmn_step js p (Some ts) c = Inr (Inl JSMN_ERROR_NOMEM) \<Longrightarrow>
      length ts \<le> js_toknext p \<and> (\<exists>q'. jsmn_step js q None c = Inr (Inr (q', None, c + 1)))"
proof -
  have pos: "js_pos q = js_pos p" using assms(1) by (simp add: lockstep_def)
  assume 1: "jsmn_step js p (Some ts) c = Inr (Inr (p', tokens', c'))"
  show "\<exists>q' ts'. tokens' = Some ts' \<and> length ts' = length ts \<and> lockstep p' q' \<and>
         js_toknext p' + c = js_toknext p + c' \<and> jsmn_step js q None c = Inr (Inr (q', None, c'))"
  proof (cases rule: jsmn_step_cases [of js "js_pos p"])
    case Open
    then show ?thesis using 1 open_bracket_lockstep(1) [OF assms] pos by simp
  next
    case Close
    then show ?thesis using 1 close_bracket_lockstep(1) [OF assms] pos by simp
  next
    case Str
    then show ?thesis using 1 scalar_lockstep(1) [OF string_lockstep [OF assms]] pos by simp
  next
    case Comma
    then show ?thesis using 1 comma_lockstep(1) [OF assms] pos by simp
  next
    case Prim
    then show ?thesis using 1 scalar_lockstep(1) [OF primitive_lockstep [OF assms]] pos by simp
  qed (use 1 pos assms in \<open>auto simp: lockstep_def\<close>)
next
  have pos: "js_pos q = js_pos p" using assms(1) by (simp add: lockstep_def)
  assume 1: "jsmn_step js p (Some ts) c = Inr (Inl JSMN_ERROR_NOMEM)"
  show "length ts \<le> js_toknext p \<and> (\<exists>q'. jsmn_step js q None c = Inr (Inr (q', None, c + 1)))"
  proof (cases rule: jsmn_step_cases [of js "js_pos p"])
    case Open
    then show ?thesis using 1 open_bracket_lockstep(2) [OF assms] pos by simp
  next
    case Close
    then show ?thesis using 1 close_bracket_lockstep(2) [OF assms] by simp
  next
    case Str
    then show ?thesis using 1 scalar_lockstep(2) [OF string_lockstep [OF assms]] pos by simp
  next
    case Comma
    then show ?thesis using 1 comma_lockstep(2) [OF assms] by simp
  next
    case Prim
    then show ?thesis using 1 scalar_lockstep(2) [OF primitive_lockstep [OF assms]] pos by simp
  qed (use 1 in auto)
qed

text \<open>One unfolding of the loop.\<close>

lemma jsmn_loop_unfold:
  "js_pos p < length js \<Longrightarrow> js ! js_pos p \<noteq> 0 \<Longrightarrow> jsmn_step js p tokens c = Inr (Inr (p', tokens', c')) \<Longrightarrow>
    jsmn_loop js p tokens c = jsmn_loop js (p'\<lparr>js_pos := js_pos p' + 1\<rparr>) tokens' c'"
  "js_pos p < length js \<Longrightarrow> js ! js_pos p \<noteq> 0 \<Longrightarrow> jsmn_step js p tokens c = Inr (Inl e) \<Longrightarrow>
    jsmn_loop js p tokens c = Some (Inr (Inl e, p, tokens))"
  "js_pos p < length js \<Longrightarrow> js ! js_pos p \<noteq> 0 \<Longrightarrow> jsmn_step js p tokens c = Inl h \<Longrightarrow>
    jsmn_loop js p tokens c = Some (Inl h)"
  "\<not> (js_pos p < length js \<and> js ! js_pos p \<noteq> 0) \<Longrightarrow>
    jsmn_loop js p tokens c = Some (bindE (jsmn_finish p tokens c) (\<lambda>r. Inr (r, p, tokens)))"
  by (subst jsmn_loop.simps, auto)+

lemma jsmn_loop_cases:
  obtains
    (Stop) "\<not> (js_pos p < length js \<and> js ! js_pos p \<noteq> 0)"
      "jsmn_loop js p tokens c = Some (bindE (jsmn_finish p tokens c) (\<lambda>r. Inr (r, p, tokens)))"
  | (Fault) h where "js_pos p < length js" "js ! js_pos p \<noteq> 0" "jsmn_step js p tokens c = Inl h"
      "jsmn_loop js p tokens c = Some (Inl h)"
  | (Err) e where "js_pos p < length js" "js ! js_pos p \<noteq> 0" "jsmn_step js p tokens c = Inr (Inl e)"
      "jsmn_loop js p tokens c = Some (Inr (Inl e, p, tokens))"
  | (Go) p' tokens' c' where "js_pos p < length js" "js ! js_pos p \<noteq> 0"
      "jsmn_step js p tokens c = Inr (Inr (p', tokens', c'))"
      "jsmn_loop js p tokens c = jsmn_loop js (p'\<lparr>js_pos := js_pos p' + 1\<rparr>) tokens' c'"
      "length js - js_pos (p'\<lparr>js_pos := js_pos p' + 1\<rparr>) < length js - js_pos p"
      "js_pos p \<le> js_pos p'" "js_pos p' < length js"
proof (cases "js_pos p < length js \<and> js ! js_pos p \<noteq> 0")
  case False
  then show ?thesis using Stop jsmn_loop_unfold(4) by blast
next
  case True
  consider h where "jsmn_step js p tokens c = Inl h" | e where "jsmn_step js p tokens c = Inr (Inl e)"
    | p' tokens' c' where "jsmn_step js p tokens c = Inr (Inr (p', tokens', c'))"
    by (metis old.sum.exhaust prod_cases3)
  then show ?thesis
  proof cases
    case 3
    have "js_pos p \<le> js_pos p'" "js_pos p' < length js" using jsmn_step_pos [OF 3] True by simp_all
    moreover from this have "length js - js_pos (p'\<lparr>js_pos := js_pos p' + 1\<rparr>) < length js - js_pos p"
      by simp
    ultimately show ?thesis using Go [OF _ _ 3] jsmn_loop_unfold(1) [OF _ _ 3] True by blast
  qed (use True Fault Err jsmn_loop_unfold(2,3) in blast)+
qed

lemma lockstep_next: "lockstep p q \<Longrightarrow> lockstep (p\<lparr>js_pos := js_pos p + 1\<rparr>) (q\<lparr>js_pos := js_pos q + 1\<rparr>)"
  by (simp add: lockstep_def)

lemma count_run_agrees:
  assumes "jsmn_loop js p (Some ts) c = Some (Inr (Inr n, p', tokens'))" "lockstep p q"
  shows "\<exists>q'. jsmn_loop js q None c = Some (Inr (Inr n, q', None))"
  using assms
proof (induction "length js - js_pos p" arbitrary: p ts c q rule: less_induct)
  case less
  have pos: "js_pos q = js_pos p" "js_toknext q = 0" using less.prems(2) by (auto simp: lockstep_def)
  show ?case
  proof (cases rule: jsmn_loop_cases [of p js "Some ts" c])
    case Stop
    then have "n = c" using less.prems(1) by (auto simp: jsmn_finish_def bindE_eq_Inr split: if_splits)
    then show ?thesis
      using Stop(1) pos jsmn_loop_unfold(4) [of q js None c] by (simp add: jsmn_finish_def)
  next
    case (Go p1 tokens1 c1)
    obtain q1 ts1 where q1: "tokens1 = Some ts1" "lockstep p1 q1" "jsmn_step js q None c = Inr (Inr (q1, None, c1))"
      using jsmn_step_lockstep(1) [OF less.prems(2) Go(3)] by blast
    have "\<exists>q'. jsmn_loop js (q1\<lparr>js_pos := js_pos q1 + 1\<rparr>) None c1 = Some (Inr (Inr n, q', None))"
      using less.hyps [OF Go(5) _ lockstep_next [OF q1(2)]] less.prems(1) Go(4) q1(1) by simp
    then show ?thesis using jsmn_loop_unfold(1) [OF _ _ q1(3)] Go(1,2) pos by simp
  qed (use less.prems(1) in auto)
qed

lemma step_count_mono: "jsmn_step js q None c = Inr (Inr (q', None, c')) \<Longrightarrow> c \<le> c'"
  by (cases rule: jsmn_step_cases [of js "js_pos q"])
    (auto simp: open_bracket_def close_bracket_def comma_def scalar_def bindE_eq_Inr
      split: prod.splits option.splits)

lemma step_None: "jsmn_step js q None c = Inr (Inr (q', tokens', c')) \<Longrightarrow> tokens' = None"
  by (cases rule: jsmn_step_cases [of js "js_pos q"])
    (auto simp: open_bracket_def close_bracket_def comma_def scalar_def jsmn_parse_string_def
      jsmn_parse_primitive_def Let_def split: prod.splits option.splits string_end.splits)

lemma count_run_mono:
  assumes "jsmn_loop js q None c = Some (Inr (Inr n, q', tokens'))"
  shows "c \<le> n"
  using assms
proof (induction "length js - js_pos q" arbitrary: q c rule: less_induct)
  case less
  show ?case
  proof (cases rule: jsmn_loop_cases [of q js None c])
    case Stop
    then show ?thesis using less.prems by (auto simp: jsmn_finish_def bindE_eq_Inr split: if_splits)
  next
    case (Go q1 tokens1 c1)
    have "tokens1 = None" using step_None Go(3) by blast
    then have "c1 \<le> n" "c \<le> c1" using less.hyps [OF Go(5)] less.prems Go(4) step_count_mono Go(3) by auto
    then show ?thesis by simp
  qed (use less.prems in auto)
qed

lemma count_run_suffices:
  assumes "jsmn_loop js q None c = Some (Inr (Inr n, q', tokens'))" "lockstep p q"
    and "js_toknext p = c" "n \<le> length ts"
    and "jsmn_loop js p (Some ts) c = Some (Inr (Inl e, r))"
  shows "e \<noteq> JSMN_ERROR_NOMEM"
  using assms
proof (induction "length js - js_pos p" arbitrary: p ts c q rule: less_induct)
  case less
  have pos: "js_pos q = js_pos p" using less.prems(2) by (auto simp: lockstep_def)
  show ?case
  proof (cases rule: jsmn_loop_cases [of p js "Some ts" c])
    case Stop
    then show ?thesis using less.prems(5) by (auto simp: jsmn_finish_def bindE_eq_Inr split: if_splits)
  next
    case (Err e')
    have "e' \<noteq> JSMN_ERROR_NOMEM"
    proof
      assume "e' = JSMN_ERROR_NOMEM"
      then obtain q1 where q1: "length ts \<le> js_toknext p" "jsmn_step js q None c = Inr (Inr (q1, None, c + 1))"
        using jsmn_step_lockstep(2) [OF less.prems(2)] Err(3) by blast
      have "jsmn_loop js (q1\<lparr>js_pos := js_pos q1 + 1\<rparr>) None (c + 1) = Some (Inr (Inr n, q', tokens'))"
        using jsmn_loop_unfold(1) [OF _ _ q1(2)] Err(1,2) pos less.prems(1) by simp
      then have "c + 1 \<le> n" by (rule count_run_mono)
      then show False using q1(1) less.prems(3,4) by simp
    qed
    then show ?thesis using Err(4) less.prems(5) by simp
  next
    case (Go p1 tokens1 c1)
    obtain q1 ts1 where q1: "tokens1 = Some ts1" "length ts1 = length ts" "lockstep p1 q1"
      "js_toknext p1 + c = js_toknext p + c1" "jsmn_step js q None c = Inr (Inr (q1, None, c1))"
      using jsmn_step_lockstep(1) [OF less.prems(2) Go(3)] by blast
    have run: "jsmn_loop js (q1\<lparr>js_pos := js_pos q1 + 1\<rparr>) None c1 = Some (Inr (Inr n, q', tokens'))"
      using jsmn_loop_unfold(1) [OF _ _ q1(5)] Go(1,2) pos less.prems(1) by simp
    show ?thesis
      by (rule less.hyps [OF Go(5) run lockstep_next [OF q1(3)], of ts1])
        (use less.prems(3-5) Go(4) q1 in simp_all)
  qed (use less.prems in auto)
qed

section \<open>The structure of the tokens\<close>

text \<open>
  The view of a token that the structure depends on, what it may look like when the parser
  has reached \<open>pos\<close>, and how two tokens lie to each other: later tokens start later, and a
  closed token ends before a later one starts or encloses it.
\<close>

type_synonym tokview = "jsmntype_t \<times> int \<times> int"

definition tok_view :: "jsmntok_t list \<Rightarrow> nat \<Rightarrow> tokview" where
  "tok_view ts i = (tk_type (ts ! i), tk_start (ts ! i), tk_end (ts ! i))"

fun tok_ok :: "u8 list \<Rightarrow> nat \<Rightarrow> tokview \<Rightarrow> bool" where
  "tok_ok js pos (ty, st, en) =
     (0 \<le> st \<and> st < int pos \<and> pos \<le> length js \<and>
      (case ty of
         JSMN_OBJECT \<Rightarrow> js ! nat st = chr8 CHR ''{'' \<and>
           (en = - 1 \<or> (st < en \<and> en \<le> int pos \<and> js ! (nat en - 1) = chr8 CHR ''}''))
       | JSMN_ARRAY \<Rightarrow> js ! nat st = chr8 CHR ''['' \<and>
           (en = - 1 \<or> (st < en \<and> en \<le> int pos \<and> js ! (nat en - 1) = chr8 CHR '']''))
       | JSMN_STRING \<Rightarrow> 0 < st \<and> js ! (nat st - 1) = 34 \<and> st \<le> en \<and> en < int pos \<and> js ! nat en = 34
       | JSMN_PRIMITIVE \<Rightarrow> st < en \<and> en \<le> int pos))"

fun tok_nest :: "tokview \<Rightarrow> tokview \<Rightarrow> bool" where
  "tok_nest (ty, st, en) (ty', st', en') =
     (st < st' \<and> (en = - 1 \<or> en \<le> st' \<or> (en' \<noteq> - 1 \<and> en' \<le> en)))"

definition toks_inv :: "u8 list \<Rightarrow> nat \<Rightarrow> nat \<Rightarrow> (nat \<Rightarrow> tokview) \<Rightarrow> bool" where
  "toks_inv js pos n v =
     ((\<forall>i<n. tok_ok js pos (v i)) \<and> (\<forall>j<n. \<forall>i<j. tok_nest (v i) (v j)))"

definition jsmn_inv :: "u8 list \<Rightarrow> jsmn_parser \<Rightarrow> jsmntok_t list \<Rightarrow> bool" where
  "jsmn_inv js p ts =
     (js_toknext p \<le> length ts \<and> toks_inv js (js_pos p) (js_toknext p) (tok_view ts) \<and>
      (js_toksuper p = - 1 \<or> (0 \<le> js_toksuper p \<and> js_toksuper p < int (js_toknext p))))"

lemma tok_ok_mono: "tok_ok js pos t \<Longrightarrow> pos \<le> pos' \<Longrightarrow> pos' \<le> length js \<Longrightarrow> tok_ok js pos' t"
  by (cases t) (auto split: jsmntype_t.splits)

lemma tok_ok_bounds: "tok_ok js pos (ty, st, en) \<Longrightarrow> st < int pos \<and> en \<le> int pos"
  by (auto split: jsmntype_t.splits)

lemma toks_inv_cong: "(\<And>i. i < n \<Longrightarrow> v i = v' i) \<Longrightarrow> toks_inv js pos n v \<Longrightarrow> toks_inv js pos n v'"
  unfolding toks_inv_def by (metis less_trans)

lemma toks_inv_mono: "toks_inv js pos n v \<Longrightarrow> pos \<le> pos' \<Longrightarrow> pos' \<le> length js \<Longrightarrow> toks_inv js pos' n v"
  unfolding toks_inv_def using tok_ok_mono by blast

lemma toks_inv_add:
  assumes "toks_inv js pos n v" "pos \<le> pos'" "tok_ok js pos' (ty, st, en)" "int pos \<le> st"
  shows "toks_inv js pos' (n + 1) (v(n := (ty, st, en)))"
proof -
  have "pos' \<le> length js" using assms(3) by simp
  note old = toks_inv_mono [OF assms(1,2) this]
  have "tok_nest (v i) (ty, st, en)" if "i < n" for i
  proof -
    obtain a b c where v: "v i = (a, b, c)" by (cases "v i")
    have "tok_ok js pos (a, b, c)" using assms(1) that v unfolding toks_inv_def by metis
    then show ?thesis using tok_ok_bounds [of js pos a b c] assms(4) v by simp
  qed
  then show ?thesis
    using old assms(3) unfolding toks_inv_def by (auto simp: less_Suc_eq)
qed

lemma toks_inv_close:
  assumes inv: "toks_inv js pos n v" and i: "i < n" "v i = (ty, st, - 1)"
    and closed: "\<And>j. i < j \<Longrightarrow> j < n \<Longrightarrow> snd (snd (v j)) \<noteq> - 1"
    and ok: "tok_ok js (pos + 1) (ty, st, int pos + 1)"
  shows "toks_inv js (pos + 1) n (v(i := (ty, st, int pos + 1)))"
proof -
  have old: "tok_ok js pos (v j)" "tok_ok js (pos + 1) (v j)" if "j < n" for j
    using inv that ok toks_inv_mono [OF inv, of "pos + 1"] unfolding toks_inv_def by auto
  have nest: "tok_nest (v k) (v j)" if "j < n" "k < j" for j k using inv that unfolding toks_inv_def by blast
  have "tok_nest (v k) (ty, st, int pos + 1)" if "k < i" for k
    using nest [OF i(1) that] i(2) by (cases "v k") auto
  moreover have "tok_nest (ty, st, int pos + 1) (v j)" if "i < j" "j < n" for j
  proof -
    obtain a b c where v: "v j = (a, b, c)" by (cases "v j")
    have "c \<le> int pos" using tok_ok_bounds [of js pos a b c] old(1) [OF that(2)] v by simp
    then show ?thesis using nest [OF that(2,1)] closed [OF that] i(2) v by simp
  qed
  ultimately show ?thesis
    using old(2) nest ok unfolding toks_inv_def by (auto simp: fun_upd_apply)
qed

lemma find_open_Some: "find_open ts n = Some i \<Longrightarrow>
    i < n \<and> tk_open (ts ! i) \<and> (\<forall>j. i < j \<longrightarrow> j < n \<longrightarrow> \<not> tk_open (ts ! j))"
  by (induction ts n rule: find_open.induct) (auto split: if_splits simp: less_Suc_eq)

lemma find_open_None: "find_open ts n = None \<Longrightarrow> j < n \<Longrightarrow> \<not> tk_open (ts ! j)"
  by (induction ts n rule: find_open.induct) (auto split: if_splits simp: less_Suc_eq)

lemma find_open_container_Some: "find_open_container ts n = Some i \<Longrightarrow> i < n"
  by (induction ts n rule: find_open_container.induct) (auto split: if_splits)

lemma tok_view_update:
  "i < length ts \<Longrightarrow> tok_view (ts[i := t]) = (tok_view ts)(i := (tk_type t, tk_start t, tk_end t))"
  by (auto simp: tok_view_def fun_eq_iff nth_list_update)

lemma bump_super_view:
  "bump_super p (Some ts) = Inr tokens \<Longrightarrow> \<exists>ts'. tokens = Some ts' \<and> length ts' = length ts \<and> tok_view ts' = tok_view ts"
  by (auto simp: bump_super_def Let_def tok_view_def fun_eq_iff nth_list_update split: if_splits)

abbreviation next_pos :: "jsmn_parser \<Rightarrow> jsmn_parser" where
  "next_pos p \<equiv> p\<lparr>js_pos := js_pos p + 1\<rparr>"

text \<open>A string or primitive that is accepted becomes the next token.\<close>

lemma parse_string_inv:
  assumes inv: "jsmn_inv js p ts" and c: "js ! js_pos p = 34"
    and run: "jsmn_parse_string p js (Some ts) = (None, p', tokens)"
  shows "\<exists>ts'. tokens = Some ts' \<and> jsmn_inv js (next_pos p') ts'"
proof -
  let ?n = "js_toknext p" and ?st = "int (js_pos p) + 1"
  obtain pos where pos: "string_scan js (js_pos p + 1) = Quote pos"
    using run by (auto simp: jsmn_parse_string_def Let_def split: string_end.splits)
  note b = string_scan_bounds [OF pos]
  have n: "?n < length ts"
    using run pos by (auto simp: jsmn_parse_string_def alloc_token_None alloc_token_Some not_le Let_def split: option.splits)
  define ts1 where "ts1 = ts[?n := (ts ! ?n)\<lparr>tk_start := - 1, tk_end := - 1, tk_size := 0\<rparr>]"
  have res: "p' = p\<lparr>js_toknext := ?n + 1, js_pos := pos\<rparr>"
    "tokens = Some (jsmn_fill_token ts1 ?n JSMN_STRING ?st (int pos))"
    using run pos n by (auto simp: jsmn_parse_string_def jsmn_alloc_token_def Let_def ts1_def)
  have "tok_view (jsmn_fill_token ts1 ?n JSMN_STRING ?st (int pos)) = (tok_view ts)(?n := (JSMN_STRING, ?st, int pos))"
    using n by (simp add: jsmn_fill_token_def ts1_def tok_view_update)
  moreover have "toks_inv js (pos + 1) (?n + 1) ((tok_view ts)(?n := (JSMN_STRING, ?st, int pos)))"
    using inv b c by (intro toks_inv_add [where pos = "js_pos p"]) (auto simp: jsmn_inv_def nat_add_distrib)
  ultimately show ?thesis
    using inv n res by (auto simp: jsmn_inv_def jsmn_fill_token_def ts1_def)
qed

lemma parse_primitive_inv:
  assumes inv: "jsmn_inv js p ts"
    and c: "js_pos p < length js" "js ! js_pos p \<noteq> 0" "\<not> primitive_end (js ! js_pos p)"
    and run: "jsmn_parse_primitive p js (Some ts) = (None, p', tokens)"
  shows "\<exists>ts'. tokens = Some ts' \<and> jsmn_inv js (next_pos p') ts'"
proof -
  let ?n = "js_toknext p" and ?st = "int (js_pos p)"
  obtain pos where pos: "primitive_scan js (js_pos p) = Some pos"
    using run by (auto simp: jsmn_parse_primitive_def Let_def split: option.splits)
  note b = primitive_scan_progress [OF pos c]
  have n: "?n < length ts"
    using run pos by (auto simp: jsmn_parse_primitive_def alloc_token_None alloc_token_Some not_le Let_def split: option.splits)
  define ts1 where "ts1 = ts[?n := (ts ! ?n)\<lparr>tk_start := - 1, tk_end := - 1, tk_size := 0\<rparr>]"
  have res: "p' = p\<lparr>js_toknext := ?n + 1, js_pos := pos - 1\<rparr>"
    "tokens = Some (jsmn_fill_token ts1 ?n JSMN_PRIMITIVE ?st (int pos))"
    using run pos n by (auto simp: jsmn_parse_primitive_def jsmn_alloc_token_def Let_def ts1_def)
  have "tok_view (jsmn_fill_token ts1 ?n JSMN_PRIMITIVE ?st (int pos)) = (tok_view ts)(?n := (JSMN_PRIMITIVE, ?st, int pos))"
    using n by (simp add: jsmn_fill_token_def ts1_def tok_view_update)
  moreover have "toks_inv js pos (?n + 1) ((tok_view ts)(?n := (JSMN_PRIMITIVE, ?st, int pos)))"
    using inv b by (intro toks_inv_add [where pos = "js_pos p"]) (auto simp: jsmn_inv_def)
  ultimately show ?thesis
    using inv n b res by (auto simp: jsmn_inv_def jsmn_fill_token_def ts1_def)
qed

lemma scalar_inv:
  assumes "scalar r c = Inr (Inr (p', tokens', c'))"
    and "\<And>p1 tokens. r = (None, p1, tokens) \<Longrightarrow> \<exists>ts'. tokens = Some ts' \<and> jsmn_inv js (next_pos p1) ts'"
  shows "\<exists>ts'. tokens' = Some ts' \<and> jsmn_inv js (next_pos p') ts'"
proof -
  obtain tokens where r: "r = (None, p', tokens)" "bump_super p' tokens = Inr tokens'"
    using scalar_pos [OF assms(1)] by blast
  obtain ts1 where "tokens = Some ts1" "jsmn_inv js (next_pos p') ts1" using assms(2) [OF r(1)] by blast
  moreover obtain ts' where "tokens' = Some ts'" "length ts' = length ts1" "tok_view ts' = tok_view ts1"
    using bump_super_view r(2) calculation(1) by blast
  ultimately show ?thesis by (simp add: jsmn_inv_def)
qed

lemma open_bracket_inv:
  assumes inv: "jsmn_inv js p ts" and c: "js_pos p < length js"
    "js ! js_pos p = chr8 CHR ''{'' \<or> js ! js_pos p = chr8 CHR ''[''"
    and run: "open_bracket (js ! js_pos p) p (Some ts) cnt = Inr (Inr (p', tokens', cnt'))"
  shows "\<exists>ts'. tokens' = Some ts' \<and> jsmn_inv js (next_pos p') ts'"
proof -
  let ?n = "js_toknext p" and ?ty = "if js ! js_pos p = chr8 CHR ''{'' then JSMN_OBJECT else JSMN_ARRAY"
  have n: "?n < length ts" using run by (auto simp: open_bracket_def alloc_token_None alloc_token_Some not_le Let_def split: option.splits)
  define p1 ts1 where "p1 = p\<lparr>js_toknext := ?n + 1\<rparr>"
    and "ts1 = ts[?n := (ts ! ?n)\<lparr>tk_start := - 1, tk_end := - 1, tk_size := 0\<rparr>]"
  have al: "jsmn_alloc_token p ts = Some (?n, p1, ts1)"
    using n by (simp add: jsmn_alloc_token_def Let_def p1_def ts1_def)
  obtain tokens where b: "bump_super p1 (Some ts1) = Inr tokens"
    and res: "p' = p1\<lparr>js_toksuper := int (js_toknext p1) - 1\<rparr>"
      "tokens' = Some ((the tokens)[?n := (the tokens ! ?n)\<lparr>tk_type := ?ty, tk_start := int (js_pos p1)\<rparr>])"
    using run unfolding open_bracket_def option.case al prod.case bindE_eq_Inr Let_def by auto
  obtain ts2 where ts2: "tokens = Some ts2" "length ts2 = length ts1" "tok_view ts2 = tok_view ts1"
    using bump_super_view [OF b] by blast
  have v1: "tok_view ts1 = (tok_view ts)(?n := (tk_type (ts ! ?n), - 1, - 1))"
    using n by (simp add: ts1_def tok_view_update)
  then have "tk_end (ts2 ! ?n) = - 1"
    using fun_cong [OF ts2(3), of ?n] by (simp add: tok_view_def)
  then have v: "tok_view (the tokens') = (tok_view ts)(?n := (?ty, int (js_pos p), - 1))"
    unfolding res ts2(1) option.sel using n ts2(2,3) v1 by (simp add: tok_view_update p1_def ts1_def)
  have len: "length (the tokens') = length ts" unfolding res ts2(1) using ts2(2) by (simp add: ts1_def)
  have "toks_inv js (js_pos p + 1) (?n + 1) ((tok_view ts)(?n := (?ty, int (js_pos p), - 1)))"
    using inv c by (intro toks_inv_add [where pos = "js_pos p"]) (auto simp: jsmn_inv_def)
  then have "jsmn_inv js (next_pos p') (the tokens')"
    using inv n len v unfolding jsmn_inv_def by (simp add: res p1_def)
  moreover have "tokens' = Some (the tokens')" unfolding res by simp
  ultimately show ?thesis by blast
qed

lemma close_bracket_inv:
  assumes inv: "jsmn_inv js p ts" and c: "js_pos p < length js"
    "js ! js_pos p = chr8 CHR ''}'' \<or> js ! js_pos p = chr8 CHR '']''"
    and run: "close_bracket (js ! js_pos p) p (Some ts) cnt = Inr (Inr (p', tokens', cnt'))"
  shows "\<exists>ts'. tokens' = Some ts' \<and> jsmn_inv js (next_pos p') ts'"
proof -
  let ?n = "js_toknext p" and ?ty = "if js ! js_pos p = chr8 CHR ''}'' then JSMN_OBJECT else JSMN_ARRAY"
  obtain i where i: "find_open ts ?n = Some i" "tk_type (ts ! i) = ?ty"
    using run by (auto simp: close_bracket_def Let_def split: option.splits if_splits)
  define ts1 where "ts1 = ts[i := (ts ! i)\<lparr>tk_end := int (js_pos p) + 1\<rparr>]"
  have res: "p' = p\<lparr>js_toksuper := (case find_open ts1 (i + 1) of None \<Rightarrow> - 1 | Some j \<Rightarrow> int j)\<rparr>"
    "tokens' = Some ts1"
    using run i by (auto simp: close_bracket_def Let_def ts1_def)
  note fo = find_open_Some [OF i(1)]
  have n: "?n \<le> length ts" "toks_inv js (js_pos p) ?n (tok_view ts)" using inv by (auto simp: jsmn_inv_def)
  have vi: "tok_view ts i = (?ty, tk_start (ts ! i), - 1)" using fo i(2) by (simp add: tok_view_def tk_open_def)
  have ok: "tok_ok js (js_pos p) (tok_view ts j)" if "j < ?n" for j using n(2) that by (simp add: toks_inv_def)
  have closed: "snd (snd (tok_view ts j)) \<noteq> - 1" if "i < j" "j < ?n" for j
  proof -
    have "0 \<le> tk_start (ts ! j)" using ok [OF that(2)] by (simp add: tok_view_def)
    then have "tk_start (ts ! j) \<noteq> - 1" by linarith
    moreover have "\<not> tk_open (ts ! j)" using fo that by blast
    ultimately show ?thesis by (simp add: tok_view_def tk_open_def)
  qed
  have "tok_ok js (js_pos p + 1) (?ty, tk_start (ts ! i), int (js_pos p) + 1)"
    using ok [of i] fo vi c by (auto simp: nat_add_distrib)
  from toks_inv_close [OF n(2) _ vi closed this]
  have "toks_inv js (js_pos p + 1) ?n ((tok_view ts)(i := (?ty, tk_start (ts ! i), int (js_pos p) + 1)))"
    using fo by blast
  moreover have "tok_view ts1 = (tok_view ts)(i := (?ty, tk_start (ts ! i), int (js_pos p) + 1))"
    using fo n(1) i(2) by (simp add: ts1_def tok_view_update)
  moreover have super: "j < ?n" if "find_open ts1 (i + 1) = Some j" for j
    using find_open_Some [OF that] fo by linarith
  moreover have "length ts1 = length ts" by (simp add: ts1_def)
  ultimately have "jsmn_inv js (next_pos p') ts1"
    using n(1) unfolding jsmn_inv_def res by (cases "find_open ts1 (i + 1)") (simp_all del: find_open.simps)
  then show ?thesis using res by simp
qed

lemma jsmn_step_inv:
  assumes inv: "jsmn_inv js p ts" and pos: "js_pos p < length js" "js ! js_pos p \<noteq> 0"
    and run: "jsmn_step js p (Some ts) c = Inr (Inr (p', tokens', c'))"
  shows "\<exists>ts'. tokens' = Some ts' \<and> jsmn_inv js (next_pos p') ts'"
proof (cases rule: jsmn_step_cases [of js "js_pos p"])
  case Open
  then show ?thesis using open_bracket_inv [OF inv pos(1)] run by simp
next
  case Close
  then show ?thesis using close_bracket_inv [OF inv pos(1)] run by simp
next
  case Str
  have "scalar (jsmn_parse_string p js (Some ts)) c = Inr (Inr (p', tokens', c'))" using Str run by simp
  then show ?thesis using scalar_inv parse_string_inv [OF inv Str(1)] by blast
next
  case Prim
  have "scalar (jsmn_parse_primitive p js (Some ts)) c = Inr (Inr (p', tokens', c'))" using Prim run by simp
  then show ?thesis using scalar_inv parse_primitive_inv [OF inv pos Prim(1)] by blast
next
  case Comma
  then have "comma p (Some ts) c = Inr (Inr (p', tokens', c'))" using run by simp
  then have "tokens' = Some ts" "js_pos p' = js_pos p" "js_toknext p' = js_toknext p"
    "js_toksuper p' = js_toksuper p \<or> (\<exists>i<js_toknext p. js_toksuper p' = int i)"
    by (auto simp: comma_def dest: find_open_container_Some split: if_splits option.splits)
  then show ?thesis
    using inv pos toks_inv_mono [of js "js_pos p" _ _ "js_pos p + 1"] by (auto simp: jsmn_inv_def)
qed (use inv pos run toks_inv_mono [of js "js_pos p" _ _ "js_pos p + 1"] in \<open>auto simp: jsmn_inv_def\<close>)

lemma jsmn_loop_inv:
  assumes "jsmn_loop js p (Some ts) c = Some (Inr (Inr n, p', tokens'))"
    and "jsmn_inv js p ts" "js_toknext p = c"
  shows "\<exists>ts'. tokens' = Some ts' \<and> jsmn_inv js p' ts' \<and> length ts' = length ts \<and> js_toknext p' = n \<and>
    find_open ts' n = None"
  using assms
proof (induction "length js - js_pos p" arbitrary: p ts c rule: less_induct)
  case less
  show ?case
  proof (cases rule: jsmn_loop_cases [of p js "Some ts" c])
    case Stop
    then show ?thesis
      using less.prems by (auto simp: jsmn_finish_def bindE_eq_Inr split: if_splits)
  next
    case (Go p1 tokens1 c1)
    have "lockstep p (p\<lparr>js_toknext := 0\<rparr>)" by (simp add: lockstep_def)
    from jsmn_step_lockstep(1) [OF this Go(3)]
    obtain ts1 where ts1: "tokens1 = Some ts1" "length ts1 = length ts" "js_toknext p1 + c = js_toknext p + c1" by blast
    have inv1: "jsmn_inv js (next_pos p1) ts1" using jsmn_step_inv [OF less.prems(2) Go(1-3)] ts1(1) by simp
    have run1: "jsmn_loop js (next_pos p1) (Some ts1) c1 = Some (Inr (Inr n, p', tokens'))"
      using less.prems(1) Go(4) ts1(1) by simp
    show ?thesis using less.hyps [OF Go(5) run1 inv1] less.prems(3) ts1 by simp
  qed (use less.prems(1) in auto)
qed

section \<open>Properties\<close>


definition demo_json :: "u8 list" where
  "demo_json = map of_char ''{a:[1,2]}''"

definition demo_tok :: jsmntok_t where
  "demo_tok = \<lparr>tk_type = JSMN_PRIMITIVE, tk_start = 7, tk_end = 7, tk_size = 7\<rparr>"

definition demo_toks :: "jsmntok_t list" where
  "demo_toks =
    [\<lparr>tk_type = JSMN_OBJECT, tk_start = 0, tk_end = 9, tk_size = 1\<rparr>,
     \<lparr>tk_type = JSMN_PRIMITIVE, tk_start = 1, tk_end = 2, tk_size = 1\<rparr>,
     \<lparr>tk_type = JSMN_ARRAY, tk_start = 3, tk_end = 8, tk_size = 2\<rparr>,
     \<lparr>tk_type = JSMN_PRIMITIVE, tk_start = 4, tk_end = 5, tk_size = 0\<rparr>,
     \<lparr>tk_type = JSMN_PRIMITIVE, tk_start = 6, tk_end = 7, tk_size = 0\<rparr>]"

lemma demo_json_parses:
  "jsmn_parse jsmn_init demo_json (Some (replicate 5 demo_tok)) =
     Some (Inr (Inr 5, \<lparr>js_pos = 9, js_toknext = 5, js_toksuper = - 1\<rparr>, Some demo_toks))"
  by code_simp



text \<open>
  C38: a counting run gives the size of the array. If the run without tokens returns \<open>n\<close>, a
  run with at least \<open>n\<close> tokens never fails for lack of them; and if a run with tokens
  succeeds, the counting run returns the same number.
\<close>

theorem jsmn_count_suffices:
  "(\<forall>n q ts e r. jsmn_parse jsmn_init js None = Some (Inr (Inr n, q)) \<and> n \<le> length ts \<and>
      jsmn_parse jsmn_init js (Some ts) = Some (Inr (Inl e, r)) \<longrightarrow> e \<noteq> JSMN_ERROR_NOMEM) \<and>
   (\<forall>n ts r. jsmn_parse jsmn_init js (Some ts) = Some (Inr (Inr n, r)) \<longrightarrow>
      (\<exists>q. jsmn_parse jsmn_init js None = Some (Inr (Inr n, q))))"
proof -
  have l: "lockstep jsmn_init jsmn_init" by (simp add: lockstep_def jsmn_init_def)
  show ?thesis
    unfolding jsmn_parse_def
    using count_run_suffices [OF _ l] count_run_agrees [OF _ l]
    by (fastforce simp: jsmn_init_def)
qed


theorem jsmn_count_suffices_witness:
  "\<exists>q. jsmn_parse jsmn_init demo_json None = Some (Inr (Inr 5, q))"
  using jsmn_count_suffices [of demo_json] demo_json_parses by blast

text \<open>
  C40: a comma that is not inside any object or array makes the parser read the token at
  index \<open>- 1\<close>: a text that begins with a comma has no defined result once tokens are given,
  although the counting run accepts the comma.
\<close>

theorem jsmn_stray_comma:
  "jsmn_parse jsmn_init (chr8 CHR '','' # js) (Some ts) = Some (Inl (Undefined ''tokens[toksuper]'')) \<and>
   jsmn_parse jsmn_init [chr8 CHR '',''] None = Some (Inr (Inr 0, next_pos jsmn_init, None))"
  by (simp add: jsmn_parse_def jsmn_loop.simps [of "44 # js"] jsmn_loop.simps [of "[44]"]
      jsmn_step_def jsmn_init_def comma_def jsmn_finish_def)

end
