(* ===== verification/Sched.thy ===== *)
theory Sched
  imports Lfring Memalloc_Correct
begin

text \<open>
  The thread scheduler of \<^verbatim>\<open>lib/libbmk_core/sched.c\<close> with the amd64 part of
  \<^verbatim>\<open>lib/libbmk_core/arch\<close>. A pointer to a thread is its index in \<^verbatim>\<open>thread_array\<close>, the queues are
  the index rings of \<open>Lfring\<close>, and memory is that of the two allocators. An operation of the
  model is one call made on one CPU, up to the point where the CPU runs in the context of the next
  thread; what the threads of several CPUs do between the atomic instructions of a wake-up is the
  subject of \<open>Join\<close>, \<open>Lwp\<close> and \<open>Netdom_Wake\<close>.

  The clock is a parameter: \<^verbatim>\<open>schedule\<close> is given the readings it will obtain, and a call that uses
  them all up has not returned yet. Function pointers are numbers, and what a wake-up function does
  is a parameter of the operations that call one. The hook called on a switch, which only updates
  the accounting of the LWP library, is left out.
\<close>

section \<open>State\<close>

definition BLOCKTIME_MAX :: int where "BLOCKTIME_MAX = 1 * 1000 * 1000 * 1000"
definition NAME_MAXLEN :: nat where "NAME_MAXLEN = 26"
definition MAXCPUS :: nat where "MAXCPUS = 64"
definition THR_MUSTJOIN :: u8 where "THR_MUSTJOIN = 0x01"
definition THR_EXTSTACK :: u8 where "THR_EXTSTACK = 0x02"
definition BMK_ETIMEDOUT :: nat where "BMK_ETIMEDOUT = 60"
definition BMK_SCHED_BLOCK_INFTIME :: int where "BMK_SCHED_BLOCK_INFTIME = - 1"
definition BMK_MAX_THREADS :: nat where "BMK_MAX_THREADS = 2 ^ BMK_MAX_THREADS_ORDER"
definition BMK_MAX_BLOCKQ :: nat where "BMK_MAX_BLOCKQ = 2 ^ BMK_MAX_BLOCKQ_ORDER"

text \<open>The sizes of \<^verbatim>\<open>struct bmk_thread\<close>, \<^verbatim>\<open>struct lfqueue_node\<close> and of an index ring.\<close>

definition sizeof_thread :: nat where "sizeof_thread = 128"
definition sizeof_node :: nat where "sizeof_node = 32"
definition LFRING_ALIGN :: nat where "LFRING_ALIGN = 128"
definition LFRING_SIZE :: "nat \<Rightarrow> nat" where "LFRING_SIZE order = 3 * LFRING_ALIGN + 8 * 2 ^ (order + 1)"
definition BMK_PCPU_L1_SIZE :: nat where "BMK_PCPU_L1_SIZE = 64"

record bmk_thread =
  bt_sp :: nat
  bt_tp :: nat
  bt_block_node :: nat
  bt_idx :: nat
  bt_cpuidx :: nat
  bt_name :: string
  bt_timedout :: nat
  bt_flags :: u8
  bt_errno :: int
  bt_stackbase :: nat
  bt_cookie :: nat
  bt_wakeup_time :: int
  bt_wake :: nat
  bt_join :: u64
  bt_exit :: u64

text \<open>
  \<open>sc_virgin\<close> says of each thread whether its saved stack pointer leads into the bouncer that
  starts it, or back into the \<^verbatim>\<open>schedule\<close> call in which it was switched out.
\<close>

record sched =
  sc_numcpus :: nat
  sc_stackpageorder :: nat
  sc_stacksize :: nat
  sc_thread :: "nat \<Rightarrow> bmk_thread"
  sc_thread_base :: nat
  sc_node_object :: "nat \<Rightarrow> nat"
  sc_node_index :: "nat \<Rightarrow> nat"
  sc_runq :: "nat \<Rightarrow> lfring option"
  sc_freeq :: lfring
  sc_zombieq :: lfring
  sc_nodes :: lfring
  sc_timeq :: "nat \<Rightarrow> nat list"
  sc_current :: "nat \<Rightarrow> nat"
  sc_idle :: "nat \<Rightarrow> nat option"
  sc_virgin :: "nat \<Rightarrow> bool"
  sc_tdata :: nat
  sc_tdatasize :: nat
  sc_tbsssize :: nat
  sc_curoff :: int
  sc_mainstack :: "nat \<times> nat"
  sc_mem :: mstate

abbreviation upd_thread :: "nat \<Rightarrow> (bmk_thread \<Rightarrow> bmk_thread) \<Rightarrow> sched \<Rightarrow> sched" where
  "upd_thread t f s \<equiv> s\<lparr>sc_thread := (sc_thread s)(t := f (sc_thread s t))\<rparr>"

abbreviation thread_enq :: "lfring \<Rightarrow> nat \<Rightarrow> lfring res" where
  "thread_enq q idx \<equiv> loopE (lfring_enqueue q BMK_MAX_THREADS_ORDER (word_of_nat idx) False)"

abbreviation thread_deq :: "lfring \<Rightarrow> (u64 \<times> lfring) res" where
  "thread_deq q \<equiv> loopE (lfring_dequeue q BMK_MAX_THREADS_ORDER False)"

section \<open>The timeout queues\<close>

text \<open>
  \<open>wk\<close> gives the wake-up time of a queued thread. The third case carries the assertion of the
  source on the last element.
\<close>

fun timeq_insert :: "(nat \<Rightarrow> int) \<Rightarrow> nat \<Rightarrow> nat list \<Rightarrow> nat list option" where
  "timeq_insert wk t [] = None"
| "timeq_insert wk t (iter # q) =
     (if wk t < wk iter then Some (t # iter # q) else map_option ((#) iter) (timeq_insert wk t q))"

definition bmk_insert_timeq :: "nat \<Rightarrow> sched \<Rightarrow> sched res" where
  "bmk_insert_timeq t s =
     (let cpuidx = bt_cpuidx (sc_thread s t); wk = (\<lambda>i. bt_wakeup_time (sc_thread s i));
          q = sc_timeq s cpuidx in
      bindE (assertE ''thread->bt_wakeup_time != BMK_SCHED_BLOCK_INFTIME'' (wk t \<noteq> BMK_SCHED_BLOCK_INFTIME)) (\<lambda>_.
      if q = [] then Inr (s\<lparr>sc_timeq := (sc_timeq s)(cpuidx := [t])\<rparr>)
      else
        (case timeq_insert wk t q of
           Some q' \<Rightarrow> Inr (s\<lparr>sc_timeq := (sc_timeq s)(cpuidx := q')\<rparr>)
         | None \<Rightarrow>
             bindE (assertE ''TAILQ_LAST(&timeq[cpuidx])->bt_wakeup_time <= thread->bt_wakeup_time''
               (wk (last q) \<le> wk t)) (\<lambda>_.
             Inr (s\<lparr>sc_timeq := (sc_timeq s)(cpuidx := q @ [t])\<rparr>)))))"

text \<open>\<^verbatim>\<open>TAILQ_REMOVE\<close> of a thread that is not on the queue corrupts it.\<close>

definition timeq_remove :: "nat \<Rightarrow> nat \<Rightarrow> sched \<Rightarrow> sched res" where
  "timeq_remove cpuidx t s =
     (if t \<in> set (sc_timeq s cpuidx)
      then Inr (s\<lparr>sc_timeq := (sc_timeq s)(cpuidx := remove1 t (sc_timeq s cpuidx))\<rparr>)
      else Inl (Undefined ''TAILQ_REMOVE''))"

section \<open>Stacks and thread-local storage\<close>

text \<open>A null pointer is 0.\<close>

definition stackalloc :: "sched \<Rightarrow> ((nat \<times> nat) \<times> sched) res" where
  "stackalloc s =
     bindE (bmk_pgalloc (int (sc_stackpageorder s)) (pgs (sc_mem s))) (\<lambda>(p, pg).
       Inr ((case p of None \<Rightarrow> 0 | Some a \<Rightarrow> a, sc_stacksize s),
            s\<lparr>sc_mem := (sc_mem s)\<lparr>pgs := pg\<rparr>\<rparr>))"

definition stackfree :: "nat \<Rightarrow> sched \<Rightarrow> sched res" where
  "stackfree t s =
     bindE (bmk_pgfree (bt_stackbase (sc_thread s t)) (int (sc_stackpageorder s)) (pgs (sc_mem s)))
       (\<lambda>pg. Inr (s\<lparr>sc_mem := (sc_mem s)\<lparr>pgs := pg\<rparr>\<rparr>))"

definition store64 :: "nat \<Rightarrow> nat \<Rightarrow> sched \<Rightarrow> sched" where
  "store64 a v s = s\<lparr>sc_mem := (sc_mem s)\<lparr>bytes := (\<lambda>x.
     if a \<le> x \<and> x < a + 8 then word_of_nat (v div 2 ^ (8 * (x - a))) else bytes (sc_mem s) x)\<rparr>\<rparr>"

definition TMEMSIZE :: "sched \<Rightarrow> nat" where
  "TMEMSIZE s = (sc_tdatasize s + sc_tbsssize s + 8 - 1) div 8 * 8"

definition TCBOFFSET :: "sched \<Rightarrow> nat" where "TCBOFFSET s = TMEMSIZE s"

definition TLSAREASIZE :: "sched \<Rightarrow> nat" where "TLSAREASIZE s = TMEMSIZE s + 6 * 8"

text \<open>The result of \<^verbatim>\<open>bmk_memalloc\<close> is used without a test.\<close>

definition bmk_sched_tls_alloc :: "sched \<Rightarrow> (nat \<times> sched) res" where
  "bmk_sched_tls_alloc s =
     bindE (bmk_memalloc (TLSAREASIZE s) 0 BMK_MEMWHO_WIREDBMK (sc_mem s)) (\<lambda>(r, m).
       case r of
         None \<Rightarrow> Inl (Undefined ''tlsmem'')
       | Some p \<Rightarrow>
           Inr (p + TCBOFFSET s,
             s\<lparr>sc_mem := memset_bytes (p + sc_tdatasize s) 0 (sc_tbsssize s)
                 (memcpy_bytes p (sc_tdata s) (sc_tdatasize s) m)\<rparr>))"

definition bmk_sched_tls_free :: "nat \<Rightarrow> sched \<Rightarrow> sched res" where
  "bmk_sched_tls_free mem s =
     bindE (bmk_memfree (Some (mem - TCBOFFSET s)) BMK_MEMWHO_WIREDBMK (sc_mem s))
       (\<lambda>m. Inr (s\<lparr>sc_mem := m\<rparr>))"

definition bmk_sched_gettcb :: "nat \<Rightarrow> sched \<Rightarrow> nat" where
  "bmk_sched_gettcb cpu s = bt_tp (sc_thread s (sc_current s cpu))"

definition inittcb :: "nat \<Rightarrow> nat \<Rightarrow> sched \<Rightarrow> sched" where
  "inittcb t tlsarea s = upd_thread t (bt_tp_update (\<lambda>_. tlsarea)) (store64 tlsarea tlsarea s)"

definition thread_addr :: "sched \<Rightarrow> nat \<Rightarrow> nat" where
  "thread_addr s t = sc_thread_base s + t * sizeof_thread"

definition initcurrent :: "nat \<Rightarrow> nat \<Rightarrow> sched \<Rightarrow> sched" where
  "initcurrent tcb t s = store64 (nat (int tcb + sc_curoff s)) (thread_addr s t) s"

text \<open>\<^verbatim>\<open>stack_push\<close> and \<^verbatim>\<open>bmk_cpu_sched_create\<close> of \<^verbatim>\<open>arch/x86/cpu_sched.c\<close>.\<close>

definition stack_push :: "nat \<Rightarrow> nat \<Rightarrow> sched \<Rightarrow> nat \<times> sched" where
  "stack_push stack v s = (stack - 8, store64 (stack - 8) v s)"

definition bmk_cpu_sched_create :: "nat \<Rightarrow> nat \<Rightarrow> nat \<Rightarrow> nat \<Rightarrow> nat \<Rightarrow> nat \<Rightarrow> sched \<Rightarrow> sched res" where
  "bmk_cpu_sched_create bouncer t f arg stack_base stack_size s =
     (if stack_base = 0 then Inl (Undefined ''stack_base'')
      else
        let top = stack_base + stack_size;
            s = store64 stack_base (thread_addr s t) s;
            (top, s) = stack_push top 0 s;
            (top, s) = stack_push top f s;
            (top, s) = stack_push top arg s;
            (top, s) = stack_push top bouncer s
        in Inr (upd_thread t (bt_sp_update (\<lambda>_. top)) (s\<lparr>sc_virgin := (sc_virgin s)(t := True)\<rparr>)))"

section \<open>Wake-ups\<close>

definition run_enqueue :: "nat \<Rightarrow> nat \<Rightarrow> sched \<Rightarrow> sched res" where
  "run_enqueue cpuidx idx s =
     (case sc_runq s cpuidx of
        None \<Rightarrow> Inl (Undefined ''runq'')
      | Some q \<Rightarrow> bindE (thread_enq q idx) (\<lambda>q. Inr (s\<lparr>sc_runq := (sc_runq s)(cpuidx := Some q)\<rparr>)))"

definition bmk_sched_wake :: "nat \<Rightarrow> sched \<Rightarrow> sched res" where
  "bmk_sched_wake t s = run_enqueue (bt_cpuidx (sc_thread s t)) (bt_idx (sc_thread s t)) s"

definition bmk_sched_wake_timeq :: "nat \<Rightarrow> sched \<Rightarrow> sched res" where
  "bmk_sched_wake_timeq t s =
     (let timedout = bt_timedout (sc_thread s t) in
      bindE (if timedout = 0 then timeq_remove (bt_cpuidx (sc_thread s t)) t s else Inr s) (\<lambda>s.
      if timedout = 0 then bmk_sched_wake t s else Inr s))"

section \<open>schedule\<close>

text \<open>
  The loops over a timeout queue; \<open>wake\<close> is what \<^verbatim>\<open>thread->bt_wake\<close> does. The result carries
  \<^verbatim>\<open>waketime\<close>.
\<close>

partial_function (option) expire_loop ::
  "(nat \<Rightarrow> nat \<Rightarrow> sched \<Rightarrow> sched res) \<Rightarrow> nat \<Rightarrow> int \<Rightarrow> int \<Rightarrow> sched \<Rightarrow> (int \<times> sched) res option" where
  "expire_loop wake cpuidx curtime waketime s =
     (case sc_timeq s cpuidx of
        [] \<Rightarrow> Some (Inr (waketime, s))
      | t # _ \<Rightarrow>
          if bt_wakeup_time (sc_thread s t) \<le> curtime then
            (case bindE (timeq_remove cpuidx t (upd_thread t (bt_timedout_update (\<lambda>_. BMK_ETIMEDOUT)) s))
                    (wake (bt_wake (sc_thread s t)) t) of
               Inl e \<Rightarrow> Some (Inl e)
             | Inr s \<Rightarrow> expire_loop wake cpuidx curtime waketime s)
          else
            Some (Inr (if bt_wakeup_time (sc_thread s t) < waketime
                       then bt_wakeup_time (sc_thread s t) else waketime, s)))"

declare expire_loop.simps [code]

definition expire :: "(nat \<Rightarrow> nat \<Rightarrow> sched \<Rightarrow> sched res) \<Rightarrow> nat \<Rightarrow> int \<Rightarrow> sched \<Rightarrow> sched res" where
  "expire wake cpu curtime s =
     bindE (bindE (loopE (expire_loop wake cpu curtime (curtime + BLOCKTIME_MAX) s)) (\<lambda>r. r)) (\<lambda>(waketime, s).
     if sc_numcpus s \<noteq> 1
     then bindE (bindE (loopE (expire_loop wake MAXCPUS curtime waketime s)) (\<lambda>r. r)) (\<lambda>(_, s). Inr s)
     else Inr s)"

text \<open>
  The first two branches of the loop: the CPU's own run queue, then the shared one. A dequeue changes
  the ring also when it finds nothing.
\<close>

definition runq_dequeue :: "nat \<Rightarrow> sched \<Rightarrow> (u64 \<times> sched) res" where
  "runq_dequeue cpuidx s =
     (case sc_runq s cpuidx of
        None \<Rightarrow> Inl (Undefined ''runq'')
      | Some q \<Rightarrow> bindE (thread_deq q) (\<lambda>(idx, q). Inr (idx, s\<lparr>sc_runq := (sc_runq s)(cpuidx := Some q)\<rparr>)))"

definition schedule_dequeue :: "nat \<Rightarrow> sched \<Rightarrow> (u64 \<times> sched) res" where
  "schedule_dequeue cpu s =
     bindE (runq_dequeue cpu s) (\<lambda>(idx, s).
       if idx \<noteq> LFRING_EMPTY then Inr (idx, s)
       else if sc_numcpus s \<noteq> 1 then runq_dequeue MAXCPUS s
       else Inr (idx, s))"

text \<open>The loop, one clock reading per iteration that finds the run queues empty.\<close>

fun schedule_pick ::
  "(nat \<Rightarrow> nat \<Rightarrow> sched \<Rightarrow> sched res) \<Rightarrow> nat \<Rightarrow> int list \<Rightarrow> sched \<Rightarrow> (nat \<times> sched) res" where
  "schedule_pick wake cpu [] s =
     bindE (schedule_dequeue cpu s) (\<lambda>(idx, s).
       if idx \<noteq> LFRING_EMPTY then Inr (unat idx, s) else Inl NoReturn)"
| "schedule_pick wake cpu (curtime # clk) s =
     bindE (schedule_dequeue cpu s) (\<lambda>(idx, s).
       if idx \<noteq> LFRING_EMPTY then Inr (unat idx, s)
       else
         bindE (expire wake cpu curtime s) (\<lambda>s.
           if Some (sc_current s cpu) \<noteq> sc_idle s cpu
           then (case sc_idle s cpu of None \<Rightarrow> Inl (Undefined ''next'') | Some idle \<Rightarrow> Inr (idle, s))
           else schedule_pick wake cpu clk s))"

text \<open>
  The switch: the callback of \<open>data\<close> runs once the previous thread's context is saved and before
  the next one continues. \<open>None\<close> is a null \<^verbatim>\<open>data\<close>.
\<close>

type_synonym block_data = "(nat \<Rightarrow> sched \<Rightarrow> sched res) option"

definition sched_switch :: "nat \<Rightarrow> nat \<Rightarrow> nat \<Rightarrow> block_data \<Rightarrow> sched \<Rightarrow> sched res" where
  "sched_switch cpu prev next data s =
     (let s = s\<lparr>sc_virgin := (sc_virgin s)(prev := False), sc_current := (sc_current s)(cpu := next)\<rparr>
      in case data of None \<Rightarrow> Inr s | Some callback \<Rightarrow> callback prev s)"

partial_function (option) reaper :: "sched \<Rightarrow> sched res option" where
  "reaper s =
     (case bindE (thread_deq (sc_zombieq s)) (\<lambda>(idx, q).
             let s = s\<lparr>sc_zombieq := q\<rparr>; t = unat idx in
             if idx = LFRING_EMPTY then Inr (False, s)
             else
               bindE (if bt_flags (sc_thread s t) AND THR_EXTSTACK = 0 then stackfree t s else Inr s) (\<lambda>s.
               bindE (thread_enq (sc_freeq s) t) (\<lambda>q. Inr (True, s\<lparr>sc_freeq := q\<rparr>)))) of
        Inl e \<Rightarrow> Some (Inl e)
      | Inr r \<Rightarrow> (case r of (again, s) \<Rightarrow> if again then reaper s else Some (Inr s)))"

declare reaper.simps [code]

text \<open>
  A thread that runs for the first time starts in the bouncer, so the reaper is left to the next
  thread that comes back from a switch.
\<close>

definition schedule ::
  "(nat \<Rightarrow> nat \<Rightarrow> sched \<Rightarrow> sched res) \<Rightarrow> nat \<Rightarrow> int list \<Rightarrow> block_data \<Rightarrow> sched \<Rightarrow> sched res" where
  "schedule wake cpu clk data s =
     (let prev = sc_current s cpu in
      bindE (schedule_pick wake cpu clk s) (\<lambda>(next, s).
      let virgin = sc_virgin s next \<and> prev \<noteq> next in
      bindE (if prev \<noteq> next then sched_switch cpu prev next data s else Inr s) (\<lambda>s.
      if virgin then Inr (s\<lparr>sc_virgin := (sc_virgin s)(next := False)\<rparr>)
      else bindE (loopE (reaper s)) (\<lambda>r. r))))"

section \<open>Creation and exit\<close>

definition do_block_node_alloc :: "sched \<Rightarrow> (nat \<times> sched) res" where
  "do_block_node_alloc s =
     bindE (loopE (lfring_dequeue (sc_nodes s) BMK_MAX_BLOCKQ_ORDER False)) (\<lambda>(idx, q).
       if idx = LFRING_EMPTY then Inl (Halt ''ran out of block queue nodes'')
       else Inr (unat idx, s\<lparr>sc_nodes := q\<rparr>))"

definition thread_zero :: bmk_thread where
  "thread_zero = \<lparr>bt_sp = 0, bt_tp = 0, bt_block_node = 0, bt_idx = 0, bt_cpuidx = 0, bt_name = '''',
     bt_timedout = 0, bt_flags = 0, bt_errno = 0, bt_stackbase = 0, bt_cookie = 0, bt_wakeup_time = 0,
     bt_wake = 0, bt_join = 0, bt_exit = 0\<rparr>"

text \<open>\<^verbatim>\<open>join_init\<close> stores 1; \<^verbatim>\<open>cpuidx\<close> is converted to \<^verbatim>\<open>unsigned int\<close>.\<close>

definition create_thread :: "nat \<Rightarrow> string \<Rightarrow> bool \<Rightarrow> int \<Rightarrow> sched \<Rightarrow> sched res" where
  "create_thread idx name joinable cpuidx s =
     (let cpu = (if sc_numcpus s = 1 then 0
                 else if cpuidx = - 1 then MAXCPUS else nat (cpuidx mod 2 ^ 32)) in
      if MAXCPUS < cpu then Inl (Halt ''out of range CPU index'')
      else Inr (s\<lparr>sc_thread := (sc_thread s)(idx := thread_zero\<lparr>bt_idx := idx, bt_cpuidx := cpu,
        bt_name := take (NAME_MAXLEN - 1) name\<rparr>)\<rparr>))"

definition do_sched_create_withtls ::
  "nat \<Rightarrow> string \<Rightarrow> nat \<Rightarrow> bool \<Rightarrow> int \<Rightarrow> nat \<Rightarrow> nat \<Rightarrow> nat \<Rightarrow> nat \<Rightarrow> nat \<Rightarrow> bool \<Rightarrow> sched \<Rightarrow> (nat option \<times> sched) res" where
  "do_sched_create_withtls bouncer name cookie joinable cpuidx f data stack_base stack_size tlsarea ins s =
     bindE (thread_deq (sc_freeq s)) (\<lambda>(i, q).
     let s = s\<lparr>sc_freeq := q\<rparr>; idx = unat i in
     if i = LFRING_EMPTY then Inr (None, s)
     else
       bindE (create_thread idx name joinable cpuidx s) (\<lambda>s.
       bindE (if stack_base = 0
              then bindE (assertE ''stack_size == 0'' (stack_size = 0)) (\<lambda>_. stackalloc s)
              else Inr ((stack_base, stack_size), upd_thread idx (bt_flags_update (\<lambda>_. THR_EXTSTACK)) s))
         (\<lambda>((stack_base, stack_size), s).
       let s = upd_thread idx (bt_stackbase_update (\<lambda>_. stack_base)) s;
           s = (if joinable
                then upd_thread idx (\<lambda>t. t\<lparr>bt_flags := bt_flags t OR THR_MUSTJOIN, bt_join := 1, bt_exit := 1\<rparr>) s
                else s)
       in
       bindE (bmk_cpu_sched_create bouncer idx f data stack_base stack_size s) (\<lambda>s.
       let s = upd_thread idx (\<lambda>t. t\<lparr>bt_cookie := cookie, bt_wakeup_time := BMK_SCHED_BLOCK_INFTIME\<rparr>) s;
           s = initcurrent tlsarea idx (inittcb idx tlsarea s)
       in
       bindE (do_block_node_alloc s) (\<lambda>(node, s).
       let s = upd_thread idx (bt_block_node_update (\<lambda>_. node)) s;
           s = s\<lparr>sc_node_object := (sc_node_object s)(node := idx)\<rparr>
       in
       bindE (if ins then run_enqueue (bt_cpuidx (sc_thread s idx)) idx s else Inr s) (\<lambda>s.
       Inr (Some idx, s)))))))"

definition bmk_sched_create_withtls ::
  "nat \<Rightarrow> string \<Rightarrow> nat \<Rightarrow> bool \<Rightarrow> int \<Rightarrow> nat \<Rightarrow> nat \<Rightarrow> nat \<Rightarrow> nat \<Rightarrow> nat \<Rightarrow> sched \<Rightarrow> (nat option \<times> sched) res" where
  "bmk_sched_create_withtls bouncer name cookie joinable cpuidx f data stack_base stack_size tlsarea s =
     do_sched_create_withtls bouncer name cookie joinable cpuidx f data stack_base stack_size tlsarea True s"

definition do_sched_create ::
  "nat \<Rightarrow> string \<Rightarrow> nat \<Rightarrow> bool \<Rightarrow> int \<Rightarrow> nat \<Rightarrow> nat \<Rightarrow> nat \<Rightarrow> nat \<Rightarrow> bool \<Rightarrow> sched \<Rightarrow> (nat option \<times> sched) res" where
  "do_sched_create bouncer name cookie joinable cpuidx f data stack_base stack_size ins s =
     bindE (bmk_sched_tls_alloc s) (\<lambda>(tlsarea, s).
       do_sched_create_withtls bouncer name cookie joinable cpuidx f data stack_base stack_size tlsarea ins s)"

definition bmk_sched_create ::
  "nat \<Rightarrow> string \<Rightarrow> nat \<Rightarrow> bool \<Rightarrow> int \<Rightarrow> nat \<Rightarrow> nat \<Rightarrow> nat \<Rightarrow> nat \<Rightarrow> sched \<Rightarrow> (nat option \<times> sched) res" where
  "bmk_sched_create bouncer name cookie joinable cpuidx f data stack_base stack_size s =
     do_sched_create bouncer name cookie joinable cpuidx f data stack_base stack_size True s"

definition exit_callback :: "nat \<Rightarrow> sched \<Rightarrow> sched res" where
  "exit_callback prev s =
     bindE (thread_enq (sc_zombieq s) (bt_idx (sc_thread s prev))) (\<lambda>q. Inr (s\<lparr>sc_zombieq := q\<rparr>))"

definition yield_callback :: "nat \<Rightarrow> sched \<Rightarrow> sched res" where
  "yield_callback prev s = run_enqueue (bt_cpuidx (sc_thread s prev)) (bt_idx (sc_thread s prev)) s"

definition bmk_sched_yield ::
  "(nat \<Rightarrow> nat \<Rightarrow> sched \<Rightarrow> sched res) \<Rightarrow> nat \<Rightarrow> int list \<Rightarrow> sched \<Rightarrow> sched res" where
  "bmk_sched_yield wake cpu clk s = schedule wake cpu clk (Some yield_callback) s"

definition bmk_sched_blockprepare_timeout :: "nat \<Rightarrow> int \<Rightarrow> nat \<Rightarrow> sched \<Rightarrow> sched" where
  "bmk_sched_blockprepare_timeout cpu deadline wk s =
     upd_thread (sc_current s cpu) (\<lambda>t. t\<lparr>bt_wakeup_time := deadline, bt_wake := wk\<rparr>) s"

definition bmk_sched_blockprepare :: "nat \<Rightarrow> sched \<Rightarrow> sched" where
  "bmk_sched_blockprepare cpu s =
     upd_thread (sc_current s cpu) (bt_wakeup_time_update (\<lambda>_. BMK_SCHED_BLOCK_INFTIME)) s"

text \<open>
  The part of \<^verbatim>\<open>bmk_sched_block\<close> up to the switch; what it returns is the \<^verbatim>\<open>bt_timedout\<close> of the thread
  once it runs again.
\<close>

definition bmk_sched_block ::
  "(nat \<Rightarrow> nat \<Rightarrow> sched \<Rightarrow> sched res) \<Rightarrow> nat \<Rightarrow> int list \<Rightarrow> block_data \<Rightarrow> sched \<Rightarrow> sched res" where
  "bmk_sched_block wake cpu clk data s =
     schedule wake cpu clk data (upd_thread (sc_current s cpu) (bt_timedout_update (\<lambda>_. 0)) s)"

text \<open>The exit of a thread that nobody joins; a joinable one first goes through \<open>join_post\<close> and \<open>join_wait\<close>.\<close>

definition exit_schedule ::
  "(nat \<Rightarrow> nat \<Rightarrow> sched \<Rightarrow> sched res) \<Rightarrow> nat \<Rightarrow> int list \<Rightarrow> sched \<Rightarrow> sched res" where
  "exit_schedule wake cpu clk s = schedule wake cpu clk (Some exit_callback) s"

definition bmk_sched_suspend :: "nat \<Rightarrow> sched \<Rightarrow> sched res" where
  "bmk_sched_suspend t s = Inl (Halt ''sched_suspend unimplemented'')"

definition bmk_sched_unsuspend :: "nat \<Rightarrow> sched \<Rightarrow> sched res" where
  "bmk_sched_unsuspend t s = Inl (Halt ''sched_unsuspend unimplemented'')"

definition bmk_sched_init_mainlwp :: "nat \<Rightarrow> nat \<Rightarrow> sched \<Rightarrow> nat \<times> sched" where
  "bmk_sched_init_mainlwp cpu cookie s =
     (sc_current s cpu, upd_thread (sc_current s cpu) (bt_cookie_update (\<lambda>_. cookie)) s)"

definition bmk_sched_threadname :: "nat \<Rightarrow> sched \<Rightarrow> string" where
  "bmk_sched_threadname t s = bt_name (sc_thread s t)"

section \<open>Start\<close>

text \<open>
  Each queue gets its own allocation; what the ring holds before it is initialised is \<open>raw\<close>. The
  offset of \<^verbatim>\<open>bmk_current\<close> in the thread-local area is \<open>curoff\<close>.
\<close>

definition alloc_or_halt :: "string \<Rightarrow> nat \<Rightarrow> nat \<Rightarrow> sched \<Rightarrow> (nat \<times> sched) res" where
  "alloc_or_halt msg sz align s =
     bindE (bmk_memalloc sz align BMK_MEMWHO_WIREDBMK (sc_mem s)) (\<lambda>(p, m).
       case p of None \<Rightarrow> Inl (Halt msg) | Some a \<Rightarrow> Inr (a, s\<lparr>sc_mem := m\<rparr>))"

fun init_runqs :: "lfring \<Rightarrow> nat \<Rightarrow> nat \<Rightarrow> sched \<Rightarrow> sched res" where
  "init_runqs raw i 0 s = Inr s"
| "init_runqs raw i (Suc n) s =
     bindE (alloc_or_halt ''cannot allocate local runq'' (LFRING_SIZE BMK_MAX_THREADS_ORDER) LFRING_ALIGN s)
       (\<lambda>(_, s). init_runqs raw (i + 1) n
          (s\<lparr>sc_runq := (sc_runq s)(i := Some (lfring_init_empty raw BMK_MAX_THREADS_ORDER))\<rparr>))"

definition bmk_sched_init :: "lfring \<Rightarrow> lfring \<Rightarrow> int \<Rightarrow> sched \<Rightarrow> sched res" where
  "bmk_sched_init raw rawn curoff s =
     (if MAXCPUS < sc_numcpus s then Inl (Halt ''too many CPUs'')
      else
        let s = s\<lparr>sc_timeq := (\<lambda>i. if i \<le> MAXCPUS then [] else sc_timeq s i),
                  sc_runq := (\<lambda>i. if i \<le> MAXCPUS then None else sc_runq s i)\<rparr> in
        bindE (alloc_or_halt ''cannot allocate nodes_array'' (sizeof_node * BMK_MAX_BLOCKQ) BMK_PCPU_L1_SIZE s) (\<lambda>(_, s).
        let s = s\<lparr>sc_node_index := (\<lambda>i. if i < BMK_MAX_BLOCKQ then i else sc_node_index s i)\<rparr> in
        bindE (alloc_or_halt ''cannot allocate thread_array'' (sizeof_thread * BMK_MAX_THREADS) BMK_PCPU_L1_SIZE s) (\<lambda>(ta, s).
        bindE (alloc_or_halt ''cannot allocate freeq'' (LFRING_SIZE BMK_MAX_THREADS_ORDER) LFRING_ALIGN
                 (s\<lparr>sc_thread_base := ta\<rparr>)) (\<lambda>(_, s).
        bindE (init_runqs raw 0 (sc_numcpus s)
                 (s\<lparr>sc_freeq := lfring_init_full raw BMK_MAX_THREADS_ORDER\<rparr>)) (\<lambda>s.
        bindE (if sc_numcpus s \<noteq> 1 then
                 bindE (alloc_or_halt ''cannot allocate runq'' (LFRING_SIZE BMK_MAX_THREADS_ORDER) LFRING_ALIGN s)
                   (\<lambda>(_, s). Inr (s\<lparr>sc_runq := (sc_runq s)(MAXCPUS := Some (lfring_init_empty raw BMK_MAX_THREADS_ORDER))\<rparr>))
               else Inr s) (\<lambda>s.
        bindE (alloc_or_halt ''cannot allocate zombieq'' (LFRING_SIZE BMK_MAX_THREADS_ORDER) LFRING_ALIGN s) (\<lambda>(_, s).
        bindE (alloc_or_halt ''cannot allocate nodes'' (LFRING_SIZE BMK_MAX_BLOCKQ_ORDER) LFRING_ALIGN
                 (s\<lparr>sc_zombieq := lfring_init_empty raw BMK_MAX_THREADS_ORDER\<rparr>)) (\<lambda>(_, s).
        Inr (s\<lparr>sc_nodes := lfring_init_full rawn BMK_MAX_BLOCKQ_ORDER, sc_curoff := curoff\<rparr>)))))))))"

text \<open>
  \<^verbatim>\<open>bmk_sched_startmain\<close> up to the switch to the first thread. The result of the idle thread's creation
  is not tested, and a null pointer is what is then switched to.
\<close>

definition start_switch :: "nat \<Rightarrow> nat option \<Rightarrow> sched \<Rightarrow> sched res" where
  "start_switch cpu thread s =
     (case thread of
        None \<Rightarrow> Inl (Undefined ''next'')
      | Some t \<Rightarrow> Inr (s\<lparr>sc_current := (sc_current s)(cpu := t), sc_virgin := (sc_virgin s)(t := False)\<rparr>))"

definition bmk_sched_startmain :: "nat \<Rightarrow> nat \<Rightarrow> nat option \<Rightarrow> nat \<Rightarrow> nat \<Rightarrow> sched \<Rightarrow> sched res" where
  "bmk_sched_startmain bouncer idle_thread mainfun arg cpu s =
     bindE (do_sched_create bouncer ''idle'' 0 False (int cpu) idle_thread 0 0 0 False s) (\<lambda>(thread, s).
     let s = s\<lparr>sc_idle := (sc_idle s)(cpu := thread)\<rparr> in
     case mainfun of
       None \<Rightarrow> start_switch cpu thread s
     | Some f \<Rightarrow>
         bindE (stackalloc s) (\<lambda>((base, sz), s).
         bindE (do_sched_create bouncer ''main'' 0 False (- 1) f arg base sz False
                  (s\<lparr>sc_mainstack := (base, sz)\<rparr>)) (\<lambda>(thread, s).
         if thread = None then Inl (Halt ''failed to create main thread'')
         else start_switch cpu thread s)))"

end
