(* ===== verification/Sched_Inv.thy ===== *)
theory Sched_Inv
  imports Sched "HOL-Library.Multiset"
begin

text \<open>
  The scheduler's invariant: every thread slot is in at most one place and there once, the timeout
  queues are sorted, and the stacks of the live threads are disjoint blocks of allocated pages. The
  operations preserve it, return, and move the slots as they should.
\<close>

section \<open>The thread rings as lists of slots\<close>

definition titems :: "lfring \<Rightarrow> nat list" where
  "titems q = map unat (lfring_list BMK_MAX_THREADS_ORDER q)"

abbreviation "twf \<equiv> lfring_wf BMK_MAX_THREADS_ORDER"

definition all_slots :: "nat multiset" where "all_slots = mset_set {..<BMK_MAX_THREADS}"

lemma max_threads: "BMK_MAX_THREADS = 32768"
  by (simp add: BMK_MAX_THREADS_def BMK_MAX_THREADS_ORDER_def)

lemma slot_valid:
  assumes "i < BMK_MAX_THREADS"
  shows "take_bit (Suc BMK_MAX_THREADS_ORDER) (word_of_nat i :: u64) = word_of_nat i"
    and "unat (word_of_nat i :: u64) = i"
proof -
  show u: "unat (word_of_nat i :: u64) = i" using assms by (simp add: max_threads unsigned_of_nat take_bit_nat_def)
  show "take_bit (Suc BMK_MAX_THREADS_ORDER) (word_of_nat i :: u64) = word_of_nat i"
    using assms by (intro word_unat_eq_iff [THEN iffD2])
      (simp add: unat_take_bit_mod u max_threads BMK_MAX_THREADS_ORDER_def)
qed

lemma thread_enq_ok:
  assumes "twf q" "length (titems q) < BMK_MAX_THREADS" "i < BMK_MAX_THREADS"
  obtains q' where "thread_enq q i = Inr q'" "twf q'" "titems q' = titems q @ [i]"
proof -
  obtain q' where "lfring_enqueue q BMK_MAX_THREADS_ORDER (word_of_nat i) False = Some q'" "twf q'"
    "lfring_list BMK_MAX_THREADS_ORDER q' = lfring_list BMK_MAX_THREADS_ORDER q @ [word_of_nat i]"
    using thread_ring.enq_law [OF assms(1) _ slot_valid(1) [OF assms(3)]] assms(2)
    by (auto simp: titems_def BMK_MAX_THREADS_def)
  then show thesis using that slot_valid(2) [OF assms(3)] by (simp add: titems_def)
qed

lemma thread_deq_Cons:
  assumes "twf q" "titems q = i # xs"
  obtains x q' where "thread_deq q = Inr (x, q')" "x \<noteq> LFRING_EMPTY" "unat x = i" "twf q'" "titems q' = xs"
proof -
  obtain x ys where l: "lfring_list BMK_MAX_THREADS_ORDER q = x # ys" "unat x = i" "map unat ys = xs"
    using assms(2) by (auto simp: titems_def)
  obtain q' where "lfring_dequeue q BMK_MAX_THREADS_ORDER False = Some (x, q')" "twf q'"
    "lfring_list BMK_MAX_THREADS_ORDER q' = ys"
    using thread_ring.deq_Cons_law [OF assms(1) l(1)] by blast
  moreover have "x \<noteq> LFRING_EMPTY"
    using thread_ring.valid_law [OF assms(1), of x] thread_ring.empty_mark_law l(1) by auto
  ultimately show thesis using that l by (simp add: titems_def)
qed

lemma thread_deq_Nil:
  assumes "twf q" "titems q = []"
  obtains q' where "thread_deq q = Inr (LFRING_EMPTY, q')" "twf q'" "titems q' = []"
  using thread_ring.deq_Nil_law [OF assms(1)] assms(2) that by (auto simp: titems_def)

section \<open>Where the slots are\<close>

definition runq_list :: "(nat \<Rightarrow> lfring option) \<Rightarrow> nat \<Rightarrow> nat list" where
  "runq_list rq c = (case rq c of None \<Rightarrow> [] | Some q \<Rightarrow> titems q)"

abbreviation runq_items :: "sched \<Rightarrow> nat \<Rightarrow> nat list" where
  "runq_items s \<equiv> runq_list (sc_runq s)"

text \<open>A started CPU holds its idle thread and, when it is another one, the running thread.\<close>

definition cpu_list :: "(nat \<Rightarrow> nat option) \<Rightarrow> (nat \<Rightarrow> nat) \<Rightarrow> nat \<Rightarrow> nat list" where
  "cpu_list idle cur c = (case idle c of None \<Rightarrow> [] | Some i \<Rightarrow> if cur c = i then [i] else [cur c, i])"

abbreviation cpu_items :: "sched \<Rightarrow> nat \<Rightarrow> nat list" where
  "cpu_items s \<equiv> cpu_list (sc_idle s) (sc_current s)"

definition slots :: "sched \<Rightarrow> nat multiset" where
  "slots s = mset (titems (sc_freeq s)) + mset (titems (sc_zombieq s)) +
     (\<Sum>c\<le>MAXCPUS. mset (runq_items s c)) + (\<Sum>c\<le>MAXCPUS. mset (sc_timeq s c)) +
     (\<Sum>c\<le>MAXCPUS. mset (cpu_items s c))"

lemma runq_list_upd [simp]: "runq_list (rq(c := Some q)) = (runq_list rq)(c := titems q)"
  by (simp add: runq_list_def fun_eq_iff)

lemma sum_mset_upd:
  fixes f g :: "nat \<Rightarrow> 'a multiset"
  assumes "c \<le> n" "\<And>i. i \<noteq> c \<Longrightarrow> g i = f i"
  shows "(\<Sum>i\<le>n. g i) + f c = (\<Sum>i\<le>n. f i) + g c"
proof -
  have "(\<Sum>i\<le>n. g i) = g c + (\<Sum>i\<in>{..n} - {c}. g i)" "(\<Sum>i\<le>n. f i) = f c + (\<Sum>i\<in>{..n} - {c}. f i)"
    using assms(1) by (auto intro: sum.remove)
  moreover have "(\<Sum>i\<in>{..n} - {c}. g i) = (\<Sum>i\<in>{..n} - {c}. f i)" using assms(2) by (intro sum.cong) auto
  ultimately show ?thesis by (simp add: ac_simps)
qed

text \<open>One lemma per place: replacing the content of one place moves the difference.\<close>

lemma slots_runq:
  assumes "c \<le> MAXCPUS"
  shows "slots (s\<lparr>sc_runq := (sc_runq s)(c := Some q)\<rparr>) + mset (runq_items s c) = slots s + mset (titems q)"
  using sum_mset_upd [OF assms, of "\<lambda>i. mset (((runq_items s)(c := titems q)) i)" "\<lambda>i. mset (runq_items s i)"]
  by (simp add: slots_def ac_simps)

lemma slots_timeq:
  assumes "c \<le> MAXCPUS"
  shows "slots (s\<lparr>sc_timeq := (sc_timeq s)(c := q)\<rparr>) + mset (sc_timeq s c) = slots s + mset q"
  using sum_mset_upd [OF assms, of "\<lambda>i. mset (((sc_timeq s)(c := q)) i)" "\<lambda>i. mset (sc_timeq s i)"]
  by (simp add: slots_def ac_simps)

lemma slots_current:
  assumes "c \<le> MAXCPUS"
  shows "slots (s\<lparr>sc_current := (sc_current s)(c := t)\<rparr>) + mset (cpu_items s c) =
    slots s + mset (cpu_items (s\<lparr>sc_current := (sc_current s)(c := t)\<rparr>) c)"
proof -
  have "cpu_list idle (cur(c := t)) i = cpu_list idle cur i" if "i \<noteq> c" for i idle cur
    using that by (simp add: cpu_list_def split: option.split)
  then have "(\<Sum>i\<le>MAXCPUS. mset (cpu_list (sc_idle s) ((sc_current s)(c := t)) i)) + mset (cpu_items s c) =
      (\<Sum>i\<le>MAXCPUS. mset (cpu_items s i)) + mset (cpu_list (sc_idle s) ((sc_current s)(c := t)) c)"
    by (intro sum_mset_upd [OF assms]) simp
  then show ?thesis by (simp add: slots_def ac_simps)
qed

lemma slots_freeq: "slots (s\<lparr>sc_freeq := q\<rparr>) + mset (titems (sc_freeq s)) = slots s + mset (titems q)"
  by (simp add: slots_def ac_simps)

lemma slots_zombieq: "slots (s\<lparr>sc_zombieq := q\<rparr>) + mset (titems (sc_zombieq s)) = slots s + mset (titems q)"
  by (simp add: slots_def ac_simps)

lemma slots_frame [simp]:
  "slots (s\<lparr>sc_thread := th\<rparr>) = slots s" "slots (s\<lparr>sc_virgin := v\<rparr>) = slots s"
  "slots (s\<lparr>sc_mem := m\<rparr>) = slots s" "slots (s\<lparr>sc_nodes := ns\<rparr>) = slots s"
  "slots (s\<lparr>sc_node_object := nob\<rparr>) = slots s"
  by (simp_all add: slots_def)

section \<open>The invariant\<close>

definition live :: "sched \<Rightarrow> nat \<Rightarrow> bool" where
  "live s t \<longleftrightarrow> t < BMK_MAX_THREADS \<and> t \<notin> set (titems (sc_freeq s))"

definition own_stack :: "sched \<Rightarrow> nat \<Rightarrow> bool" where
  "own_stack s t \<longleftrightarrow> live s t \<and> bt_flags (sc_thread s t) AND THR_EXTSTACK = 0"

abbreviation stack_blk :: "sched \<Rightarrow> nat \<Rightarrow> nat set" where
  "stack_blk s t \<equiv> blk (bt_stackbase (sc_thread s t)) (sc_stackpageorder s)"

abbreviation "spages s \<equiv> pgs (sc_mem s)"

definition rings_ok :: "sched \<Rightarrow> bool" where
  "rings_ok s \<longleftrightarrow> twf (sc_freeq s) \<and> twf (sc_zombieq s) \<and> (\<forall>c q. sc_runq s c = Some q \<longrightarrow> twf q) \<and>
     lfring_wf BMK_MAX_BLOCKQ_ORDER (sc_nodes s)"

definition cpus_ok :: "sched \<Rightarrow> bool" where
  "cpus_ok s \<longleftrightarrow> 0 < sc_numcpus s \<and> sc_numcpus s \<le> MAXCPUS \<and>
     (\<forall>c. sc_runq s c \<noteq> None \<longleftrightarrow> c < sc_numcpus s \<or> c = MAXCPUS \<and> sc_numcpus s \<noteq> 1) \<and>
     (\<forall>c. sc_idle s c \<noteq> None \<longrightarrow> c < sc_numcpus s)"

definition threads_ok :: "sched \<Rightarrow> bool" where
  "threads_ok s \<longleftrightarrow> (\<forall>t. live s t \<longrightarrow>
     bt_idx (sc_thread s t) = t \<and> sc_runq s (bt_cpuidx (sc_thread s t)) \<noteq> None)"

definition timeq_ok :: "sched \<Rightarrow> bool" where
  "timeq_ok s \<longleftrightarrow> (\<forall>c. sorted (map (\<lambda>t. bt_wakeup_time (sc_thread s t)) (sc_timeq s c)) \<and>
     (\<forall>t\<in>set (sc_timeq s c). bt_cpuidx (sc_thread s t) = c \<and> bt_timedout (sc_thread s t) = 0 \<and> live s t))"

definition stacks_ok :: "sched \<Rightarrow> bool" where
  "stacks_ok s \<longleftrightarrow> pg_wf (spages s) \<and> sc_stackpageorder s < FREELIST_LEVELS \<and>
     (\<forall>t. own_stack s t \<longrightarrow> order2size (sc_stackpageorder s) dvd bt_stackbase (sc_thread s t) \<and>
        stack_blk s t \<subseteq> managed (spages s) \<and> stack_blk s t \<inter> free_bytes (spages s) = {}) \<and>
     (\<forall>t u. own_stack s t \<and> own_stack s u \<and> t \<noteq> u \<longrightarrow> stack_blk s t \<inter> stack_blk s u = {})"

definition sched_wf :: "sched \<Rightarrow> bool" where
  "sched_wf s \<longleftrightarrow> rings_ok s \<and> cpus_ok s \<and> threads_ok s \<and> timeq_ok s \<and> stacks_ok s \<and> slots s \<subseteq># all_slots"

lemma sched_wfD:
  assumes "sched_wf s"
  shows "rings_ok s" "cpus_ok s" "threads_ok s" "timeq_ok s" "stacks_ok s" "slots s \<subseteq># all_slots"
  using assms by (simp_all add: sched_wf_def)

lemma sched_wfI:
  "rings_ok s \<Longrightarrow> cpus_ok s \<Longrightarrow> threads_ok s \<Longrightarrow> timeq_ok s \<Longrightarrow> stacks_ok s \<Longrightarrow> slots s \<subseteq># all_slots \<Longrightarrow>
   sched_wf s"
  by (simp add: sched_wf_def)

lemma all_slots_count: "count all_slots i = (if i < BMK_MAX_THREADS then 1 else 0)"
  by (simp add: all_slots_def)

lemma slots_size: "M \<subseteq># all_slots \<Longrightarrow> size M \<le> BMK_MAX_THREADS"
  using size_mset_mono [of M all_slots] by (simp add: all_slots_def)

lemma slots_add:
  "slots s \<subseteq># all_slots \<Longrightarrow> i \<notin># slots s \<Longrightarrow> i < BMK_MAX_THREADS \<Longrightarrow> add_mset i (slots s) \<subseteq># all_slots"
  unfolding subseteq_mset_def
  by (metis all_slots_count count_add_mset le_refl not_in_iff One_nat_def)

text \<open>A queue into which a slot that is nowhere is put has room.\<close>

lemma room:
  assumes "slots s \<subseteq># all_slots" "i \<notin># slots s" "i < BMK_MAX_THREADS" "mset xs \<subseteq># slots s"
  shows "length xs < BMK_MAX_THREADS"
proof -
  have "size (add_mset i (slots s)) \<le> BMK_MAX_THREADS" using slots_size slots_add assms by blast
  then show ?thesis using size_mset_mono [OF assms(4)] by simp
qed

lemma places_sub:
  "mset (titems (sc_freeq s)) \<subseteq># slots s" "mset (titems (sc_zombieq s)) \<subseteq># slots s"
  "c \<le> MAXCPUS \<Longrightarrow> mset (runq_items s c) \<subseteq># slots s" "c \<le> MAXCPUS \<Longrightarrow> mset (sc_timeq s c) \<subseteq># slots s"
  "c \<le> MAXCPUS \<Longrightarrow> mset (cpu_items s c) \<subseteq># slots s"
proof -
  have le: "f c \<subseteq># (\<Sum>i\<le>MAXCPUS. f i)" if "c \<le> MAXCPUS" for c and f :: "nat \<Rightarrow> nat multiset"
    using that sum.remove [of "{..MAXCPUS}" c f] by simp
  show "mset (titems (sc_freeq s)) \<subseteq># slots s" "mset (titems (sc_zombieq s)) \<subseteq># slots s"
    by (simp_all add: slots_def add.assoc)
  show "mset (runq_items s c) \<subseteq># slots s" "mset (sc_timeq s c) \<subseteq># slots s" "mset (cpu_items s c) \<subseteq># slots s"
    if "c \<le> MAXCPUS"
    using le [OF that, of "\<lambda>i. mset (runq_items s i)"] le [OF that, of "\<lambda>i. mset (sc_timeq s i)"]
      le [OF that, of "\<lambda>i. mset (cpu_items s i)"]
    by (auto simp: slots_def intro: subset_mset.order_trans mset_subset_eq_add_left mset_subset_eq_add_right)
qed

section \<open>Frame rules\<close>

text \<open>What a state with one field replaced needs to be well formed again.\<close>

lemma live_frame [simp]:
  "live (s\<lparr>sc_timeq := tq\<rparr>) = live s" "live (s\<lparr>sc_runq := rq\<rparr>) = live s" "live (s\<lparr>sc_zombieq := q\<rparr>) = live s"
  "live (s\<lparr>sc_current := cu\<rparr>) = live s" "live (s\<lparr>sc_thread := th\<rparr>) = live s" "live (s\<lparr>sc_virgin := v\<rparr>) = live s"
  "live (s\<lparr>sc_mem := m\<rparr>) = live s" "live (s\<lparr>sc_nodes := ns\<rparr>) = live s" "live (s\<lparr>sc_node_object := nob\<rparr>) = live s"
  by (simp_all add: live_def fun_eq_iff)

lemma own_stack_frame [simp]:
  "own_stack (s\<lparr>sc_timeq := tq\<rparr>) = own_stack s" "own_stack (s\<lparr>sc_runq := rq\<rparr>) = own_stack s"
  "own_stack (s\<lparr>sc_zombieq := q\<rparr>) = own_stack s" "own_stack (s\<lparr>sc_current := cu\<rparr>) = own_stack s"
  "own_stack (s\<lparr>sc_virgin := v\<rparr>) = own_stack s" "own_stack (s\<lparr>sc_mem := m\<rparr>) = own_stack s"
  "own_stack (s\<lparr>sc_nodes := ns\<rparr>) = own_stack s" "own_stack (s\<lparr>sc_node_object := nob\<rparr>) = own_stack s"
  by (simp_all add: own_stack_def fun_eq_iff)

lemmas wf_parts = rings_ok_def cpus_ok_def threads_ok_def timeq_ok_def stacks_ok_def

lemma wf_runq:
  assumes "sched_wf s" "sc_runq s c \<noteq> None" "twf q" "slots (s\<lparr>sc_runq := (sc_runq s)(c := Some q)\<rparr>) \<subseteq># all_slots"
  shows "sched_wf (s\<lparr>sc_runq := (sc_runq s)(c := Some q)\<rparr>)"
  using assms sched_wfD [OF assms(1)] by (intro sched_wfI) (auto simp: wf_parts)

lemma wf_timeq:
  assumes "sched_wf s" "sorted (map (\<lambda>t. bt_wakeup_time (sc_thread s t)) q)"
    "\<And>t. t \<in> set q \<Longrightarrow> bt_cpuidx (sc_thread s t) = c \<and> bt_timedout (sc_thread s t) = 0 \<and> live s t"
    "slots (s\<lparr>sc_timeq := (sc_timeq s)(c := q)\<rparr>) \<subseteq># all_slots"
  shows "sched_wf (s\<lparr>sc_timeq := (sc_timeq s)(c := q)\<rparr>)"
  using assms sched_wfD [OF assms(1)] by (intro sched_wfI) (auto simp: wf_parts)

lemma wf_zombieq:
  assumes "sched_wf s" "twf q" "slots (s\<lparr>sc_zombieq := q\<rparr>) \<subseteq># all_slots"
  shows "sched_wf (s\<lparr>sc_zombieq := q\<rparr>)"
  using assms sched_wfD [OF assms(1)] by (intro sched_wfI) (auto simp: wf_parts)

lemma wf_current:
  assumes "sched_wf s" "slots (s\<lparr>sc_virgin := v, sc_current := cu\<rparr>) \<subseteq># all_slots"
  shows "sched_wf (s\<lparr>sc_virgin := v, sc_current := cu\<rparr>)"
  using assms sched_wfD [OF assms(1)] by (intro sched_wfI) (auto simp: wf_parts)

lemma wf_virgin: "sched_wf (s\<lparr>sc_virgin := v\<rparr>) \<longleftrightarrow> sched_wf s"
  by (simp add: sched_wf_def wf_parts)

text \<open>An update of a thread that leaves its place, its slot number and its stack alone.\<close>

lemma wf_thread:
  assumes "sched_wf s" "bt_idx (f (sc_thread s t)) = bt_idx (sc_thread s t)"
    "bt_cpuidx (f (sc_thread s t)) = bt_cpuidx (sc_thread s t)"
    "bt_flags (f (sc_thread s t)) = bt_flags (sc_thread s t)"
    "bt_stackbase (f (sc_thread s t)) = bt_stackbase (sc_thread s t)"
    "\<forall>c. t \<notin> set (sc_timeq s c)"
  shows "sched_wf (upd_thread t f s)"
proof -
  have own: "own_stack (upd_thread t f s) = own_stack s" using assms(4) by (auto simp: own_stack_def fun_eq_iff)
  have st: "bt_stackbase (sc_thread (upd_thread t f s) u) = bt_stackbase (sc_thread s u)" for u
    using assms(5) by simp
  have "stacks_ok (upd_thread t f s)"
    using sched_wfD(5) [OF assms(1)] unfolding stacks_ok_def own st by simp
  moreover have "timeq_ok (upd_thread t f s)"
    unfolding timeq_ok_def
  proof (rule allI)
    fix c
    have ne: "u \<noteq> t" if "u \<in> set (sc_timeq s c)" for u using assms(6) that by blast
    then have eq: "map (\<lambda>u. bt_wakeup_time (if u = t then f (sc_thread s t) else sc_thread s u)) (sc_timeq s c) =
        map (\<lambda>u. bt_wakeup_time (sc_thread s u)) (sc_timeq s c)" by (intro map_cong) auto
    have "sorted (map (\<lambda>u. bt_wakeup_time (if u = t then f (sc_thread s t) else sc_thread s u)) (sc_timeq s c))"
      unfolding eq using sched_wfD(4) [OF assms(1)] by (simp add: timeq_ok_def)
    then show "sorted (map (\<lambda>ta. bt_wakeup_time (sc_thread (upd_thread t f s) ta)) (sc_timeq (upd_thread t f s) c)) \<and>
        (\<forall>ta\<in>set (sc_timeq (upd_thread t f s) c). bt_cpuidx (sc_thread (upd_thread t f s) ta) = c \<and>
           bt_timedout (sc_thread (upd_thread t f s) ta) = 0 \<and> live (upd_thread t f s) ta)"
      using sched_wfD(4) [OF assms(1)] ne by (auto simp: timeq_ok_def)
  qed
  ultimately show ?thesis
    using sched_wfD [OF assms(1)] assms(2,3) by (intro sched_wfI) (auto simp: rings_ok_def cpus_ok_def threads_ok_def)
qed

section \<open>Wake-ups\<close>

lemma runq_range: "sched_wf s \<Longrightarrow> sc_runq s c \<noteq> None \<Longrightarrow> c \<le> MAXCPUS"
  using sched_wfD(2) [of s] unfolding cpus_ok_def by (metis le_trans less_imp_le order_refl)

lemma runq_twf: "sched_wf s \<Longrightarrow> sc_runq s c = Some q \<Longrightarrow> twf q"
  using sched_wfD(1) [of s] by (auto simp: rings_ok_def)

lemma cpuidx_ok:
  assumes "sched_wf s" "live s t"
  shows "bt_idx (sc_thread s t) = t" "sc_runq s (bt_cpuidx (sc_thread s t)) \<noteq> None"
    "bt_cpuidx (sc_thread s t) \<le> MAXCPUS"
  using sched_wfD(3) [OF assms(1)] assms(2) runq_range [OF assms(1)] by (auto simp: threads_ok_def)

lemma run_enqueue_ok:
  assumes "sched_wf s" "sc_runq s c \<noteq> None" "i < BMK_MAX_THREADS" "i \<notin># slots s"
  obtains q where "run_enqueue c i s = Inr (s\<lparr>sc_runq := (sc_runq s)(c := Some q)\<rparr>)"
    "sched_wf (s\<lparr>sc_runq := (sc_runq s)(c := Some q)\<rparr>)" "titems q = runq_items s c @ [i]"
    "slots (s\<lparr>sc_runq := (sc_runq s)(c := Some q)\<rparr>) = add_mset i (slots s)"
proof -
  note wf = sched_wfD [OF assms(1)]
  obtain q0 where q0: "sc_runq s c = Some q0" using assms(2) by blast
  have c: "c \<le> MAXCPUS" and r0: "runq_items s c = titems q0" and twf: "twf q0"
    using runq_range [OF assms(1,2)] runq_twf [OF assms(1) q0] q0 by (simp_all add: runq_list_def)
  have "length (titems q0) < BMK_MAX_THREADS"
    using room [OF wf(6) assms(4,3) places_sub(3) [OF c]] r0 by simp
  then obtain q where q: "thread_enq q0 i = Inr q" "twf q" "titems q = titems q0 @ [i]"
    using thread_enq_ok [OF twf] assms(3) by blast
  have sl: "slots (s\<lparr>sc_runq := (sc_runq s)(c := Some q)\<rparr>) = add_mset i (slots s)"
    using slots_runq [OF c, of s q] q(3) r0 by simp
  then have "sched_wf (s\<lparr>sc_runq := (sc_runq s)(c := Some q)\<rparr>)"
    using wf_runq [OF assms(1,2) q(2)] slots_add [OF wf(6) assms(4,3)] by simp
  then show thesis using that q q0 r0 sl by (simp add: run_enqueue_def)
qed

lemma bmk_sched_wake_ok:
  assumes "sched_wf s" "live s t" "t \<notin># slots s"
  obtains q where "bmk_sched_wake t s = Inr (s\<lparr>sc_runq := (sc_runq s)(bt_cpuidx (sc_thread s t) := Some q)\<rparr>)"
    "sched_wf (s\<lparr>sc_runq := (sc_runq s)(bt_cpuidx (sc_thread s t) := Some q)\<rparr>)"
    "titems q = runq_items s (bt_cpuidx (sc_thread s t)) @ [t]"
    "slots (s\<lparr>sc_runq := (sc_runq s)(bt_cpuidx (sc_thread s t) := Some q)\<rparr>) = add_mset t (slots s)"
  using run_enqueue_ok [OF assms(1), of "bt_cpuidx (sc_thread s t)" t] cpuidx_ok [OF assms(1,2)] assms(2,3) that
  by (auto simp: bmk_sched_wake_def live_def)

lemma slots_distinct:
  assumes "sched_wf s" "M \<subseteq># slots s"
  shows "count M i \<le> 1"
proof -
  have "count M i \<le> count all_slots i"
    using assms sched_wfD(6) mset_subset_eq_count subset_mset.order_trans by metis
  then show ?thesis by (simp add: all_slots_count split: if_splits)
qed

lemma distinct_of_count: "(\<And>i. count (mset xs) i \<le> 1) \<Longrightarrow> distinct xs"
proof (induction xs)
  case (Cons x xs)
  have "count (mset xs) i \<le> 1" for i
    using Cons.prems [of i] by (rule le_trans [rotated]) simp
  moreover have "x \<notin> set xs" using Cons.prems [of x] by (simp add: count_eq_zero_iff)
  ultimately show ?case using Cons.IH by simp
qed simp

lemma timeqD:
  assumes "sched_wf s" "t \<in> set (sc_timeq s c)"
  shows "bt_cpuidx (sc_thread s t) = c" "bt_timedout (sc_thread s t) = 0" "live s t"
  using sched_wfD(4) [OF assms(1)] assms(2) unfolding timeq_ok_def by blast+

lemma timeq_sorted: "sched_wf s \<Longrightarrow> sorted (map (\<lambda>t. bt_wakeup_time (sc_thread s t)) (sc_timeq s c))"
  using sched_wfD(4) [of s] unfolding timeq_ok_def by blast

lemma timeq_range: "sched_wf s \<Longrightarrow> t \<in> set (sc_timeq s c) \<Longrightarrow> c \<le> MAXCPUS"
  using cpuidx_ok(3) [of s t] timeqD [of s t c] by simp

lemma timeq_unique:
  assumes "sched_wf s" "t \<in> set (sc_timeq s c)" "t \<in> set (sc_timeq s d)"
  shows "c = d"
  using timeqD(1) [OF assms(1,2)] timeqD(1) [OF assms(1,3)] by simp

lemma timeq_distinct: "sched_wf s \<Longrightarrow> distinct (sc_timeq s c)"
proof (cases "sc_timeq s c = []")
  case False
  assume wf: "sched_wf s"
  then have "c \<le> MAXCPUS" using False timeq_range by (metis last_in_set)
  then show ?thesis using slots_distinct [OF wf places_sub(4)] by (intro distinct_of_count)
qed simp

text \<open>Taking a thread off its timeout queue.\<close>

lemma timeq_remove_ok:
  assumes "sched_wf s" "t \<in> set (sc_timeq s c)"
  obtains s' where "s' = s\<lparr>sc_timeq := (sc_timeq s)(c := remove1 t (sc_timeq s c))\<rparr>"
    "timeq_remove c t s = Inr s'" "sched_wf s'" "slots s = add_mset t (slots s')" "t \<notin># slots s'"
    "\<forall>d. t \<notin> set (sc_timeq s' d)" "live s' t"
proof -
  note wf = sched_wfD [OF assms(1)]
  define s' where "s' = s\<lparr>sc_timeq := (sc_timeq s)(c := remove1 t (sc_timeq s c))\<rparr>"
  have c: "c \<le> MAXCPUS" using timeq_range assms by blast
  have m: "mset (sc_timeq s c) = add_mset t (mset (remove1 t (sc_timeq s c)))" using assms(2) by simp
  have "slots s' + mset (sc_timeq s c) = slots s + mset (remove1 t (sc_timeq s c))"
    unfolding s'_def by (rule slots_timeq [OF c])
  then have sl: "slots s = add_mset t (slots s')" unfolding m by simp
  then have sub: "slots s' \<subseteq># all_slots" using wf(6) by (metis mset_subset_eq_add_mset_cancel mset_subset_eq_insertD subset_mset.less_imp_le)
  have notin: "t \<notin># slots s'" using slots_distinct [OF assms(1), of "slots s" t] sl by (simp add: not_in_iff)
  have sorted: "sorted (map (\<lambda>t. bt_wakeup_time (sc_thread s t)) (remove1 t (sc_timeq s c)))"
    by (rule sorted_map_remove1 [OF timeq_sorted [OF assms(1)]])
  have wf': "sched_wf s'"
    unfolding s'_def
    by (rule wf_timeq [OF assms(1) sorted])
      (use timeqD [OF assms(1)] sub set_remove1_subset [of t "sc_timeq s c"] in \<open>auto simp: s'_def\<close>)
  have "t \<notin> set (sc_timeq s' d)" for d
    using timeq_unique [OF assms(1,2), of d] timeq_distinct [OF assms(1), of c] by (auto simp: s'_def)
  moreover have "live s' t" using timeqD(3) [OF assms] by (simp add: s'_def)
  ultimately show thesis using that s'_def wf' sl notin assms(2) by (simp add: timeq_remove_def)
qed

lemma bmk_sched_wake_timeq_ok:
  assumes "sched_wf s" "t \<in> set (sc_timeq s c)"
  obtains s' where "bmk_sched_wake_timeq t s = Inr s'" "sched_wf s'" "slots s' = slots s"
    "sc_timeq s' = (sc_timeq s)(c := remove1 t (sc_timeq s c))"
    "runq_items s' = (runq_items s)(c := runq_items s c @ [t])"
proof -
  note t = timeqD [OF assms]
  obtain s1 where s1: "s1 = s\<lparr>sc_timeq := (sc_timeq s)(c := remove1 t (sc_timeq s c))\<rparr>"
    "timeq_remove c t s = Inr s1" "sched_wf s1" "slots s = add_mset t (slots s1)" "t \<notin># slots s1" "live s1 t"
    using timeq_remove_ok [OF assms] by metis
  obtain q where "bmk_sched_wake t s1 = Inr (s1\<lparr>sc_runq := (sc_runq s1)(c := Some q)\<rparr>)"
    "sched_wf (s1\<lparr>sc_runq := (sc_runq s1)(c := Some q)\<rparr>)" "titems q = runq_items s1 c @ [t]"
    "slots (s1\<lparr>sc_runq := (sc_runq s1)(c := Some q)\<rparr>) = add_mset t (slots s1)"
    using bmk_sched_wake_ok [OF s1(3,6,5)] s1(1) t(1) by auto
  moreover from this have "bmk_sched_wake_timeq t s = Inr (s1\<lparr>sc_runq := (sc_runq s1)(c := Some q)\<rparr>)"
    using s1 t by (simp add: bmk_sched_wake_timeq_def)
  ultimately show thesis using that s1(1,4) by auto
qed

section \<open>Timeouts\<close>

text \<open>The place of a thread on a timeout queue: after those that expire no later, before the others.\<close>

definition timeq_place :: "(nat \<Rightarrow> int) \<Rightarrow> nat \<Rightarrow> nat list \<Rightarrow> nat list" where
  "timeq_place wk t q = takeWhile (\<lambda>i. wk i \<le> wk t) q @ t # dropWhile (\<lambda>i. wk i \<le> wk t) q"

lemma timeq_insert_None: "timeq_insert wk t q = None \<longleftrightarrow> (\<forall>i\<in>set q. wk i \<le> wk t)"
  by (induction q) auto

lemma timeq_insert_Some: "timeq_insert wk t q = Some q' \<Longrightarrow> q' = timeq_place wk t q"
  by (induction q arbitrary: q') (auto simp: timeq_place_def split: if_splits)

lemma timeq_place_last: "\<forall>i\<in>set q. wk i \<le> wk t \<Longrightarrow> timeq_place wk t q = q @ [t]"
  by (simp add: timeq_place_def takeWhile_eq_all_conv [THEN iffD2] dropWhile_eq_Nil_conv [THEN iffD2])

lemma timeq_place_mset: "mset (timeq_place wk t q) = add_mset t (mset q)"
proof -
  have "mset (timeq_place wk t q) =
      add_mset t (mset (takeWhile (\<lambda>i. wk i \<le> wk t) q @ dropWhile (\<lambda>i. wk i \<le> wk t) q))"
    by (simp only: timeq_place_def mset_append mset.simps union_mset_add_mset_right)
  then show ?thesis by (simp only: takeWhile_dropWhile_id)
qed

lemma timeq_place_sorted: "sorted (map wk q) \<Longrightarrow> sorted (map wk (timeq_place wk t q))"
proof (induction q)
  case (Cons i q)
  have "set (timeq_place wk t q) = insert t (set q)" using timeq_place_mset [of wk t q] by (metis set_mset_add_mset_insert set_mset_mset)
  then show ?case using Cons by (cases "wk i \<le> wk t") (auto simp: timeq_place_def)
qed (simp add: timeq_place_def)

lemma bmk_insert_timeq_eq:
  assumes "bt_wakeup_time (sc_thread s t) \<noteq> BMK_SCHED_BLOCK_INFTIME"
  shows "bmk_insert_timeq t s = Inr (s\<lparr>sc_timeq := (sc_timeq s)(bt_cpuidx (sc_thread s t) :=
    timeq_place (\<lambda>i. bt_wakeup_time (sc_thread s i)) t (sc_timeq s (bt_cpuidx (sc_thread s t))))\<rparr>)"
proof -
  define wk where "wk = (\<lambda>i. bt_wakeup_time (sc_thread s i))"
  define q where "q = sc_timeq s (bt_cpuidx (sc_thread s t))"
  have wk: "wk t \<noteq> BMK_SCHED_BLOCK_INFTIME" using assms by (simp add: wk_def)
  show ?thesis
  proof (cases "timeq_insert wk t q")
    case None
    then have all: "\<forall>i\<in>set q. wk i \<le> wk t" by (simp add: timeq_insert_None)
    then have "q = [] \<or> wk (last q) \<le> wk t" using last_in_set by blast
    then show ?thesis
      using wk None timeq_place_last [OF all] unfolding bmk_insert_timeq_def Let_def wk_def [symmetric] q_def [symmetric]
      by auto
  next
    case (Some q')
    then have "q \<noteq> []" by auto
    then show ?thesis
      using wk Some timeq_insert_Some [OF Some] unfolding bmk_insert_timeq_def Let_def wk_def [symmetric] q_def [symmetric]
      by simp
  qed
qed

lemma bmk_insert_timeq_ok:
  assumes "sched_wf s" "live s t" "t \<notin># slots s" "bt_timedout (sc_thread s t) = 0"
    "bt_wakeup_time (sc_thread s t) \<noteq> BMK_SCHED_BLOCK_INFTIME"
  obtains s' where "bmk_insert_timeq t s = Inr s'" "sched_wf s'" "slots s' = add_mset t (slots s)"
    "s' = s\<lparr>sc_timeq := (sc_timeq s)(bt_cpuidx (sc_thread s t) :=
      timeq_place (\<lambda>i. bt_wakeup_time (sc_thread s i)) t (sc_timeq s (bt_cpuidx (sc_thread s t))))\<rparr>"
proof -
  define c where "c = bt_cpuidx (sc_thread s t)"
  define q where "q = timeq_place (\<lambda>i. bt_wakeup_time (sc_thread s i)) t (sc_timeq s c)"
  have c: "c \<le> MAXCPUS" using cpuidx_ok(3) [OF assms(1,2)] by (simp add: c_def)
  have m: "mset q = add_mset t (mset (sc_timeq s c))" by (simp add: q_def timeq_place_mset)
  then have st: "set q = insert t (set (sc_timeq s c))" by (metis set_mset_add_mset_insert set_mset_mset)
  have sl: "slots (s\<lparr>sc_timeq := (sc_timeq s)(c := q)\<rparr>) = add_mset t (slots s)"
    using slots_timeq [OF c, of s q] m by simp
  have "sched_wf (s\<lparr>sc_timeq := (sc_timeq s)(c := q)\<rparr>)"
  proof (rule wf_timeq [OF assms(1)])
    show "sorted (map (\<lambda>t. bt_wakeup_time (sc_thread s t)) q)"
      unfolding q_def by (rule timeq_place_sorted [OF timeq_sorted [OF assms(1)]])
    show "bt_cpuidx (sc_thread s u) = c \<and> bt_timedout (sc_thread s u) = 0 \<and> live s u" if "u \<in> set q" for u
      using that st timeqD [OF assms(1), of u c] assms(2,4) by (auto simp: c_def)
    show "slots (s\<lparr>sc_timeq := (sc_timeq s)(c := q)\<rparr>) \<subseteq># all_slots"
      using sl slots_add sched_wfD(6) [OF assms(1)] assms(2,3) by (simp add: live_def)
  qed
  then show thesis using that sl bmk_insert_timeq_eq [OF assms(5)] by (simp add: c_def q_def)
qed

text \<open>What \<^verbatim>\<open>schedule\<close> leaves alone until it switches.\<close>

definition sc_frame :: "sched \<Rightarrow> sched \<Rightarrow> bool" where
  "sc_frame s s' \<longleftrightarrow> sc_numcpus s' = sc_numcpus s \<and> sc_stackpageorder s' = sc_stackpageorder s \<and>
     sc_freeq s' = sc_freeq s \<and> sc_zombieq s' = sc_zombieq s \<and> sc_nodes s' = sc_nodes s \<and> sc_mem s' = sc_mem s \<and>
     sc_current s' = sc_current s \<and> sc_idle s' = sc_idle s \<and> sc_virgin s' = sc_virgin s \<and>
     (\<forall>t. sc_thread s' t = (sc_thread s t)\<lparr>bt_timedout := bt_timedout (sc_thread s' t)\<rparr>) \<and>
     (\<forall>t. (\<forall>c. t \<notin> set (sc_timeq s c)) \<longrightarrow> sc_thread s' t = sc_thread s t) \<and>
     (\<forall>c. set (sc_timeq s' c) \<subseteq> set (sc_timeq s c))"

lemma sc_frameD:
  assumes "sc_frame s s'"
  shows "sc_numcpus s' = sc_numcpus s" "sc_stackpageorder s' = sc_stackpageorder s" "sc_freeq s' = sc_freeq s"
    "sc_zombieq s' = sc_zombieq s" "sc_nodes s' = sc_nodes s" "sc_mem s' = sc_mem s" "sc_current s' = sc_current s"
    "sc_idle s' = sc_idle s" "sc_virgin s' = sc_virgin s"
  using assms by (simp_all add: sc_frame_def)

lemma sc_frame_thread:
  assumes "sc_frame s s'"
  shows "sc_thread s' t = (sc_thread s t)\<lparr>bt_timedout := bt_timedout (sc_thread s' t)\<rparr>"
    and "(\<forall>c. t \<notin> set (sc_timeq s c)) \<Longrightarrow> sc_thread s' t = sc_thread s t"
    and "set (sc_timeq s' c) \<subseteq> set (sc_timeq s c)"
  using assms unfolding sc_frame_def by blast+

lemma sc_frame_runq: "sc_frame s (s\<lparr>sc_runq := rq\<rparr>)"
  by (simp add: sc_frame_def)

lemma sc_frame_trans:
  assumes "sc_frame a b" "sc_frame b c"
  shows "sc_frame a c"
proof -
  have "sc_thread c t = (sc_thread a t)\<lparr>bt_timedout := bt_timedout (sc_thread c t)\<rparr>" for t
    by (subst sc_frame_thread(1) [OF assms(2)], subst sc_frame_thread(1) [OF assms(1)]) simp
  moreover have "sc_thread c t = sc_thread a t" if "\<forall>d. t \<notin> set (sc_timeq a d)" for t
    using that sc_frame_thread(2,3) [OF assms(1)] sc_frame_thread(2) [OF assms(2), of t] by (metis subsetD)
  moreover have "set (sc_timeq c d) \<subseteq> set (sc_timeq a d)" for d
    using sc_frame_thread(3) [OF assms(1)] sc_frame_thread(3) [OF assms(2)] by blast
  ultimately show ?thesis
    unfolding sc_frame_def using sc_frameD [OF assms(1)] sc_frameD [OF assms(2)] by simp
qed

text \<open>The threads of a timeout queue whose time has come.\<close>

definition expired :: "sched \<Rightarrow> nat \<Rightarrow> int \<Rightarrow> nat list" where
  "expired s c now = takeWhile (\<lambda>t. bt_wakeup_time (sc_thread s t) \<le> now) (sc_timeq s c)"

lemma sc_frame_expire:
  assumes "s' = s\<lparr>sc_timeq := (sc_timeq s)(c := dropWhile (\<lambda>t. bt_wakeup_time (sc_thread s t) \<le> now) (sc_timeq s c)),
      sc_thread := (\<lambda>t. if t \<in> set (expired s c now)
        then (sc_thread s t)\<lparr>bt_timedout := BMK_ETIMEDOUT\<rparr> else sc_thread s t), sc_runq := sc_runq s'\<rparr>"
  shows "sc_frame s s'"
  by (subst assms) (auto simp: sc_frame_def expired_def dest: set_takeWhileD set_dropWhileD)

text \<open>
  What the expiry of timeouts needs of a wake-up function: a thread that is in no queue is put at the
  end of its run queue.
\<close>

locale timeout_wake =
  fixes wake :: "nat \<Rightarrow> nat \<Rightarrow> sched \<Rightarrow> sched res"
  assumes wake_law: "sched_wf s \<Longrightarrow> live s t \<Longrightarrow> t \<notin># slots s \<Longrightarrow>
    \<exists>q. wake k t s = Inr (s\<lparr>sc_runq := (sc_runq s)(bt_cpuidx (sc_thread s t) := Some q)\<rparr>) \<and>
      sched_wf (s\<lparr>sc_runq := (sc_runq s)(bt_cpuidx (sc_thread s t) := Some q)\<rparr>) \<and>
      titems q = runq_items s (bt_cpuidx (sc_thread s t)) @ [t] \<and>
      slots (s\<lparr>sc_runq := (sc_runq s)(bt_cpuidx (sc_thread s t) := Some q)\<rparr>) = add_mset t (slots s)"
begin

text \<open>One round of the loop moves the first thread of the queue.\<close>

lemma expire_round:
  assumes "sched_wf s" "sc_timeq s c = t # ts"
  obtains s' where
    "bindE (timeq_remove c t (upd_thread t (bt_timedout_update (\<lambda>_. BMK_ETIMEDOUT)) s)) (wake k t) = Inr s'"
    "sched_wf s'" "slots s' = slots s" "runq_items s' = (runq_items s)(c := runq_items s c @ [t])"
    "s' = s\<lparr>sc_timeq := (sc_timeq s)(c := ts),
      sc_thread := (sc_thread s)(t := (sc_thread s t)\<lparr>bt_timedout := BMK_ETIMEDOUT\<rparr>), sc_runq := sc_runq s'\<rparr>"
proof -
  have tin: "t \<in> set (sc_timeq s c)" using assms(2) by simp
  obtain s1 where s1: "s1 = s\<lparr>sc_timeq := (sc_timeq s)(c := ts)\<rparr>" "sched_wf s1" "slots s = add_mset t (slots s1)"
    "t \<notin># slots s1" "\<forall>d. t \<notin> set (sc_timeq s1 d)" "live s1 t"
    using timeq_remove_ok [OF assms(1) tin] assms(2) by (metis remove1.simps(2))
  define s2 where "s2 = upd_thread t (bt_timedout_update (\<lambda>_. BMK_ETIMEDOUT)) s1"
  have wf2: "sched_wf s2" unfolding s2_def by (rule wf_thread [OF s1(2)]) (use s1(5) in simp_all)
  have c: "bt_cpuidx (sc_thread s2 t) = c" using timeqD(1) [OF assms(1) tin] s1(1) by (simp add: s2_def)
  have rm: "timeq_remove c t (upd_thread t (bt_timedout_update (\<lambda>_. BMK_ETIMEDOUT)) s) = Inr s2"
    using assms(2) by (simp add: timeq_remove_def s2_def s1(1))
  obtain q where q: "wake k t s2 = Inr (s2\<lparr>sc_runq := (sc_runq s2)(c := Some q)\<rparr>)"
    "sched_wf (s2\<lparr>sc_runq := (sc_runq s2)(c := Some q)\<rparr>)" "titems q = runq_items s2 c @ [t]"
    "slots (s2\<lparr>sc_runq := (sc_runq s2)(c := Some q)\<rparr>) = add_mset t (slots s2)"
    using wake_law [OF wf2, of t k] s1(4,6) c by (auto simp: s2_def)
  show thesis
    by (rule that [of "s2\<lparr>sc_runq := (sc_runq s2)(c := Some q)\<rparr>"])
      (use q rm s1(1,3) in \<open>simp_all add: s2_def\<close>)
qed

lemma expire_loop_ok:
  assumes "sched_wf s"
  shows "\<exists>w' s'. expire_loop wake c now w s = Some (Inr (w', s')) \<and> sched_wf s' \<and> slots s' = slots s \<and>
    runq_items s' = (runq_items s)(c := runq_items s c @ expired s c now) \<and>
    s' = s\<lparr>sc_timeq := (sc_timeq s)(c := dropWhile (\<lambda>t. bt_wakeup_time (sc_thread s t) \<le> now) (sc_timeq s c)),
      sc_thread := (\<lambda>t. if t \<in> set (expired s c now)
        then (sc_thread s t)\<lparr>bt_timedout := BMK_ETIMEDOUT\<rparr> else sc_thread s t), sc_runq := sc_runq s'\<rparr>"
  using assms
proof (induction "sc_timeq s c" arbitrary: s)
  case Nil
  then have n: "sc_timeq s c = []" by simp
  then have "(sc_timeq s)(c := []) = sc_timeq s" by (metis fun_upd_triv)
  then show ?case using Nil n by (simp add: expire_loop.simps expired_def fun_upd_idem)
next
  case (Cons t ts)
  note q = Cons.hyps(2) [symmetric]
  show ?case
  proof (cases "bt_wakeup_time (sc_thread s t) \<le> now")
    case False
    have "(sc_timeq s)(c := t # ts) = sc_timeq s" using q by (metis fun_upd_triv)
    then show ?thesis using q False Cons.prems
      by (simp add: expire_loop.simps expired_def fun_upd_idem)
  next
    case True
    obtain s1 where s1:
      "bindE (timeq_remove c t (upd_thread t (bt_timedout_update (\<lambda>_. BMK_ETIMEDOUT)) s)) (wake (bt_wake (sc_thread s t)) t) = Inr s1"
      "sched_wf s1" "slots s1 = slots s" "runq_items s1 = (runq_items s)(c := runq_items s c @ [t])"
      "s1 = s\<lparr>sc_timeq := (sc_timeq s)(c := ts),
        sc_thread := (sc_thread s)(t := (sc_thread s t)\<lparr>bt_timedout := BMK_ETIMEDOUT\<rparr>), sc_runq := sc_runq s1\<rparr>"
      using expire_round [OF Cons.prems q] by metis
    have f1: "sc_timeq s1 = (sc_timeq s)(c := ts)"
      "sc_thread s1 = (sc_thread s)(t := (sc_thread s t)\<lparr>bt_timedout := BMK_ETIMEDOUT\<rparr>)"
      by (subst s1(5), simp)+
    have wk: "(\<lambda>u. bt_wakeup_time (sc_thread s1 u) \<le> now) = (\<lambda>u. bt_wakeup_time (sc_thread s u) \<le> now)"
      by (simp add: f1 fun_eq_iff)
    have ex: "expired s c now = t # expired s1 c now"
      using True q unfolding expired_def wk by (simp add: f1(1))
    have step: "expire_loop wake c now w s = expire_loop wake c now w s1"
      using q True s1(1) by (simp add: expire_loop.simps [of _ _ _ _ s])
    obtain w' s2 where s2: "expire_loop wake c now w s1 = Some (Inr (w', s2))" "sched_wf s2" "slots s2 = slots s1"
      "runq_items s2 = (runq_items s1)(c := runq_items s1 c @ expired s1 c now)"
      "s2 = s1\<lparr>sc_timeq := (sc_timeq s1)(c := dropWhile (\<lambda>t. bt_wakeup_time (sc_thread s1 t) \<le> now) (sc_timeq s1 c)),
        sc_thread := (\<lambda>t. if t \<in> set (expired s1 c now)
          then (sc_thread s1 t)\<lparr>bt_timedout := BMK_ETIMEDOUT\<rparr> else sc_thread s1 t), sc_runq := sc_runq s2\<rparr>"
      using Cons.hyps(1) [of s1] s1(2) f1(1) by auto
    have th: "(\<lambda>u. if u \<in> set (expired s1 c now) then (sc_thread s1 u)\<lparr>bt_timedout := BMK_ETIMEDOUT\<rparr> else sc_thread s1 u) =
      (\<lambda>u. if u \<in> set (expired s c now) then (sc_thread s u)\<lparr>bt_timedout := BMK_ETIMEDOUT\<rparr> else sc_thread s u)"
      by (simp add: fun_eq_iff f1 ex)
    have tq: "(sc_timeq s1)(c := dropWhile (\<lambda>t. bt_wakeup_time (sc_thread s t) \<le> now) (sc_timeq s1 c)) =
        (sc_timeq s)(c := dropWhile (\<lambda>t. bt_wakeup_time (sc_thread s t) \<le> now) (sc_timeq s c))"
      using True q by (simp add: f1(1))
    have "s2 = s\<lparr>sc_timeq := (sc_timeq s)(c := dropWhile (\<lambda>t. bt_wakeup_time (sc_thread s t) \<le> now) (sc_timeq s c)),
      sc_thread := (\<lambda>t. if t \<in> set (expired s c now)
        then (sc_thread s t)\<lparr>bt_timedout := BMK_ETIMEDOUT\<rparr> else sc_thread s t), sc_runq := sc_runq s2\<rparr>"
      by (subst s2(5) [unfolded th wk tq], subst s1(5)) simp
    then show ?thesis using step s2(1-4) s1(3,4) ex by auto
  qed
qed

lemma expire_loop_frame:
  assumes "sched_wf s"
  obtains w' s' where "expire_loop wake c now w s = Some (Inr (w', s'))" "sched_wf s'" "slots s' = slots s" "sc_frame s s'"
  using expire_loop_ok [OF assms, of c now w]
  by (elim exE conjE) (rule that, assumption+, erule sc_frame_expire)

lemma expire_ok:
  assumes "sched_wf s"
  shows "\<exists>s'. expire wake c now s = Inr s' \<and> sched_wf s' \<and> slots s' = slots s \<and> sc_frame s s'"
proof -
  obtain w1 s1 where s1: "expire_loop wake c now (now + BLOCKTIME_MAX) s = Some (Inr (w1, s1))" "sched_wf s1"
    "slots s1 = slots s" "sc_frame s s1"
    by (rule expire_loop_frame [OF assms])
  obtain w2 s2 where s2: "expire_loop wake MAXCPUS now w1 s1 = Some (Inr (w2, s2))" "sched_wf s2"
    "slots s2 = slots s1" "sc_frame s1 s2"
    by (rule expire_loop_frame [OF s1(2)])
  show ?thesis
  proof (cases "sc_numcpus s1 = 1")
    case True
    then show ?thesis using s1 by (simp add: expire_def)
  next
    case False
    have "sc_frame s s2" by (rule sc_frame_trans [OF s1(4) s2(4)])
    then show ?thesis using s1 s2 False by (simp add: expire_def)
  qed
qed

end

interpretation sched_wake: timeout_wake "\<lambda>_. bmk_sched_wake"
  by unfold_locales (metis bmk_sched_wake_ok)

section \<open>Choosing the next thread\<close>

lemma sub_all_slots: "M \<subseteq># slots s \<Longrightarrow> sched_wf s \<Longrightarrow> M \<subseteq># all_slots"
  using sched_wfD(6) subset_mset.order_trans by blast

lemma slot_below: "sched_wf s \<Longrightarrow> t \<in># slots s \<Longrightarrow> t < BMK_MAX_THREADS"
  using sched_wfD(6) [of s] mset_subset_eqD [of "slots s" all_slots t] by (simp add: all_slots_def)

text \<open>A slot in another place is not free.\<close>

lemma live_elsewhere:
  assumes "sched_wf s" "mset (titems (sc_freeq s)) + M \<subseteq># slots s" "t \<in># M"
  shows "live s t"
proof -
  have "count (mset (titems (sc_freeq s)) + M) t \<le> 1" by (rule slots_distinct [OF assms(1,2)])
  then have "t \<notin> set (titems (sc_freeq s))"
    using assms(3) by (metis One_nat_def Suc_leI add_is_1 add_le_same_cancel1 count_greater_zero_iff count_union
        dual_order.trans le_add_same_cancel2 not_one_le_zero set_mset_mset zero_le)
  moreover have "t \<in># slots s" using assms(2,3) by (meson mset_subset_eqD union_iff)
  ultimately show ?thesis using slot_below [OF assms(1)] by (simp add: live_def)
qed

lemma sub_of_sum:
  "X \<subseteq># R \<Longrightarrow> F + X \<subseteq># F + Z + R + T + C" "X \<subseteq># C \<Longrightarrow> F + X \<subseteq># F + Z + R + T + C"
  by (simp_all add: subseteq_mset_def add.assoc trans_le_add1 trans_le_add2)

lemma places_free:
  "c \<le> MAXCPUS \<Longrightarrow> mset (titems (sc_freeq s)) + mset (runq_items s c) \<subseteq># slots s"
  "c \<le> MAXCPUS \<Longrightarrow> mset (titems (sc_freeq s)) + mset (cpu_items s c) \<subseteq># slots s"
  "mset (titems (sc_freeq s)) + mset (titems (sc_zombieq s)) \<subseteq># slots s"
proof -
  have le: "f c \<subseteq># (\<Sum>i\<le>MAXCPUS. f i)" if "c \<le> MAXCPUS" for c and f :: "nat \<Rightarrow> nat multiset"
    using that sum.remove [of "{..MAXCPUS}" c f] by simp
  show "mset (titems (sc_freeq s)) + mset (titems (sc_zombieq s)) \<subseteq># slots s" by (simp add: slots_def add.assoc)
  assume c: "c \<le> MAXCPUS"
  show "mset (titems (sc_freeq s)) + mset (runq_items s c) \<subseteq># slots s"
    unfolding slots_def by (rule sub_of_sum(1)) (rule le [OF c, of "\<lambda>i. mset (runq_items s i)"])
  show "mset (titems (sc_freeq s)) + mset (cpu_items s c) \<subseteq># slots s"
    unfolding slots_def by (rule sub_of_sum(2)) (rule le [OF c, of "\<lambda>i. mset (cpu_items s i)"])
qed

lemma runq_dequeue_Cons:
  assumes "sched_wf s" "runq_items s c = i # xs"
  obtains x q where "runq_dequeue c s = Inr (x, s\<lparr>sc_runq := (sc_runq s)(c := Some q)\<rparr>)" "x \<noteq> LFRING_EMPTY"
    "unat x = i" "titems q = xs" "sched_wf (s\<lparr>sc_runq := (sc_runq s)(c := Some q)\<rparr>)" "live s i"
    "slots s = add_mset i (slots (s\<lparr>sc_runq := (sc_runq s)(c := Some q)\<rparr>))"
proof -
  obtain q0 where q0: "sc_runq s c = Some q0" "titems q0 = i # xs"
    using assms(2) by (auto simp: runq_list_def split: option.splits)
  have c: "c \<le> MAXCPUS" using runq_range [OF assms(1)] q0(1) by blast
  obtain x q where q: "thread_deq q0 = Inr (x, q)" "x \<noteq> LFRING_EMPTY" "unat x = i" "twf q" "titems q = xs"
    using thread_deq_Cons [OF runq_twf [OF assms(1) q0(1)] q0(2)] by blast
  have sl: "slots s = add_mset i (slots (s\<lparr>sc_runq := (sc_runq s)(c := Some q)\<rparr>))"
    using slots_runq [OF c, of s q] assms(2) q(5) by simp
  then have "slots (s\<lparr>sc_runq := (sc_runq s)(c := Some q)\<rparr>) \<subseteq># all_slots"
    using sub_all_slots [OF _ assms(1)] by simp
  then have "sched_wf (s\<lparr>sc_runq := (sc_runq s)(c := Some q)\<rparr>)"
    using wf_runq [OF assms(1) _ q(4)] q0(1) by simp
  moreover have "live s i" using live_elsewhere [OF assms(1) places_free(1) [OF c]] assms(2) by simp
  ultimately show thesis using that q q0 sl by (simp add: runq_dequeue_def)
qed

lemma runq_dequeue_Nil:
  assumes "sched_wf s" "sc_runq s c \<noteq> None" "runq_items s c = []"
  obtains q where "runq_dequeue c s = Inr (LFRING_EMPTY, s\<lparr>sc_runq := (sc_runq s)(c := Some q)\<rparr>)"
    "titems q = []" "sched_wf (s\<lparr>sc_runq := (sc_runq s)(c := Some q)\<rparr>)"
    "slots (s\<lparr>sc_runq := (sc_runq s)(c := Some q)\<rparr>) = slots s"
proof -
  obtain q0 where q0: "sc_runq s c = Some q0" "titems q0 = []"
    using assms(2,3) by (auto simp: runq_list_def)
  obtain q where q: "thread_deq q0 = Inr (LFRING_EMPTY, q)" "twf q" "titems q = []"
    using thread_deq_Nil [OF runq_twf [OF assms(1) q0(1)] q0(2)] by blast
  have sl: "slots (s\<lparr>sc_runq := (sc_runq s)(c := Some q)\<rparr>) = slots s"
    using slots_runq [OF runq_range [OF assms(1,2)], of s q] assms(3) q(3) by simp
  then have "sched_wf (s\<lparr>sc_runq := (sc_runq s)(c := Some q)\<rparr>)"
    using wf_runq [OF assms(1,2) q(2)] sched_wfD(6) [OF assms(1)] by simp
  then show thesis using that q q0 sl by (simp add: runq_dequeue_def)
qed

lemma started_cpu:
  assumes "sched_wf s" "sc_idle s cpu = Some idle"
  shows "cpu < sc_numcpus s" "cpu \<le> MAXCPUS" "sc_runq s cpu \<noteq> None" "sc_numcpus s \<noteq> 1 \<Longrightarrow> sc_runq s MAXCPUS \<noteq> None"
    "cpu \<noteq> MAXCPUS"
proof -
  have "sc_idle s cpu \<noteq> None" using assms(2) by simp
  then show "cpu < sc_numcpus s" using sched_wfD(2) [OF assms(1)] unfolding cpus_ok_def by blast
  then show "cpu \<le> MAXCPUS" "sc_runq s cpu \<noteq> None" "sc_numcpus s \<noteq> 1 \<Longrightarrow> sc_runq s MAXCPUS \<noteq> None" "cpu \<noteq> MAXCPUS"
    using sched_wfD(2) [OF assms(1)] by (simp_all add: cpus_ok_def)
qed

text \<open>
  The two dequeues give the head of the CPU's own queue, or else that of the shared one, and only when
  there is neither the mark of an empty ring.
\<close>

definition run_candidates :: "sched \<Rightarrow> nat \<Rightarrow> nat list" where
  "run_candidates s cpu = runq_items s cpu @ (if sc_numcpus s = 1 then [] else runq_items s MAXCPUS)"

lemma schedule_dequeue_Cons:
  assumes "sched_wf s" "sc_idle s cpu = Some idle" "run_candidates s cpu = i # xs"
  obtains x s' where "schedule_dequeue cpu s = Inr (x, s')" "x \<noteq> LFRING_EMPTY" "unat x = i" "sched_wf s'"
    "sc_frame s s'" "slots s = add_mset i (slots s')" "live s i"
    "runq_items s cpu \<noteq> [] \<longrightarrow> runq_items s' = (runq_items s)(cpu := tl (runq_items s cpu))"
proof (cases "runq_items s cpu")
  case (Cons j ys)
  then have "runq_items s cpu = i # ys" using assms(3) by (simp add: run_candidates_def)
  then show thesis
    by (rule runq_dequeue_Cons [OF assms(1)])
      (rule that, use Cons in \<open>auto simp: schedule_dequeue_def sc_frame_runq\<close>)
next
  case Nil
  note started = started_cpu [OF assms(1,2)]
  have n1: "sc_numcpus s \<noteq> 1" and sh: "runq_items s MAXCPUS = i # xs"
    using Nil assms(3) by (auto simp: run_candidates_def split: if_splits)
  obtain q where q: "runq_dequeue cpu s = Inr (LFRING_EMPTY, s\<lparr>sc_runq := (sc_runq s)(cpu := Some q)\<rparr>)"
    "titems q = []" "sched_wf (s\<lparr>sc_runq := (sc_runq s)(cpu := Some q)\<rparr>)"
    "slots (s\<lparr>sc_runq := (sc_runq s)(cpu := Some q)\<rparr>) = slots s"
    by (rule runq_dequeue_Nil [OF assms(1) started(3) Nil])
  define s1 where "s1 = s\<lparr>sc_runq := (sc_runq s)(cpu := Some q)\<rparr>"
  have s1: "sched_wf s1" "slots s1 = slots s" "runq_dequeue cpu s = Inr (LFRING_EMPTY, s1)" "sc_frame s s1"
    "sc_numcpus s1 = sc_numcpus s"
    using q by (simp_all add: s1_def sc_frame_runq)
  have "runq_items s1 MAXCPUS = i # xs" using sh started(5) by (simp add: s1_def)
  then show thesis
    by (rule runq_dequeue_Cons [OF s1(1)])
      (rule that, use s1 n1 Nil in \<open>auto simp: schedule_dequeue_def live_def sc_frame_def\<close>)
qed

lemma schedule_dequeue_Nil:
  assumes "sched_wf s" "sc_idle s cpu = Some idle" "run_candidates s cpu = []"
  obtains s' where "schedule_dequeue cpu s = Inr (LFRING_EMPTY, s')" "sched_wf s'" "sc_frame s s'" "slots s' = slots s"
proof -
  note started = started_cpu [OF assms(1,2)]
  have nil: "runq_items s cpu = []" using assms(3) by (simp add: run_candidates_def)
  obtain q where q: "runq_dequeue cpu s = Inr (LFRING_EMPTY, s\<lparr>sc_runq := (sc_runq s)(cpu := Some q)\<rparr>)"
    "titems q = []" "sched_wf (s\<lparr>sc_runq := (sc_runq s)(cpu := Some q)\<rparr>)"
    "slots (s\<lparr>sc_runq := (sc_runq s)(cpu := Some q)\<rparr>) = slots s"
    by (rule runq_dequeue_Nil [OF assms(1) started(3) nil])
  define s1 where "s1 = s\<lparr>sc_runq := (sc_runq s)(cpu := Some q)\<rparr>"
  have s1: "sched_wf s1" "slots s1 = slots s" "runq_dequeue cpu s = Inr (LFRING_EMPTY, s1)" "sc_frame s s1"
    "sc_numcpus s1 = sc_numcpus s"
    using q by (simp_all add: s1_def sc_frame_runq)
  show thesis
  proof (cases "sc_numcpus s = 1")
    case True
    then show thesis using that s1 by (simp add: schedule_dequeue_def)
  next
    case False
    have nil2: "runq_items s1 MAXCPUS = []" "sc_runq s1 MAXCPUS \<noteq> None"
      using assms(3) False started(4,5) by (simp_all add: s1_def run_candidates_def)
    obtain q2 where "runq_dequeue MAXCPUS s1 = Inr (LFRING_EMPTY, s1\<lparr>sc_runq := (sc_runq s1)(MAXCPUS := Some q2)\<rparr>)"
      "sched_wf (s1\<lparr>sc_runq := (sc_runq s1)(MAXCPUS := Some q2)\<rparr>)"
      "slots (s1\<lparr>sc_runq := (sc_runq s1)(MAXCPUS := Some q2)\<rparr>) = slots s1"
      by (rule runq_dequeue_Nil [OF s1(1) nil2(2,1)])
    then show thesis
      using that s1 False sc_frame_trans [OF s1(4) sc_frame_runq] by (simp add: schedule_dequeue_def)
  qed
qed

text \<open>What has been established when the next thread is known: it is either taken off a run queue or the idle thread.\<close>

definition picked :: "sched \<Rightarrow> nat \<Rightarrow> nat \<Rightarrow> nat \<Rightarrow> sched \<Rightarrow> bool" where
  "picked s cpu idle next s' \<longleftrightarrow> sched_wf s' \<and> sc_frame s s' \<and>
     (slots s = add_mset next (slots s') \<and> live s next \<or>
      next = idle \<and> sc_current s cpu \<noteq> idle \<and> slots s' = slots s)"

lemma picked_after:
  assumes "sc_frame s s1" "slots s1 = slots s" "picked s1 cpu idle next s'"
  shows "picked s cpu idle next s'"
proof -
  have "live s1 = live s" using sc_frameD(3) [OF assms(1)] by (simp add: live_def fun_eq_iff)
  then show ?thesis
    using assms sc_frame_trans [OF assms(1)] sc_frameD(7) [OF assms(1)] by (auto simp: picked_def)
qed

context timeout_wake
begin

lemma pick_head:
  assumes "sched_wf s" "sc_idle s cpu = Some idle" "run_candidates s cpu = i # xs"
  obtains s' where "schedule_pick wake cpu clk s = Inr (i, s')" "picked s cpu idle i s'"
    "runq_items s cpu \<noteq> [] \<longrightarrow> runq_items s' = (runq_items s)(cpu := tl (runq_items s cpu))"
proof -
  obtain x s' where x: "schedule_dequeue cpu s = Inr (x, s')" "x \<noteq> LFRING_EMPTY" "unat x = i" "sched_wf s'"
    "sc_frame s s'" "slots s = add_mset i (slots s')" "live s i"
    "runq_items s cpu \<noteq> [] \<longrightarrow> runq_items s' = (runq_items s)(cpu := tl (runq_items s cpu))"
    by (rule schedule_dequeue_Cons [OF assms])
  then have "schedule_pick wake cpu clk s = Inr (i, s')" by (cases clk) simp_all
  then show thesis using that x by (simp add: picked_def)
qed

lemma pick_ok:
  assumes "sched_wf s" "sc_idle s cpu = Some idle"
  shows "schedule_pick wake cpu clk s = Inl NoReturn \<and> (clk = [] \<or> sc_current s cpu = idle) \<or>
    (\<exists>next s'. schedule_pick wake cpu clk s = Inr (next, s') \<and> picked s cpu idle next s')"
  using assms
proof (induction clk arbitrary: s)
  case Nil
  show ?case
  proof (cases "run_candidates s cpu")
    case (Cons i xs)
    then show ?thesis using pick_head [OF Nil.prems Cons, of "[]"] by blast
  next
    case Nil': Nil
    show ?thesis by (rule schedule_dequeue_Nil [OF Nil.prems Nil']) simp
  qed
next
  case (Cons now clk)
  show ?case
  proof (cases "run_candidates s cpu")
    case Cons': (Cons i xs)
    then show ?thesis using pick_head [OF Cons.prems Cons', of "now # clk"] by blast
  next
    case Nil
    obtain s1 where s1: "schedule_dequeue cpu s = Inr (LFRING_EMPTY, s1)" "sched_wf s1" "sc_frame s s1" "slots s1 = slots s"
      by (rule schedule_dequeue_Nil [OF Cons.prems Nil])
    obtain s2 where s2: "expire wake cpu now s1 = Inr s2" "sched_wf s2" "slots s2 = slots s1" "sc_frame s1 s2"
      using expire_ok [OF s1(2)] by blast
    have fr: "sc_frame s s2" "slots s2 = slots s" using s1 s2 sc_frame_trans by auto
    have idle: "sc_idle s2 cpu = Some idle" "sc_current s2 cpu = sc_current s cpu"
      using sc_frameD(7,8) [OF fr(1)] Cons.prems(2) by simp_all
    show ?thesis
    proof (cases "sc_current s cpu = idle")
      case True
      then have "schedule_pick wake cpu (now # clk) s = schedule_pick wake cpu clk s2"
        using s1(1) s2(1) idle by simp
      then show ?thesis
        using Cons.IH [OF s2(2) idle(1)] True picked_after [OF fr] by auto
    next
      case False
      then have "schedule_pick wake cpu (now # clk) s = Inr (idle, s2)" using s1(1) s2(1) idle by simp
      moreover have "picked s cpu idle idle s2" using s2(2) fr False by (simp add: picked_def)
      ultimately show ?thesis by blast
    qed
  qed
qed

end

text \<open>
  After the switch the thread that ran is in no place at all, unless it is the idle thread, which stays
  with its CPU.
\<close>

definition switched :: "nat \<Rightarrow> nat \<Rightarrow> nat \<Rightarrow> sched \<Rightarrow> sched" where
  "switched cpu prev next s =
     s\<lparr>sc_virgin := (sc_virgin s)(prev := False), sc_current := (sc_current s)(cpu := next)\<rparr>"

lemma cpu_item_live:
  assumes "sched_wf s" "c \<le> MAXCPUS" "t \<in> set (cpu_items s c)"
  shows "live s t"
  using live_elsewhere [OF assms(1) places_free(2) [OF assms(2)]] assms(3) by simp

lemma switched_ok:
  assumes "sched_wf s" "sc_idle s cpu = Some idle" "prev = sc_current s cpu" "picked s cpu idle next s1"
  shows "next \<noteq> prev" "sched_wf (switched cpu prev next s1)"
    "slots s = slots (switched cpu prev next s1) + (if prev = idle then {#} else {#prev#})"
proof -
  note p = assms(4) [unfolded picked_def]
  have fr: "sc_frame s s1" and wf1: "sched_wf s1" using p by blast+
  have c: "cpu \<le> MAXCPUS" using started_cpu [OF assms(1,2)] by blast
  have i1: "sc_idle s1 cpu = Some idle" "sc_current s1 cpu = prev"
    using sc_frameD(7,8) [OF fr] assms(2,3) by simp_all
  have notin: "next \<noteq> prev \<and> next \<noteq> idle" if "slots s = add_mset next (slots s1)"
  proof -
    have "count (slots s) next \<le> 1" using slots_distinct [OF assms(1)] by blast
    then have "next \<notin># slots s1" using that by (simp add: not_in_iff)
    moreover have "mset (cpu_items s1 cpu) \<subseteq># slots s1" by (rule places_sub(5) [OF c])
    ultimately have "next \<notin> set (cpu_items s1 cpu)" by (metis mset_subset_eqD set_mset_mset)
    then show ?thesis using i1 by (auto simp: cpu_list_def split: if_splits)
  qed
  show ne: "next \<noteq> prev" using p notin assms(3) by auto
  have "slots (switched cpu prev next s1) + mset (cpu_items s1 cpu) =
      slots s1 + mset (cpu_list (sc_idle s1) ((sc_current s1)(cpu := next)) cpu)"
    using slots_current [OF c, of s1 "next"] by (simp add: switched_def slots_def)
  then show sl: "slots s = slots (switched cpu prev next s1) + (if prev = idle then {#} else {#prev#})"
    using p i1 notin assms(3) by (auto simp: cpu_list_def split: if_splits)
  have "slots (switched cpu prev next s1) \<subseteq># slots s" using sl by simp
  then show "sched_wf (switched cpu prev next s1)"
    using wf_current [OF wf1] sub_all_slots [OF _ assms(1)] by (simp add: switched_def)
qed

section \<open>The reaper\<close>

lemma stacks_okD:
  assumes "stacks_ok s"
  shows "pg_wf (spages s)" "sc_stackpageorder s < FREELIST_LEVELS"
    "own_stack s t \<Longrightarrow> order2size (sc_stackpageorder s) dvd bt_stackbase (sc_thread s t)"
    "own_stack s t \<Longrightarrow> stack_blk s t \<subseteq> managed (spages s)"
    "own_stack s t \<Longrightarrow> stack_blk s t \<inter> free_bytes (spages s) = {}"
    "own_stack s t \<Longrightarrow> own_stack s u \<Longrightarrow> t \<noteq> u \<Longrightarrow> stack_blk s t \<inter> stack_blk s u = {}"
  using assms unfolding stacks_ok_def by blast+

text \<open>What a thread gives back when its slot becomes free.\<close>

definition reaped_blk :: "sched \<Rightarrow> nat \<Rightarrow> nat set" where
  "reaped_blk s t = (if bt_flags (sc_thread s t) AND THR_EXTSTACK = 0 then stack_blk s t else {})"

lemma stacks_ok_free:
  assumes "stacks_ok s" "live s i" "pg_wf pg" "titems fq = titems (sc_freeq s) @ [i]"
    "free_bytes pg = free_bytes (spages s) \<union> reaped_blk s i" "managed pg = managed (spages s)"
  shows "stacks_ok (s\<lparr>sc_mem := (sc_mem s)\<lparr>pgs := pg\<rparr>, sc_freeq := fq\<rparr>)" (is "stacks_ok ?s")
proof -
  have own: "own_stack ?s t \<longleftrightarrow> own_stack s t \<and> t \<noteq> i" for t
    using assms(4) by (auto simp: own_stack_def live_def)
  have "stack_blk s t \<inter> free_bytes pg = {}" if "own_stack s t" "t \<noteq> i" for t
  proof -
    have "stack_blk s t \<inter> reaped_blk s i = {}"
    proof (cases "own_stack s i")
      case True
      then show ?thesis using stacks_okD(6) [OF assms(1) that(1) True that(2)] by (simp add: reaped_blk_def)
    next
      case False
      then show ?thesis using assms(2) by (simp add: reaped_blk_def own_stack_def)
    qed
    then show ?thesis using stacks_okD(5) [OF assms(1) that(1)] unfolding assms(5) by blast
  qed
  then show ?thesis
    unfolding stacks_ok_def own using stacks_okD [OF assms(1)] assms(3,6) by simp
qed

lemma wf_free_slot:
  assumes "sched_wf s" "live s i" "i \<notin># slots s" "twf fq" "titems fq = titems (sc_freeq s) @ [i]"
    "pg_wf pg" "free_bytes pg = free_bytes (spages s) \<union> reaped_blk s i" "managed pg = managed (spages s)"
  shows "sched_wf (s\<lparr>sc_mem := (sc_mem s)\<lparr>pgs := pg\<rparr>, sc_freeq := fq\<rparr>)" (is "sched_wf ?s")
    and "slots (s\<lparr>sc_mem := (sc_mem s)\<lparr>pgs := pg\<rparr>, sc_freeq := fq\<rparr>) = add_mset i (slots s)"
proof -
  show sl: "slots ?s = add_mset i (slots s)"
    using slots_freeq [of fq "s\<lparr>sc_mem := (sc_mem s)\<lparr>pgs := pg\<rparr>\<rparr>"] assms(5) by simp
  have live: "live ?s t \<longleftrightarrow> live s t \<and> t \<noteq> i" for t using assms(5) by (auto simp: live_def)
  have "i \<notin> set (sc_timeq s c)" for c
    using timeq_range [OF assms(1)] places_sub(4) [of c s] assms(3) by (metis mset_subset_eqD set_mset_mset)
  then have tq: "timeq_ok ?s"
    using timeq_sorted [OF assms(1)] timeqD [OF assms(1)] by (auto simp: timeq_ok_def live)
  have "slots ?s \<subseteq># all_slots"
    unfolding sl using slots_add [OF sched_wfD(6) [OF assms(1)] assms(3)] assms(2) by (simp add: live_def)
  moreover have "rings_ok ?s" "cpus_ok ?s" "threads_ok ?s"
    using sched_wfD(1,2,3) [OF assms(1)] assms(4) by (simp_all add: rings_ok_def cpus_ok_def threads_ok_def live)
  moreover have "stacks_ok ?s" by (rule stacks_ok_free [OF sched_wfD(5) [OF assms(1)] assms(2,6,5,7,8)])
  ultimately show "sched_wf ?s" using tq sched_wfI by blast
qed

text \<open>The stack of a live thread goes back to the page allocator.\<close>

lemma stackfree_ok:
  assumes "sched_wf s" "live s i"
  obtains pg where
    "(if bt_flags (sc_thread s i) AND THR_EXTSTACK = 0 then stackfree i s else Inr s) =
      Inr (s\<lparr>sc_mem := (sc_mem s)\<lparr>pgs := pg\<rparr>\<rparr>)"
    "pg_wf pg" "free_bytes pg = free_bytes (spages s) \<union> reaped_blk s i" "managed pg = managed (spages s)"
proof (cases "bt_flags (sc_thread s i) AND THR_EXTSTACK = 0")
  case True
  note st = stacks_okD [OF sched_wfD(5) [OF assms(1)]]
  have own: "own_stack s i" using True assms(2) by (simp add: own_stack_def)
  obtain pg where "bmk_pgfree (bt_stackbase (sc_thread s i)) (int (sc_stackpageorder s)) (spages s) = Inr pg"
    "pg_wf pg" "free_bytes pg = free_bytes (spages s) \<union> stack_blk s i" "managed pg = managed (spages s)"
    using pages.release_law [OF st(1) st(3) [OF own] st(4) [OF own] st(5) [OF own]] by blast
  then show thesis using that True by (simp add: stackfree_def reaped_blk_def)
next
  case False
  show thesis
    by (rule that [of "spages s"])
      (use False stacks_okD(1) [OF sched_wfD(5) [OF assms(1)]] in \<open>simp_all add: reaped_blk_def\<close>)
qed

text \<open>The fields the reaper does not touch.\<close>

definition reap_frame :: "sched \<Rightarrow> sched \<Rightarrow> bool" where
  "reap_frame s s' \<longleftrightarrow> s' = s\<lparr>sc_mem := sc_mem s', sc_freeq := sc_freeq s', sc_zombieq := sc_zombieq s'\<rparr>"

lemma reap_frameD:
  assumes "reap_frame s s'"
  shows "sc_thread s' = sc_thread s" "sc_runq s' = sc_runq s" "sc_timeq s' = sc_timeq s" "sc_current s' = sc_current s"
    "sc_idle s' = sc_idle s" "sc_virgin s' = sc_virgin s" "sc_numcpus s' = sc_numcpus s" "sc_nodes s' = sc_nodes s"
    "sc_stackpageorder s' = sc_stackpageorder s"
  by (subst assms [unfolded reap_frame_def], simp)+

lemma reaper_round:
  assumes "sched_wf s" "titems (sc_zombieq s) = i # zs"
  obtains s' where "reaper s = reaper s'" "sched_wf s'" "slots s' = slots s" "reap_frame s s'"
    "titems (sc_zombieq s') = zs" "titems (sc_freeq s') = titems (sc_freeq s) @ [i]"
    "free_bytes (spages s') = free_bytes (spages s) \<union> reaped_blk s i"
proof -
  have tw: "twf (sc_zombieq s)" "twf (sc_freeq s)" using sched_wfD(1) [OF assms(1)] by (simp_all add: rings_ok_def)
  obtain x q where x: "thread_deq (sc_zombieq s) = Inr (x, q)" "x \<noteq> LFRING_EMPTY" "unat x = i" "twf q" "titems q = zs"
    by (rule thread_deq_Cons [OF tw(1) assms(2)])
  define s1 where "s1 = s\<lparr>sc_zombieq := q\<rparr>"
  have sl1: "slots s = add_mset i (slots s1)" using slots_zombieq [of q s] assms(2) x(5) by (simp add: s1_def)
  have wf1: "sched_wf s1"
    using wf_zombieq [OF assms(1) x(4)] sub_all_slots [OF _ assms(1), of "slots s1"] sl1 by (simp add: s1_def)
  have live: "live s1 i" using live_elsewhere [OF assms(1) places_free(3)] assms(2) by (simp add: s1_def)
  have notin: "i \<notin># slots s1" using slots_distinct [OF assms(1), of "slots s" i] sl1 by (simp add: not_in_iff)
  obtain pg where pg: "(if bt_flags (sc_thread s1 i) AND THR_EXTSTACK = 0 then stackfree i s1 else Inr s1) =
      Inr (s1\<lparr>sc_mem := (sc_mem s1)\<lparr>pgs := pg\<rparr>\<rparr>)"
    "pg_wf pg" "free_bytes pg = free_bytes (spages s1) \<union> reaped_blk s1 i" "managed pg = managed (spages s1)"
    by (rule stackfree_ok [OF wf1 live])
  have i: "i < BMK_MAX_THREADS" using live by (simp add: live_def)
  have "length (titems (sc_freeq s1)) < BMK_MAX_THREADS"
    by (rule room [OF sched_wfD(6) [OF wf1] notin i places_sub(1)])
  then obtain fq where fq: "thread_enq (sc_freeq s1) i = Inr fq" "twf fq" "titems fq = titems (sc_freeq s1) @ [i]"
    using thread_enq_ok [of "sc_freeq s1" i] tw(2) i by (auto simp: s1_def)
  define s2 where "s2 = s1\<lparr>sc_mem := (sc_mem s1)\<lparr>pgs := pg\<rparr>, sc_freeq := fq\<rparr>"
  have xi: "x = word_of_nat i" by (simp flip: x(3))
  have "reaper s = reaper s2"
    using x(2) fq(1) unfolding reaper.simps [of s] s2_def
    by (simp add: Let_def x(1) xi slot_valid(2) [OF i] s1_def pg(1) [unfolded s1_def, simplified] cong: if_cong split del: if_split)
  moreover have "sched_wf s2" "slots s2 = slots s"
    using wf_free_slot [OF wf1 live notin fq(2,3) pg(2-4)] sl1 by (simp_all add: s2_def)
  ultimately show thesis
    by (rule that) (simp_all add: s1_def s2_def reap_frame_def x fq(3) [unfolded s1_def] pg(3) [unfolded s1_def] reaped_blk_def)
qed

lemma reaper_ok:
  assumes "sched_wf s"
  shows "\<exists>s'. reaper s = Some (Inr s') \<and> sched_wf s' \<and> slots s' = slots s \<and> reap_frame s s' \<and>
    titems (sc_zombieq s') = [] \<and> titems (sc_freeq s') = titems (sc_freeq s) @ titems (sc_zombieq s) \<and>
    free_bytes (spages s') = free_bytes (spages s) \<union> (\<Union>t\<in>set (titems (sc_zombieq s)). reaped_blk s t)"
  using assms
proof (induction "titems (sc_zombieq s)" arbitrary: s)
  case Nil
  have tw: "twf (sc_zombieq s)" using sched_wfD(1) [OF Nil.prems] by (simp add: rings_ok_def)
  obtain q where q: "thread_deq (sc_zombieq s) = Inr (LFRING_EMPTY, q)" "twf q" "titems q = []"
    using thread_deq_Nil [OF tw] Nil.hyps by metis
  have "slots (s\<lparr>sc_zombieq := q\<rparr>) = slots s" using slots_zombieq [of q s] q(3) Nil.hyps by simp
  moreover from this have "sched_wf (s\<lparr>sc_zombieq := q\<rparr>)"
    using wf_zombieq [OF Nil.prems q(2)] sched_wfD(6) [OF Nil.prems] by simp
  moreover have "reaper s = Some (Inr (s\<lparr>sc_zombieq := q\<rparr>))"
    unfolding reaper.simps [of s] using q(1) by (simp add: Let_def)
  ultimately show ?case using q(3) Nil.hyps by (simp add: reap_frame_def)
next
  case (Cons i zs)
  obtain s1 where s1: "reaper s = reaper s1" "sched_wf s1" "slots s1 = slots s" "reap_frame s s1"
    "titems (sc_zombieq s1) = zs" "titems (sc_freeq s1) = titems (sc_freeq s) @ [i]"
    "free_bytes (spages s1) = free_bytes (spages s) \<union> reaped_blk s i"
    by (rule reaper_round [OF Cons.prems Cons.hyps(2) [symmetric]])
  obtain s' where s': "reaper s1 = Some (Inr s')" "sched_wf s'" "slots s' = slots s1" "reap_frame s1 s'"
    "titems (sc_zombieq s') = []" "titems (sc_freeq s') = titems (sc_freeq s1) @ titems (sc_zombieq s1)"
    "free_bytes (spages s') = free_bytes (spages s1) \<union> (\<Union>t\<in>set (titems (sc_zombieq s1)). reaped_blk s1 t)"
    using Cons.hyps(1) [of s1] s1(2,5) by blast
  have "reap_frame s s'"
    unfolding reap_frame_def by (subst s'(4) [unfolded reap_frame_def], subst s1(4) [unfolded reap_frame_def]) simp
  moreover have "reaped_blk s1 = reaped_blk s"
    using reap_frameD [OF s1(4)] by (simp add: reaped_blk_def fun_eq_iff)
  ultimately show ?case using s1 s' Cons.hyps(2) [symmetric] by auto
qed

end
