(* ===== verification/Sched_Correct.thy ===== *)
theory Sched_Correct
  imports Sched_Inv
begin

text \<open>
  What \<^verbatim>\<open>schedule\<close> and the operations built on it do to the invariant, the scheduler as a transition
  system, and the properties of the reachable states.
\<close>

section \<open>schedule\<close>

text \<open>The pages the scheduler has for stacks: the free ones and the stacks of the threads that are not reaped.\<close>

definition stack_mem :: "sched \<Rightarrow> nat set" where
  "stack_mem s = free_bytes (spages s) \<union> (\<Union>t\<in>{t. own_stack s t}. stack_blk s t)"

definition keeps :: "sched \<Rightarrow> sched \<Rightarrow> bool" where
  "keeps s s' \<longleftrightarrow> stack_mem s' = stack_mem s \<and> sc_nodes s' = sc_nodes s \<and> sc_idle s' = sc_idle s \<and>
     sc_numcpus s' = sc_numcpus s"

lemma keeps_trans: "keeps a b \<Longrightarrow> keeps b c \<Longrightarrow> keeps a c"
  by (simp add: keeps_def)

lemma sc_frame_keeps: "sc_frame s s' \<Longrightarrow> keeps s s'"
proof -
  assume fr: "sc_frame s s'"
  have th: "bt_flags (sc_thread s' t) = bt_flags (sc_thread s t)"
    "bt_stackbase (sc_thread s' t) = bt_stackbase (sc_thread s t)" for t
    by (subst sc_frame_thread(1) [OF fr], simp)+
  show ?thesis
    using sc_frameD [OF fr] by (simp add: keeps_def stack_mem_def own_stack_def live_def th)
qed

lemma reap_keeps:
  assumes "sched_wf s" "reap_frame s s'" "titems (sc_freeq s') = titems (sc_freeq s) @ titems (sc_zombieq s)"
    "free_bytes (spages s') = free_bytes (spages s) \<union> (\<Union>t\<in>set (titems (sc_zombieq s)). reaped_blk s t)"
  shows "keeps s s'"
proof -
  note fr = reap_frameD [OF assms(2)]
  have z: "live s t" if "t \<in> set (titems (sc_zombieq s))" for t
    using live_elsewhere [OF assms(1) places_free(3)] that by simp
  have own: "own_stack s' t \<longleftrightarrow> own_stack s t \<and> t \<notin> set (titems (sc_zombieq s))" for t
    using assms(3) by (auto simp: own_stack_def live_def fr)
  have reaped: "reaped_blk s t = (if own_stack s t then stack_blk s t else {})" if "t \<in> set (titems (sc_zombieq s))" for t
    using z [OF that] by (simp add: reaped_blk_def own_stack_def)
  have "stack_mem s' = stack_mem s"
    unfolding stack_mem_def assms(4) own fr using reaped by (auto split: if_splits)
  then show ?thesis using fr by (simp add: keeps_def)
qed

lemma after_switch_ok:
  assumes "sched_wf s"
  obtains s' where "(if virgin then Inr (s\<lparr>sc_virgin := (sc_virgin s)(n := False)\<rparr>) else bindE (loopE (reaper s)) (\<lambda>r. r)) = Inr s'"
    "sched_wf s'" "slots s' = slots s" "keeps s s'" "sc_runq s' = sc_runq s" "sc_current s' = sc_current s"
    "sc_thread s' = sc_thread s" "sc_timeq s' = sc_timeq s"
proof (cases virgin)
  case True
  show thesis
    by (rule that [of "s\<lparr>sc_virgin := (sc_virgin s)(n := False)\<rparr>"])
      (use True assms in \<open>simp_all add: wf_virgin keeps_def stack_mem_def own_stack_def live_def\<close>)
next
  case False
  obtain s' where s': "reaper s = Some (Inr s')" "sched_wf s'" "slots s' = slots s" "reap_frame s s'"
    "titems (sc_freeq s') = titems (sc_freeq s) @ titems (sc_zombieq s)"
    "free_bytes (spages s') = free_bytes (spages s) \<union> (\<Union>t\<in>set (titems (sc_zombieq s)). reaped_blk s t)"
    using reaper_ok [OF assms] by blast
  then show thesis
    using that False reap_keeps [OF assms s'(4-6)] reap_frameD [OF s'(4)] by simp
qed

lemma sub_of_sum2: "X \<subseteq># T \<Longrightarrow> Y \<subseteq># C \<Longrightarrow> X + Y \<subseteq># F + Z + R + T + C"
  by (metis add.assoc mset_subset_eq_add_right subset_mset.add_mono subset_mset.order_trans)

lemma running_not_queued:
  assumes "sched_wf s" "c \<le> MAXCPUS" "t \<in> set (cpu_items s c)"
  shows "t \<notin> set (sc_timeq s d)"
proof
  assume d: "t \<in> set (sc_timeq s d)"
  have le: "f c \<subseteq># (\<Sum>i\<le>MAXCPUS. f i)" if "c \<le> MAXCPUS" for c and f :: "nat \<Rightarrow> nat multiset"
    using that sum.remove [of "{..MAXCPUS}" c f] by simp
  have "mset (sc_timeq s d) + mset (cpu_items s c) \<subseteq># slots s"
    unfolding slots_def
    by (rule sub_of_sum2) (use le [of d "\<lambda>i. mset (sc_timeq s i)"] le [of c "\<lambda>i. mset (cpu_items s i)"]
        timeq_range [OF assms(1) d] assms(2) in simp_all)
  then have "count (mset (sc_timeq s d)) t + count (mset (cpu_items s c)) t \<le> 1"
    using slots_distinct [OF assms(1)] by (metis count_union)
  moreover have "0 < count (mset (sc_timeq s d)) t" "0 < count (mset (cpu_items s c)) t"
    using d assms(3) by simp_all
  ultimately show False by linarith
qed

text \<open>
  What \<^verbatim>\<open>schedule\<close> needs of the callback it runs after the switch: applied to a thread that is in no place
  and satisfies \<open>ready\<close>, it puts it into the places of \<open>stays\<close> and otherwise only appends to run queues.
\<close>

locale switch_callback = timeout_wake +
  fixes callback :: "nat \<Rightarrow> sched \<Rightarrow> sched res"
    and ready :: "bmk_thread \<Rightarrow> bool"
    and stays :: "nat \<Rightarrow> nat multiset"
  assumes callback_law: "sched_wf s \<Longrightarrow> live s t \<Longrightarrow> t \<notin># slots s \<Longrightarrow> ready (sc_thread s t) \<Longrightarrow>
    \<exists>s'. callback t s = Inr s' \<and> sched_wf s' \<and> slots s' = slots s + stays t \<and> keeps s s' \<and>
      sc_current s' = sc_current s \<and> (\<forall>c. \<exists>ys. runq_items s' c = runq_items s c @ ys)"
begin

lemma switch_ok:
  assumes "sched_wf s" "sc_idle s cpu = Some idle" "sc_current s cpu \<noteq> idle" "ready (sc_thread s (sc_current s cpu))"
    "schedule_pick wake cpu clk s = Inr (n, s1)" "picked s cpu idle n s1"
  obtains s' where "schedule wake cpu clk (Some callback) s = Inr s'" "sched_wf s'" "keeps s s'"
    "slots s' + {#sc_current s cpu#} = slots s + stays (sc_current s cpu)" "sc_current s' = (sc_current s)(cpu := n)"
    "\<forall>c. \<exists>ys. runq_items s' c = runq_items s1 c @ ys"
proof -
  define prev where "prev = sc_current s cpu"
  define S where "S = switched cpu prev n s1"
  note sw = switched_ok [OF assms(1,2) prev_def assms(6), folded S_def]
  have fr: "sc_frame s s1" using assms(6) by (simp add: picked_def)
  have c: "cpu \<le> MAXCPUS" using started_cpu [OF assms(1,2)] by blast
  have pin: "prev \<in> set (cpu_items s cpu)" using assms(2,3) by (simp add: prev_def cpu_list_def)
  have sl: "slots s = add_mset prev (slots S)" using sw(3) assms(3) by (simp add: prev_def)
  have notin: "prev \<notin># slots S" using slots_distinct [OF assms(1), of "slots s" prev] sl by (simp add: not_in_iff)
  have live: "live S prev"
    using cpu_item_live [OF assms(1) c pin] sc_frameD(3) [OF fr] by (simp add: S_def switched_def live_def)
  have "sc_thread S prev = sc_thread s prev"
    using sc_frame_thread(2) [OF fr] running_not_queued [OF assms(1) c pin] by (simp add: S_def switched_def)
  then have rd: "ready (sc_thread S prev)" using assms(4) by (simp add: prev_def)
  obtain S' where S': "callback prev S = Inr S'" "sched_wf S'" "slots S' = slots S + stays prev" "keeps S S'"
    "sc_current S' = sc_current S" "\<forall>c. \<exists>ys. runq_items S' c = runq_items S c @ ys"
    using callback_law [OF sw(2) live notin rd] by (elim exE conjE) (rule that)
  obtain s' where s': "(if sc_virgin s1 n \<and> prev \<noteq> n then Inr (S'\<lparr>sc_virgin := (sc_virgin S')(n := False)\<rparr>)
        else bindE (loopE (reaper S')) (\<lambda>r. r)) = Inr s'"
    "sched_wf s'" "slots s' = slots S'" "keeps S' s'" "sc_runq s' = sc_runq S'" "sc_current s' = sc_current S'"
    by (rule after_switch_ok [OF S'(2)])
  have "schedule wake cpu clk (Some callback) s = Inr s'"
    using assms(5) sw(1) S'(1) s'(1)
    by (simp add: schedule_def Let_def sched_switch_def S_def switched_def prev_def)
  moreover have "keeps s s'"
    using keeps_trans [OF keeps_trans [OF sc_frame_keeps [OF fr]] s'(4)] S'(4)
    by (simp add: keeps_def S_def switched_def stack_mem_def own_stack_def)
  moreover have "sc_current s' = (sc_current s)(cpu := n)"
    using s'(6) S'(5) sc_frameD(7) [OF fr] by (simp add: S_def switched_def)
  ultimately show thesis using that s' S' sl by (simp add: S_def switched_def prev_def)
qed

text \<open>A call with one clock reading returns when another thread than the idle one makes it.\<close>

lemma schedule_ok:
  assumes "sched_wf s" "sc_idle s cpu = Some idle" "sc_current s cpu \<noteq> idle" "ready (sc_thread s (sc_current s cpu))"
    "clk \<noteq> []"
  shows "\<exists>s'. schedule wake cpu clk (Some callback) s = Inr s' \<and> sched_wf s' \<and> keeps s s' \<and>
    slots s' + {#sc_current s cpu#} = slots s + stays (sc_current s cpu)"
  using pick_ok [OF assms(1,2), of clk] switch_ok [OF assms(1-4)] assms(3,5) by metis

lemma schedule_head:
  assumes "sched_wf s" "sc_idle s cpu = Some idle" "sc_current s cpu \<noteq> idle" "ready (sc_thread s (sc_current s cpu))"
    "runq_items s cpu = t # ts"
  obtains s' ys where "schedule wake cpu clk (Some callback) s = Inr s'" "sched_wf s'" "keeps s s'"
    "sc_current s' = (sc_current s)(cpu := t)" "runq_items s' cpu = ts @ ys"
proof -
  have "run_candidates s cpu = t # ts @ (if sc_numcpus s = 1 then [] else runq_items s MAXCPUS)"
    using assms(5) by (simp add: run_candidates_def)
  then obtain s1 where s1: "schedule_pick wake cpu clk s = Inr (t, s1)" "picked s cpu idle t s1"
    "runq_items s cpu \<noteq> [] \<longrightarrow> runq_items s1 = (runq_items s)(cpu := tl (runq_items s cpu))"
    using pick_head [OF assms(1,2)] by metis
  obtain s' where s': "schedule wake cpu clk (Some callback) s = Inr s'" "sched_wf s'" "keeps s s'"
    "sc_current s' = (sc_current s)(cpu := t)" "\<forall>c. \<exists>ys. runq_items s' c = runq_items s1 c @ ys"
    by (rule switch_ok [OF assms(1-4) s1(1,2)])
  obtain ys where "runq_items s' cpu = runq_items s1 cpu @ ys" using s'(5) by blast
  then show thesis using that s' s1(3) assms(5) by simp
qed

end

section \<open>The callbacks of the scheduler\<close>

lemma wake_keeps: "keeps s (s\<lparr>sc_runq := rq\<rparr>)" "keeps s (s\<lparr>sc_timeq := tq\<rparr>)" "keeps s (s\<lparr>sc_zombieq := zq\<rparr>)"
  by (simp_all add: keeps_def stack_mem_def own_stack_def)

lemma yield_callback_wake: "yield_callback t s = bmk_sched_wake t s"
  by (simp add: yield_callback_def bmk_sched_wake_def)

interpretation yielding: switch_callback "\<lambda>_. bmk_sched_wake" yield_callback "\<lambda>_. True" "\<lambda>t. {#t#}"
proof (unfold_locales, goal_cases)
  case (1 s t)
  show ?case
    unfolding yield_callback_wake
    by (rule bmk_sched_wake_ok [OF 1(1-3)]) (auto simp: wake_keeps)
qed

interpretation exiting: switch_callback "\<lambda>_. bmk_sched_wake" exit_callback "\<lambda>_. True" "\<lambda>t. {#t#}"
proof (unfold_locales, goal_cases)
  case (1 s t)
  have t: "t < BMK_MAX_THREADS" "bt_idx (sc_thread s t) = t" using 1 cpuidx_ok(1) by (auto simp: live_def)
  have "length (titems (sc_zombieq s)) < BMK_MAX_THREADS"
    by (rule room [OF sched_wfD(6) [OF 1(1)] 1(3) t(1) places_sub(2)])
  then obtain q where q: "thread_enq (sc_zombieq s) t = Inr q" "twf q" "titems q = titems (sc_zombieq s) @ [t]"
    using thread_enq_ok [of "sc_zombieq s" t] sched_wfD(1) [OF 1(1)] t(1) by (auto simp: rings_ok_def)
  have sl: "slots (s\<lparr>sc_zombieq := q\<rparr>) = slots s + {#t#}" using slots_zombieq [of q s] q(3) by simp
  then have "sched_wf (s\<lparr>sc_zombieq := q\<rparr>)"
    using wf_zombieq [OF 1(1) q(2)] slots_add [OF sched_wfD(6) [OF 1(1)] 1(3) t(1)] by simp
  then show ?case using q(1) t(2) sl by (simp add: exit_callback_def wake_keeps)
qed

interpretation sleeping: switch_callback "\<lambda>_. bmk_sched_wake" bmk_insert_timeq
  "\<lambda>t. bt_wakeup_time t \<noteq> BMK_SCHED_BLOCK_INFTIME \<and> bt_timedout t = 0" "\<lambda>t. {#t#}"
proof (unfold_locales, goal_cases)
  case (1 s t)
  then show ?case
    by (elim conjE) (rule bmk_insert_timeq_ok [OF 1(1-3)], auto simp: wake_keeps)
qed

interpretation blocking: switch_callback "\<lambda>_. bmk_sched_wake" "\<lambda>_ s. Inr s" "\<lambda>_. True" "\<lambda>_. {#}"
  by unfold_locales (simp add: keeps_def)

text \<open>The idle thread calls \<^verbatim>\<open>schedule\<close> without a callback.\<close>

lemma idle_schedule_ok:
  assumes "sched_wf s" "sc_idle s cpu = Some (sc_current s cpu)"
    "schedule (\<lambda>_. bmk_sched_wake) cpu clk None s = Inr s'"
  shows "sched_wf s'" "slots s' = slots s" "keeps s s'"
proof -
  define prev where "prev = sc_current s cpu"
  have "schedule_pick (\<lambda>_. bmk_sched_wake) cpu clk s \<noteq> Inl NoReturn"
    using assms(3) by (auto simp: schedule_def Let_def)
  then obtain n s1 where n: "schedule_pick (\<lambda>_. bmk_sched_wake) cpu clk s = Inr (n, s1)" "picked s cpu prev n s1"
    using sched_wake.pick_ok [OF assms(1,2)] unfolding prev_def by blast
  note sw = switched_ok [OF assms(1,2) refl n(2) [unfolded prev_def]]
  have fr: "sc_frame s s1" using n(2) by (simp add: picked_def)
  define S where "S = switched cpu prev n s1"
  obtain s2 where s2: "(if sc_virgin s1 n \<and> prev \<noteq> n then Inr (S\<lparr>sc_virgin := (sc_virgin S)(n := False)\<rparr>)
        else bindE (loopE (reaper S)) (\<lambda>r. r)) = Inr s2" "sched_wf s2" "slots s2 = slots S" "keeps S s2"
    using after_switch_ok [OF sw(2)] unfolding S_def prev_def by metis
  have "schedule (\<lambda>_. bmk_sched_wake) cpu clk None s = Inr s2"
    unfolding s2(1) [symmetric] using n(1) sw(1)
    by (simp add: schedule_def Let_def sched_switch_def S_def switched_def prev_def)
  then have "s' = s2" using assms(3) by simp
  moreover have "keeps s S"
    using sc_frame_keeps [OF fr] by (simp add: keeps_def S_def switched_def stack_mem_def own_stack_def)
  ultimately show "sched_wf s'" "slots s' = slots s" "keeps s s'"
    using s2 sw(3) keeps_trans by (auto simp: S_def prev_def)
qed

section \<open>Creation\<close>

text \<open>
  Until the new thread is put into a run queue, creation changes nothing but the thread's own entry,
  the memory, the nodes and the flag of the bouncer.
\<close>

definition new_frame :: "nat \<Rightarrow> sched \<Rightarrow> sched \<Rightarrow> bool" where
  "new_frame i s s' \<longleftrightarrow> sc_numcpus s' = sc_numcpus s \<and> sc_stackpageorder s' = sc_stackpageorder s \<and>
     sc_runq s' = sc_runq s \<and> sc_freeq s' = sc_freeq s \<and> sc_zombieq s' = sc_zombieq s \<and> sc_timeq s' = sc_timeq s \<and>
     sc_current s' = sc_current s \<and> sc_idle s' = sc_idle s \<and> (\<forall>t. t \<noteq> i \<longrightarrow> sc_thread s' t = sc_thread s t)"

text \<open>What matters of the new thread's entry.\<close>

definition thread_key :: "bmk_thread \<Rightarrow> nat \<times> nat \<times> bool \<times> nat" where
  "thread_key t = (bt_idx t, bt_cpuidx t, bt_flags t AND THR_EXTSTACK = 0, bt_stackbase t)"

lemma new_frame_trans: "new_frame i a b \<Longrightarrow> new_frame i b c \<Longrightarrow> new_frame i a c"
  by (simp add: new_frame_def)

lemma store64_frame [simp]:
  "new_frame i s (store64 a v s)" "sc_thread (store64 a v s) = sc_thread s" "sc_nodes (store64 a v s) = sc_nodes s"
  "spages (store64 a v s) = spages s" "sc_virgin (store64 a v s) = sc_virgin s"
  "sc_thread_base (store64 a v s) = sc_thread_base s"
  by (simp_all add: store64_def new_frame_def)

lemma new_frame_fields:
  "new_frame i s (upd_thread i f s)" "new_frame i s (s\<lparr>sc_virgin := v\<rparr>)" "new_frame i s (s\<lparr>sc_nodes := ns\<rparr>)"
  "new_frame i s (s\<lparr>sc_node_object := nob\<rparr>)" "new_frame i s (s\<lparr>sc_mem := m\<rparr>)"
  by (simp_all add: new_frame_def)

text \<open>The stages of creation after the slot is taken, each with what it establishes.\<close>

definition create_done :: "nat \<Rightarrow> nat \<times> nat \<times> bool \<times> nat \<Rightarrow> sched \<Rightarrow> sched \<Rightarrow> bool" where
  "create_done i key s s' \<longleftrightarrow> new_frame i s s' \<and> thread_key (sc_thread s' i) = key \<and> spages s' = spages s \<and>
     sc_nodes s' = sc_nodes s"

lemma bmk_cpu_sched_create_done:
  assumes "bmk_cpu_sched_create bouncer i f arg base sz s = Inr s'"
  shows "create_done i (thread_key (sc_thread s i)) s s'" "base \<noteq> 0"
proof -
  show ne: "base \<noteq> 0" by (rule notI) (use assms in \<open>simp add: bmk_cpu_sched_create_def\<close>)
  then have "s' = upd_thread i (bt_sp_update (\<lambda>_. base + sz - 8 - 8 - 8 - 8))
      ((store64 (base + sz - 8 - 8 - 8 - 8) bouncer (store64 (base + sz - 8 - 8 - 8) arg (store64 (base + sz - 8 - 8) f
        (store64 (base + sz - 8) 0 (store64 base (thread_addr s i) s)))))\<lparr>sc_virgin := (sc_virgin s)(i := True)\<rparr>)"
    using assms by (simp add: bmk_cpu_sched_create_def stack_push_def Let_def)
  then show "create_done i (thread_key (sc_thread s i)) s s'"
    by (simp add: create_done_def thread_key_def new_frame_def store64_def)
qed

lemma init_tls_done:
  "create_done i (thread_key (sc_thread s i)) s (initcurrent tls i (inittcb i tls
     (upd_thread i (\<lambda>t. t\<lparr>bt_cookie := cookie, bt_wakeup_time := w\<rparr>) s)))"
  by (simp add: create_done_def thread_key_def new_frame_def initcurrent_def inittcb_def store64_def)

lemma create_done_trans:
  "create_done i k s s1 \<Longrightarrow> create_done i (thread_key (sc_thread s1 i)) s1 s2 \<Longrightarrow> create_done i k s s2"
  by (auto simp: create_done_def intro: new_frame_trans)

definition create_cpu :: "sched \<Rightarrow> int \<Rightarrow> nat" where
  "create_cpu s cpuidx = (if sc_numcpus s = 1 then 0 else if cpuidx = - 1 then MAXCPUS else nat (cpuidx mod 2 ^ 32))"

lemma create_thread_done:
  assumes "create_thread i name joinable cpuidx s = Inr s'"
  shows "create_done i (i, create_cpu s cpuidx, True, 0) s s'"
  using assms by (auto simp: create_thread_def create_cpu_def Let_def create_done_def thread_key_def new_frame_def
      thread_zero_def THR_EXTSTACK_def split: if_splits)

lemma joinable_done:
  "create_done i (thread_key (sc_thread s i)) s (if joinable
     then upd_thread i (\<lambda>t. t\<lparr>bt_flags := bt_flags t OR THR_MUSTJOIN, bt_join := 1, bt_exit := 1\<rparr>) s else s)"
proof -
  have "(w OR THR_MUSTJOIN) AND THR_EXTSTACK = 0 \<longleftrightarrow> w AND THR_EXTSTACK = 0" for w
    by (simp add: bit.conj_disj_distrib2 THR_MUSTJOIN_def THR_EXTSTACK_def)
  then show ?thesis by (simp add: create_done_def thread_key_def new_frame_def)
qed

text \<open>The stack: allocated, and then the thread's own, or handed in.\<close>

lemma stack_done:
  assumes "pg_wf (spages s)" "sc_stackpageorder s < FREELIST_LEVELS" "thread_key (sc_thread s i) = (i, c, True, b0)"
    "(if stack_base = 0 then bindE (assertE msg (stack_size = 0)) (\<lambda>_. stackalloc s)
      else Inr ((stack_base, stack_size), upd_thread i (bt_flags_update (\<lambda>_. THR_EXTSTACK)) s)) = Inr ((base, sz), s1)"
    "s' = upd_thread i (bt_stackbase_update (\<lambda>_. base)) s1" "base \<noteq> 0"
  shows "new_frame i s s' \<and> sc_nodes s' = sc_nodes s \<and> pg_wf (spages s') \<and> managed (spages s') = managed (spages s) \<and>
    (stack_base \<noteq> 0 \<and> thread_key (sc_thread s' i) = (i, c, False, stack_base) \<and> spages s' = spages s \<or>
     stack_base = 0 \<and> thread_key (sc_thread s' i) = (i, c, True, base) \<and> order2size (sc_stackpageorder s) dvd base \<and>
       blk base (sc_stackpageorder s) \<subseteq> free_bytes (spages s) \<and>
       free_bytes (spages s') = free_bytes (spages s) - blk base (sc_stackpageorder s))"
proof (cases "stack_base = 0")
  case True
  then obtain p pg where p: "bmk_pgalloc (int (sc_stackpageorder s)) (spages s) = Inr (p, pg)"
    "base = (case p of None \<Rightarrow> 0 | Some a \<Rightarrow> a)" "s1 = s\<lparr>sc_mem := (sc_mem s)\<lparr>pgs := pg\<rparr>\<rparr>"
    using assms(4) by (auto simp: stackalloc_def bindE_eq_Inr)
  then have "p = Some base" using assms(6) by (auto split: option.splits)
  then show ?thesis
    using pages.alloc_Some [OF assms(1,2), of base pg] p True assms(3,5) by (auto simp: thread_key_def new_frame_def)
next
  case False
  then have "base = stack_base" "s1 = upd_thread i (bt_flags_update (\<lambda>_. THR_EXTSTACK)) s" using assms(4) by auto
  then show ?thesis
    using False assms(1,3,5) by (auto simp: thread_key_def new_frame_def THR_EXTSTACK_def)
qed

lemma new_frameD:
  assumes "new_frame i s s'"
  shows "sc_numcpus s' = sc_numcpus s" "sc_stackpageorder s' = sc_stackpageorder s" "sc_runq s' = sc_runq s"
    "sc_freeq s' = sc_freeq s" "sc_zombieq s' = sc_zombieq s" "sc_timeq s' = sc_timeq s" "sc_current s' = sc_current s"
    "sc_idle s' = sc_idle s" "t \<noteq> i \<Longrightarrow> sc_thread s' t = sc_thread s t"
  using assms by (simp_all add: new_frame_def)

text \<open>The stack of the new thread: nothing, or a block that was free.\<close>

definition new_stack :: "sched \<Rightarrow> sched \<Rightarrow> bool \<Rightarrow> nat \<Rightarrow> bool" where
  "new_stack s s' own base \<longleftrightarrow> pg_wf (spages s') \<and> managed (spages s') = managed (spages s) \<and>
     (if own then order2size (sc_stackpageorder s) dvd base \<and>
        blk base (sc_stackpageorder s) \<subseteq> free_bytes (spages s) \<and>
        free_bytes (spages s') = free_bytes (spages s) - blk base (sc_stackpageorder s)
      else free_bytes (spages s') = free_bytes (spages s))"

lemma stacks_ok_new:
  assumes "stacks_ok s" "\<And>t. own_stack s' t \<longleftrightarrow> (if t = i then own else own_stack s t)"
    "\<And>t. t \<noteq> i \<Longrightarrow> sc_thread s' t = sc_thread s t" "bt_stackbase (sc_thread s' i) = base"
    "sc_stackpageorder s' = sc_stackpageorder s" "new_stack s s' own base" "\<not> own_stack s i"
  shows "stacks_ok s'" "stack_mem s' = stack_mem s"
proof -
  note st = stacks_okD [OF assms(1)]
  have blk: "stack_blk s' t = (if t = i then blk base (sc_stackpageorder s) else stack_blk s t)" for t
    using assms(3,4,5) by simp
  have ns: "pg_wf (spages s')" "managed (spages s') = managed (spages s)" "free_bytes (spages s') \<subseteq> free_bytes (spages s)"
    "own \<Longrightarrow> order2size (sc_stackpageorder s) dvd base" "own \<Longrightarrow> blk base (sc_stackpageorder s) \<subseteq> free_bytes (spages s)"
    "own \<Longrightarrow> free_bytes (spages s') = free_bytes (spages s) - blk base (sc_stackpageorder s)"
    "\<not> own \<Longrightarrow> free_bytes (spages s') = free_bytes (spages s)"
    using assms(6) by (auto simp: new_stack_def split: if_splits)
  have man: "free_bytes (spages s) \<subseteq> managed (spages s)" by (rule pages.avail_area [OF st(1)])
  have one: "order2size (sc_stackpageorder s') dvd bt_stackbase (sc_thread s' t) \<and>
      stack_blk s' t \<subseteq> managed (spages s') \<and> stack_blk s' t \<inter> free_bytes (spages s') = {}"
    if "own_stack s' t" for t
  proof (cases "t = i")
    case True
    then show ?thesis using that assms(2,4,5) ns(2,4,5,6) man unfolding blk by auto
  next
    case False
    then show ?thesis using that assms(2,3,5) ns(2,3) st(3,4,5) [of t] unfolding blk by auto
  qed
  have two: "stack_blk s' t \<inter> stack_blk s' u = {}" if "own_stack s' t" "own_stack s' u" "t \<noteq> u" for t u
    using that assms(2) st(5) [of t] st(5) [of u] st(6) [of t u] ns(5) unfolding blk by (auto split: if_splits)
  show "stacks_ok s'"
    unfolding stacks_ok_def using one two ns(1) st(2) assms(5) by auto
  have own: "{t. own_stack s' t} = (if own then insert i {t. own_stack s t} else {t. own_stack s t})"
    using assms(2,7) by auto
  have "(\<Union>t\<in>{t. own_stack s t}. stack_blk s' t) = (\<Union>t\<in>{t. own_stack s t}. stack_blk s t)"
    using assms(7) unfolding blk by (intro SUP_cong) auto
  then show "stack_mem s' = stack_mem s"
    unfolding stack_mem_def own using ns(5,6,7) blk [of i] by auto
qed

lemma wf_new_thread:
  assumes "sched_wf s" "titems (sc_freeq s) = i # xs" "twf q" "titems q = xs" "new_frame i (s\<lparr>sc_freeq := q\<rparr>) S"
    "thread_key (sc_thread S i) = (i, c, own, base)" "sc_runq s c \<noteq> None"
    "lfring_wf BMK_MAX_BLOCKQ_ORDER (sc_nodes S)" "new_stack s S own base"
  shows "sched_wf S" "i \<notin># slots S" "slots s = add_mset i (slots S)" "live S i" "stack_mem S = stack_mem s"
proof -
  note fr = new_frameD [OF assms(5), simplified]
  have mem: "i \<in># slots s" using places_sub(1) [of s] assms(2) by (metis list.set_intros(1) mset_subset_eqD set_mset_mset)
  have "slots S = slots (s\<lparr>sc_freeq := q\<rparr>)" by (simp add: slots_def fr)
  then show sl: "slots s = add_mset i (slots S)" using slots_freeq [of q s] assms(2,4) by simp
  then show notin: "i \<notin># slots S" using slots_distinct [OF assms(1), of "slots s" i] by (simp add: not_in_iff)
  have nf: "i \<notin> set xs" using notin places_sub(1) [of S] assms(4) fr(4) by (metis mset_subset_eqD set_mset_mset)
  have live: "live S t \<longleftrightarrow> t = i \<or> live s t" for t
    using nf assms(2,4) fr(4) slot_below [OF assms(1) mem] by (auto simp: live_def)
  then show "live S i" by simp
  have dead: "\<not> live s i" using assms(2) by (simp add: live_def)
  have own: "own_stack S t \<longleftrightarrow> (if t = i then own else own_stack s t)" for t
    using live assms(6) fr(9) [of t] by (auto simp: own_stack_def thread_key_def)
  have st: "stacks_ok S \<and> stack_mem S = stack_mem s"
    using stacks_ok_new [OF sched_wfD(5) [OF assms(1)] own fr(9) _ fr(2) assms(9)] assms(6) dead
    by (simp add: thread_key_def own_stack_def)
  then show "stack_mem S = stack_mem s" by simp
  have nt: "t \<noteq> i" if "t \<in> set (sc_timeq s d)" for t d using that timeqD(3) [OF assms(1)] dead by blast
  have eq: "map (\<lambda>t. bt_wakeup_time (sc_thread S t)) (sc_timeq s d) = map (\<lambda>t. bt_wakeup_time (sc_thread s t)) (sc_timeq s d)" for d
    using nt fr(9) by (intro map_cong) auto
  have "sorted (map (\<lambda>t. bt_wakeup_time (sc_thread S t)) (sc_timeq s d))" for d
    unfolding eq by (rule timeq_sorted [OF assms(1)])
  then have "timeq_ok S"
    unfolding timeq_ok_def fr(6) using timeqD [OF assms(1)] nt fr(9) live by auto
  moreover have "rings_ok S" using sched_wfD(1) [OF assms(1)] assms(3,8) by (simp add: rings_ok_def fr)
  moreover have "cpus_ok S" using sched_wfD(2) [OF assms(1)] by (simp add: cpus_ok_def fr)
  moreover have "threads_ok S"
  proof -
    have "bt_idx (sc_thread S t) = t \<and> sc_runq s (bt_cpuidx (sc_thread S t)) \<noteq> None" if "t = i \<or> live s t" for t
      using that assms(6,7) fr(9) [of t] cpuidx_ok(1,2) [OF assms(1), of t] by (cases "t = i") (auto simp: thread_key_def)
    then show ?thesis by (simp add: threads_ok_def live fr(3))
  qed
  moreover have "slots S \<subseteq># all_slots" using sub_all_slots [OF _ assms(1), of "slots S"] sl by simp
  ultimately show "sched_wf S" using st sched_wfI by blast
qed

text \<open>The stages of a creation that succeeds.\<close>

lemma create_stages:
  assumes "do_sched_create_withtls bouncer name cookie joinable cpuidx f data stack_base stack_size tls ins s = Inr (r, s')"
    "thread_deq (sc_freeq s) = Inr (x, q)" "x \<noteq> LFRING_EMPTY" "unat x = i"
  obtains s1 base sz s2 s3 s4 node s5 s6 s7 where
    "create_thread i name joinable cpuidx (s\<lparr>sc_freeq := q\<rparr>) = Inr s1"
    "(if stack_base = 0 then bindE (assertE ''stack_size == 0'' (stack_size = 0)) (\<lambda>_. stackalloc s1)
      else Inr ((stack_base, stack_size), upd_thread i (bt_flags_update (\<lambda>_. THR_EXTSTACK)) s1)) = Inr ((base, sz), s2)"
    "s3 = (if joinable
       then upd_thread i (\<lambda>t. t\<lparr>bt_flags := bt_flags t OR THR_MUSTJOIN, bt_join := 1, bt_exit := 1\<rparr>)
         (upd_thread i (bt_stackbase_update (\<lambda>_. base)) s2)
       else upd_thread i (bt_stackbase_update (\<lambda>_. base)) s2)"
    "bmk_cpu_sched_create bouncer i f data base sz s3 = Inr s4"
    "s5 = initcurrent tls i (inittcb i tls
       (upd_thread i (\<lambda>t. t\<lparr>bt_cookie := cookie, bt_wakeup_time := BMK_SCHED_BLOCK_INFTIME\<rparr>) s4))"
    "do_block_node_alloc s5 = Inr (node, s6)"
    "s7 = (upd_thread i (bt_block_node_update (\<lambda>_. node)) s6)\<lparr>sc_node_object :=
       (sc_node_object (upd_thread i (bt_block_node_update (\<lambda>_. node)) s6))(node := i)\<rparr>"
    "(if ins then run_enqueue (bt_cpuidx (sc_thread s7 i)) i s7 else Inr s7) = Inr s'" "r = Some i"
  using assms(1) unfolding do_sched_create_withtls_def Let_def assms(2) bindE_Inr prod.case assms(4)
  by (simp only: assms(3) if_False bindE_eq_Inr split_paired_Ex prod.case sum.inject prod.inject)
    (elim exE conjE, rule that [OF _ _ refl _ refl _ refl], assumption, assumption, assumption, assumption,
      simp only:, simp only:)

lemma node_alloc_done:
  assumes "lfring_wf BMK_MAX_BLOCKQ_ORDER (sc_nodes s)" "do_block_node_alloc s = Inr (node, s')"
  obtains nq where "s' = s\<lparr>sc_nodes := nq\<rparr>" "lfring_wf BMK_MAX_BLOCKQ_ORDER nq"
    "length (lfring_list BMK_MAX_BLOCKQ_ORDER (sc_nodes s)) = Suc (length (lfring_list BMK_MAX_BLOCKQ_ORDER nq))"
proof (cases "lfring_list BMK_MAX_BLOCKQ_ORDER (sc_nodes s)")
  case Nil
  then show thesis using node_ring.deq_Nil_law [OF assms(1)] assms(2) by (auto simp: do_block_node_alloc_def)
next
  case (Cons y ys)
  then obtain nq where "lfring_dequeue (sc_nodes s) BMK_MAX_BLOCKQ_ORDER False = Some (y, nq)"
    "lfring_wf BMK_MAX_BLOCKQ_ORDER nq" "lfring_list BMK_MAX_BLOCKQ_ORDER nq = ys"
    using node_ring.deq_Cons_law [OF assms(1)] by blast
  then show thesis using that Cons assms(2) by (auto simp: do_block_node_alloc_def split: if_splits)
qed

abbreviation nitems :: "sched \<Rightarrow> u64 list" where
  "nitems s \<equiv> lfring_list BMK_MAX_BLOCKQ_ORDER (sc_nodes s)"

lemma create_none:
  assumes "sched_wf s" "titems (sc_freeq s) = []"
    "do_sched_create_withtls bouncer name cookie joinable cpuidx f data stack_base stack_size tls ins s = Inr (r, s')"
  shows "r = None \<and> sched_wf s' \<and> slots s' = slots s \<and> keeps s s'"
proof -
  have "twf (sc_freeq s)" using sched_wfD(1) [OF assms(1)] by (simp add: rings_ok_def)
  then obtain q where q: "thread_deq (sc_freeq s) = Inr (LFRING_EMPTY, q)" "twf q" "titems q = []"
    using assms(2) by (rule thread_deq_Nil)
  have s': "r = None" "s' = s\<lparr>sc_freeq := q\<rparr>"
    using assms(3) q(1) by (simp_all add: do_sched_create_withtls_def Let_def)
  have live: "live (s\<lparr>sc_freeq := q\<rparr>) = live s" using q(3) assms(2) by (simp add: live_def fun_eq_iff)
  then have own: "own_stack (s\<lparr>sc_freeq := q\<rparr>) = own_stack s" by (simp add: own_stack_def fun_eq_iff)
  have sl: "slots (s\<lparr>sc_freeq := q\<rparr>) = slots s" using slots_freeq [of q s] q(3) assms(2) by simp
  have "sched_wf (s\<lparr>sc_freeq := q\<rparr>)"
    using sched_wfD [OF assms(1)] q(2) sl by (intro sched_wfI) (simp_all add: wf_parts live own)
  then show ?thesis using s' sl by (simp add: keeps_def stack_mem_def own)
qed

text \<open>Everything up to the point where the thread is put into its run queue.\<close>

lemma create_prepared:
  assumes "sched_wf s" "twf q"
    "do_sched_create_withtls bouncer name cookie joinable cpuidx f data stack_base stack_size tls ins s = Inr (r, s')"
    "thread_deq (sc_freeq s) = Inr (x, q)" "x \<noteq> LFRING_EMPTY" "unat x = i"
  obtains S base where "r = Some i" "(if ins then run_enqueue (create_cpu s cpuidx) i S else Inr S) = Inr s'"
    "new_frame i (s\<lparr>sc_freeq := q\<rparr>) S" "thread_key (sc_thread S i) = (i, create_cpu s cpuidx, stack_base = 0, base)"
    "new_stack s S (stack_base = 0) base" "lfring_wf BMK_MAX_BLOCKQ_ORDER (sc_nodes S)"
    "length (nitems s) = Suc (length (nitems S))"
proof -
  have nw: "lfring_wf BMK_MAX_BLOCKQ_ORDER (sc_nodes s)"
    using sched_wfD(1) [OF assms(1)] by (simp_all add: rings_ok_def)
  define s0 where "s0 = s\<lparr>sc_freeq := q\<rparr>"
  define c where "c = create_cpu s cpuidx"
  obtain s1 base sz s2 s3 s4 node s5 s6 s7 where st:
    "create_thread i name joinable cpuidx s0 = Inr s1"
    "(if stack_base = 0 then bindE (assertE ''stack_size == 0'' (stack_size = 0)) (\<lambda>_. stackalloc s1)
      else Inr ((stack_base, stack_size), upd_thread i (bt_flags_update (\<lambda>_. THR_EXTSTACK)) s1)) = Inr ((base, sz), s2)"
    "s3 = (if joinable
       then upd_thread i (\<lambda>t. t\<lparr>bt_flags := bt_flags t OR THR_MUSTJOIN, bt_join := 1, bt_exit := 1\<rparr>)
         (upd_thread i (bt_stackbase_update (\<lambda>_. base)) s2)
       else upd_thread i (bt_stackbase_update (\<lambda>_. base)) s2)"
    "bmk_cpu_sched_create bouncer i f data base sz s3 = Inr s4"
    "s5 = initcurrent tls i (inittcb i tls
       (upd_thread i (\<lambda>t. t\<lparr>bt_cookie := cookie, bt_wakeup_time := BMK_SCHED_BLOCK_INFTIME\<rparr>) s4))"
    "do_block_node_alloc s5 = Inr (node, s6)"
    "s7 = (upd_thread i (bt_block_node_update (\<lambda>_. node)) s6)\<lparr>sc_node_object :=
       (sc_node_object (upd_thread i (bt_block_node_update (\<lambda>_. node)) s6))(node := i)\<rparr>"
    "(if ins then run_enqueue (bt_cpuidx (sc_thread s7 i)) i s7 else Inr s7) = Inr s'" "r = Some i"
    by (rule create_stages [OF assms(3-6), folded s0_def]) (rule that)
  define s2' where "s2' = upd_thread i (bt_stackbase_update (\<lambda>_. base)) s2"
  have base: "base \<noteq> 0" using bmk_cpu_sched_create_done(2) [OF st(4)] .
  have d1: "new_frame i s0 s1" "thread_key (sc_thread s1 i) = (i, c, True, 0)" "spages s1 = spages s"
    "sc_nodes s1 = sc_nodes s" "sc_stackpageorder s1 = sc_stackpageorder s"
    using create_thread_done [OF st(1)] by (simp_all add: create_done_def s0_def new_frame_def c_def create_cpu_def)
  have pg1: "pg_wf (spages s1)" "sc_stackpageorder s1 < FREELIST_LEVELS"
    using stacks_okD(1,2) [OF sched_wfD(5) [OF assms(1)]] d1(3,5) by simp_all
  have d2: "new_frame i s1 s2'" "sc_nodes s2' = sc_nodes s"
    "thread_key (sc_thread s2' i) = (i, c, stack_base = 0, base)" "new_stack s s2' (stack_base = 0) base"
    using stack_done [OF pg1 d1(2) st(2) s2'_def base] d1(3-5) st(2) by (auto simp: new_stack_def)
  have d3: "create_done i (thread_key (sc_thread s2' i)) s2' s3"
    using joinable_done [of i s2' joinable] unfolding st(3) s2'_def .
  have d4: "create_done i (thread_key (sc_thread s2' i)) s2' s5"
    unfolding st(5)
    by (rule create_done_trans [OF create_done_trans [OF d3 bmk_cpu_sched_create_done(1) [OF st(4)]] init_tls_done])
  have n5: "sc_nodes s5 = sc_nodes s" using d4 d2(2) by (simp add: create_done_def)
  obtain nq where nq: "s6 = s5\<lparr>sc_nodes := nq\<rparr>" "lfring_wf BMK_MAX_BLOCKQ_ORDER nq"
    "length (nitems s5) = Suc (length (lfring_list BMK_MAX_BLOCKQ_ORDER nq))"
    by (rule node_alloc_done [OF _ st(6)]) (use nw n5 in simp_all)
  have key: "thread_key (sc_thread s7 i) = (i, c, stack_base = 0, base)"
    using d4 d2(3) unfolding st(7) nq(1) by (simp add: create_done_def thread_key_def)
  show thesis
  proof (rule that [OF st(9)])
    show "new_frame i (s\<lparr>sc_freeq := q\<rparr>) s7"
      using d1(1) d2(1) d4 unfolding st(7) nq(1) s0_def by (simp add: create_done_def new_frame_def)
    show "new_stack s s7 (stack_base = 0) base"
      using d4 d2(4) unfolding st(7) nq(1) by (simp add: create_done_def new_stack_def)
    show "(if ins then run_enqueue (create_cpu s cpuidx) i s7 else Inr s7) = Inr s'"
      using st(8) key by (cases ins) (simp_all add: thread_key_def c_def)
  qed (use key nq n5 st(7) in \<open>simp_all add: c_def\<close>)
qed

lemma create_some:
  assumes "sched_wf s" "titems (sc_freeq s) = i # xs"
    "do_sched_create_withtls bouncer name cookie joinable cpuidx f data stack_base stack_size tls True s = Inr (r, s')"
  shows "r = Some i \<and> sched_wf s' \<and> slots s' = slots s \<and> stack_mem s' = stack_mem s \<and> sc_idle s' = sc_idle s \<and>
    sc_numcpus s' = sc_numcpus s \<and> length (nitems s) = Suc (length (nitems s')) \<and>
    runq_items s' = (runq_items s)(create_cpu s cpuidx := runq_items s (create_cpu s cpuidx) @ [i])"
proof -
  have tw: "twf (sc_freeq s)" using sched_wfD(1) [OF assms(1)] by (simp_all add: rings_ok_def)
  obtain x q where x: "thread_deq (sc_freeq s) = Inr (x, q)" "x \<noteq> LFRING_EMPTY" "unat x = i" "twf q" "titems q = xs"
    by (rule thread_deq_Cons [OF tw assms(2)])
  define c where "c = create_cpu s cpuidx"
  obtain S base where S: "r = Some i" "(if True then run_enqueue c i S else Inr S) = Inr s'"
    "new_frame i (s\<lparr>sc_freeq := q\<rparr>) S" "thread_key (sc_thread S i) = (i, c, stack_base = 0, base)"
    "new_stack s S (stack_base = 0) base" "lfring_wf BMK_MAX_BLOCKQ_ORDER (sc_nodes S)"
    "length (nitems s) = Suc (length (nitems S))"
    by (rule create_prepared [OF assms(1) x(4) assms(3) x(1-3), folded c_def]) (rule that)
  have "sc_runq S c \<noteq> None" using S(2) by (auto simp: run_enqueue_def split: option.splits)
  then have rq: "sc_runq s c \<noteq> None" "sc_runq S = sc_runq s" using new_frameD(3) [OF S(3)] by simp_all
  note new = wf_new_thread [OF assms(1,2) x(4,5) S(3,4) rq(1) S(6,5)]
  have i: "i < BMK_MAX_THREADS" using new(4) by (simp add: live_def)
  obtain q' where q': "run_enqueue c i S = Inr (S\<lparr>sc_runq := (sc_runq S)(c := Some q')\<rparr>)"
    "sched_wf (S\<lparr>sc_runq := (sc_runq S)(c := Some q')\<rparr>)" "titems q' = runq_items S c @ [i]"
    "slots (S\<lparr>sc_runq := (sc_runq S)(c := Some q')\<rparr>) = add_mset i (slots S)"
    by (rule run_enqueue_ok [OF new(1) _ i new(2), of c]) (use rq in simp_all)
  have "s' = S\<lparr>sc_runq := (sc_runq S)(c := Some q')\<rparr>" using S(2) q'(1) by simp
  moreover have "stack_mem (S\<lparr>sc_runq := (sc_runq S)(c := Some q')\<rparr>) = stack_mem S"
    by (simp add: stack_mem_def)
  ultimately show ?thesis
    using q' new(3,5) S(1,7) rq(2) new_frameD(1,8) [OF S(3)] by (simp add: c_def)
qed

section \<open>The scheduler as a transition system\<close>

text \<open>
  The ways a running thread gives up its CPU: it yields, blocks until somebody wakes it, sleeps until a
  deadline, or exits. The wake-up function of a sleeping thread is \<^verbatim>\<open>bmk_sched_wake\<close>.
\<close>

datatype sched_op = Yield | Block | Sleep int | Exit

abbreviation "wk \<equiv> (\<lambda>_ :: nat. bmk_sched_wake)"

fun sched_call :: "sched_op \<Rightarrow> nat \<Rightarrow> int list \<Rightarrow> sched \<Rightarrow> sched res" where
  "sched_call Yield cpu clk s = bmk_sched_yield wk cpu clk s"
| "sched_call Block cpu clk s = bmk_sched_block wk cpu clk (Some (\<lambda>_ s. Inr s)) (bmk_sched_blockprepare cpu s)"
| "sched_call (Sleep deadline) cpu clk s =
     bmk_sched_block wk cpu clk (Some bmk_insert_timeq) (bmk_sched_blockprepare_timeout cpu deadline 0 s)"
| "sched_call Exit cpu clk s = exit_schedule wk cpu clk s"

definition op_ok :: "sched_op \<Rightarrow> bool" where
  "op_ok op \<longleftrightarrow> op \<noteq> Sleep BMK_SCHED_BLOCK_INFTIME"

lemma wf_running:
  assumes "sched_wf s" "sc_idle s cpu = Some idle" "bt_idx (f (sc_thread s (sc_current s cpu))) = bt_idx (sc_thread s (sc_current s cpu))"
    "bt_cpuidx (f (sc_thread s (sc_current s cpu))) = bt_cpuidx (sc_thread s (sc_current s cpu))"
    "bt_flags (f (sc_thread s (sc_current s cpu))) = bt_flags (sc_thread s (sc_current s cpu))"
    "bt_stackbase (f (sc_thread s (sc_current s cpu))) = bt_stackbase (sc_thread s (sc_current s cpu))"
  shows "sched_wf (upd_thread (sc_current s cpu) f s)" "keeps s (upd_thread (sc_current s cpu) f s)"
proof -
  have "sc_current s cpu \<in> set (cpu_items s cpu)" using assms(2) by (simp add: cpu_list_def)
  then have "\<forall>c. sc_current s cpu \<notin> set (sc_timeq s c)"
    using running_not_queued [OF assms(1) started_cpu(2) [OF assms(1,2)]] by blast
  then show "sched_wf (upd_thread (sc_current s cpu) f s)"
    by (intro wf_thread [OF assms(1)] assms(3-6))
  have own: "own_stack (upd_thread (sc_current s cpu) f s) = own_stack s"
    using assms(5) by (auto simp: own_stack_def fun_eq_iff)
  have st: "bt_stackbase (sc_thread (upd_thread (sc_current s cpu) f s) u) = bt_stackbase (sc_thread s u)" for u
    using assms(6) by simp
  show "keeps s (upd_thread (sc_current s cpu) f s)" unfolding keeps_def stack_mem_def own st by simp
qed

text \<open>Each operation is \<^verbatim>\<open>schedule\<close> with its callback, after a change of the running thread's entry.\<close>

lemma sched_call_cases:
  assumes "sched_wf s" "sc_idle s cpu = Some idle" "sc_current s cpu \<noteq> idle" "op_ok op"
  obtains (sw) cb ready stays s0 where "\<And>clk. sched_call op cpu clk s = schedule wk cpu clk (Some cb) s0"
    "switch_callback wk cb ready stays" "sched_wf s0" "keeps s s0" "sc_current s0 = sc_current s" "sc_idle s0 = sc_idle s"
    "slots s0 = slots s" "sc_runq s0 = sc_runq s" "ready (sc_thread s0 (sc_current s cpu))"
    "stays (sc_current s cpu) = (if op = Block then {#} else {#sc_current s cpu#})"
proof (cases op)
  case Yield
  show thesis
    by (rule sw [of yield_callback s "\<lambda>_. True" "\<lambda>t. {#t#}"])
      (use Yield assms(1) yielding.switch_callback_axioms in \<open>simp_all add: bmk_sched_yield_def keeps_def\<close>)
next
  case Exit
  show thesis
    by (rule sw [of exit_callback s "\<lambda>_. True" "\<lambda>t. {#t#}"])
      (use Exit assms(1) exiting.switch_callback_axioms in \<open>simp_all add: exit_schedule_def keeps_def\<close>)
next
  case Block
  note wf = wf_running [OF assms(1,2), of "\<lambda>t. t\<lparr>bt_wakeup_time := BMK_SCHED_BLOCK_INFTIME, bt_timedout := 0\<rparr>"]
  show thesis
    by (rule sw [of "\<lambda>_ s. Inr s" "upd_thread (sc_current s cpu)
          (\<lambda>t. t\<lparr>bt_wakeup_time := BMK_SCHED_BLOCK_INFTIME, bt_timedout := 0\<rparr>) s" "\<lambda>_. True" "\<lambda>_. {#}"])
      (use Block blocking.switch_callback_axioms wf in \<open>simp_all add: bmk_sched_block_def bmk_sched_blockprepare_def\<close>)
next
  case (Sleep d)
  note wf = wf_running [OF assms(1,2), of "\<lambda>t. t\<lparr>bt_wakeup_time := d, bt_wake := 0, bt_timedout := 0\<rparr>"]
  show thesis
    by (rule sw [of bmk_insert_timeq "upd_thread (sc_current s cpu)
          (\<lambda>t. t\<lparr>bt_wakeup_time := d, bt_wake := 0, bt_timedout := 0\<rparr>) s"
          "\<lambda>t. bt_wakeup_time t \<noteq> BMK_SCHED_BLOCK_INFTIME \<and> bt_timedout t = 0" "\<lambda>t. {#t#}"])
      (use Sleep assms(4) sleeping.switch_callback_axioms wf in
        \<open>simp_all add: op_ok_def bmk_sched_block_def bmk_sched_blockprepare_timeout_def\<close>)
qed

lemma sched_call_ok:
  assumes "sched_wf s" "sc_idle s cpu = Some idle" "sc_current s cpu \<noteq> idle" "op_ok op" "clk \<noteq> []"
  shows "\<exists>s'. sched_call op cpu clk s = Inr s' \<and> sched_wf s' \<and> keeps s s' \<and>
    slots s = slots s' + (if op = Block then {#sc_current s cpu#} else {#})"
proof (rule sched_call_cases [OF assms(1-4)])
  fix cb ready stays s0
  assume h: "\<And>clk. sched_call op cpu clk s = schedule wk cpu clk (Some cb) s0"
    "switch_callback wk cb ready stays" "sched_wf s0" "keeps s s0" "sc_current s0 = sc_current s" "sc_idle s0 = sc_idle s"
    "slots s0 = slots s" "sc_runq s0 = sc_runq s" "ready (sc_thread s0 (sc_current s cpu))"
    "stays (sc_current s cpu) = (if op = Block then {#} else {#sc_current s cpu#})"
  have "\<exists>s'. schedule wk cpu clk (Some cb) s0 = Inr s' \<and> sched_wf s' \<and> keeps s0 s' \<and>
      slots s' + {#sc_current s0 cpu#} = slots s0 + stays (sc_current s0 cpu)"
    by (rule switch_callback.schedule_ok [OF h(2,3)]) (use assms h in simp_all)
  then show ?thesis using h keeps_trans by (auto split: if_splits)
qed

lemma sched_call_head:
  assumes "sched_wf s" "sc_idle s cpu = Some idle" "sc_current s cpu \<noteq> idle" "op_ok op" "runq_items s cpu = t # ts"
  obtains s' ys where "sched_call op cpu clk s = Inr s'" "sched_wf s'" "sc_idle s' cpu = Some idle"
    "sc_current s' cpu = t" "runq_items s' cpu = ts @ ys"
proof (rule sched_call_cases [OF assms(1-4)])
  fix cb ready stays s0
  assume h: "\<And>clk. sched_call op cpu clk s = schedule wk cpu clk (Some cb) s0"
    "switch_callback wk cb ready stays" "sched_wf s0" "keeps s s0" "sc_current s0 = sc_current s" "sc_idle s0 = sc_idle s"
    "slots s0 = slots s" "sc_runq s0 = sc_runq s" "ready (sc_thread s0 (sc_current s cpu))"
    "stays (sc_current s cpu) = (if op = Block then {#} else {#sc_current s cpu#})"
  have p: "sc_idle s0 cpu = Some idle" "sc_current s0 cpu \<noteq> idle" "ready (sc_thread s0 (sc_current s0 cpu))"
    "runq_items s0 cpu = t # ts" using assms h by simp_all
  show thesis
    by (rule switch_callback.schedule_head [OF h(2,3) p])
      (rule that, use h assms(2) in \<open>auto simp: keeps_def\<close>)
qed

text \<open>
  The second component is the multiset of threads that block outside all queues; they are what
  \<^verbatim>\<open>bmk_sched_wake\<close> is for.
\<close>

inductive sched_step :: "sched \<times> nat multiset \<Rightarrow> sched \<times> nat multiset \<Rightarrow> bool" where
  step_call: "sc_idle s cpu = Some idle \<Longrightarrow> sc_current s cpu \<noteq> idle \<Longrightarrow> op_ok op \<Longrightarrow> clk \<noteq> [] \<Longrightarrow>
    sched_call op cpu clk s = Inr s' \<Longrightarrow>
    sched_step (s, B) (s', B + (if op = Block then {#sc_current s cpu#} else {#}))"
| step_idle: "sc_idle s cpu = Some (sc_current s cpu) \<Longrightarrow> schedule wk cpu clk None s = Inr s' \<Longrightarrow>
    sched_step (s, B) (s', B)"
| step_wake: "t \<in># B \<Longrightarrow> bmk_sched_wake t s = Inr s' \<Longrightarrow> sched_step (s, B) (s', B - {#t#})"
| step_wake_timeq: "t \<in> set (sc_timeq s c) \<Longrightarrow> bmk_sched_wake_timeq t s = Inr s' \<Longrightarrow> sched_step (s, B) (s', B)"
| step_create: "bmk_sched_create_withtls bouncer name cookie joinable cpuidx f data stack_base stack_size tls s = Inr (r, s') \<Longrightarrow>
    sched_step (s, B) (s', B)"

definition sched_inv :: "sched \<times> nat multiset \<Rightarrow> bool" where
  "sched_inv c \<longleftrightarrow> sched_wf (fst c) \<and> slots (fst c) + snd c = all_slots"

lemma blocked_thread:
  assumes "sched_inv (s, B)" "t \<in># B"
  shows "live s t" "t \<notin># slots s"
proof -
  have eq: "slots s + B = all_slots" using assms(1) by (simp add: sched_inv_def)
  have "count (slots s + B) t \<le> 1" unfolding eq by (simp add: all_slots_count)
  moreover have "0 < count B t" using assms(2) by simp
  ultimately have "count (slots s) t = 0" unfolding count_union by linarith
  then show n: "t \<notin># slots s" by (simp add: not_in_iff)
  have "t \<in># all_slots" using assms(2) unfolding eq [symmetric] by simp
  moreover have "t \<notin> set (titems (sc_freeq s))" using n places_sub(1) [of s] by (metis mset_subset_eqD set_mset_mset)
  ultimately show "live s t" by (simp add: live_def all_slots_def)
qed

lemma create_step_ok:
  assumes "sched_wf s"
    "bmk_sched_create_withtls bouncer name cookie joinable cpuidx f data stack_base stack_size tls s = Inr (r, s')"
  shows "sched_wf s' \<and> slots s' = slots s \<and> stack_mem s' = stack_mem s \<and>
    length (nitems s) = length (nitems s') + (if r = None then 0 else 1)"
proof (cases "titems (sc_freeq s)")
  case Nil
  then show ?thesis
    using create_none [OF assms(1) Nil assms(2) [unfolded bmk_sched_create_withtls_def]] by (simp add: keeps_def)
next
  case (Cons i xs)
  then show ?thesis
    using create_some [OF assms(1) Cons assms(2) [unfolded bmk_sched_create_withtls_def]] by simp
qed

lemma sched_invD:
  assumes "sched_inv (s, B)"
  shows "sched_wf s" "slots s + B = all_slots"
  using assms by (simp_all add: sched_inv_def)

lemma wake_timeq_keeps:
  assumes "bmk_sched_wake_timeq t s = Inr s'"
  shows "keeps s s'"
proof (cases "bt_timedout (sc_thread s t) = 0")
  case True
  then obtain s1 where "timeq_remove (bt_cpuidx (sc_thread s t)) t s = Inr s1" "bmk_sched_wake t s1 = Inr s'"
    using assms by (auto simp: bmk_sched_wake_timeq_def bindE_eq_Inr)
  then show ?thesis
    by (auto simp: timeq_remove_def bmk_sched_wake_def run_enqueue_def bindE_eq_Inr keeps_def stack_mem_def
        split: if_splits option.splits)
next
  case False
  then show ?thesis using assms by (simp add: bmk_sched_wake_timeq_def keeps_def)
qed

lemma sched_step_ok:
  assumes "sched_step c d" "sched_inv c"
  shows "sched_inv d \<and> stack_mem (fst d) = stack_mem (fst c) \<and> length (nitems (fst d)) \<le> length (nitems (fst c))"
  using assms
proof (induction rule: sched_step.induct)
  case (step_call s cpu idle op clk s' B)
  note wf = sched_invD [OF step_call.prems]
  obtain s2 where s2: "sched_call op cpu clk s = Inr s2" "sched_wf s2" "keeps s s2"
    "slots s = slots s2 + (if op = Block then {#sc_current s cpu#} else {#})"
    using sched_call_ok [OF wf(1) step_call.hyps(1-4)] by (elim exE conjE) (rule that)
  have "s2 = s'" using s2(1) step_call.hyps(5) by simp
  then show ?case using s2 wf(2) by (simp add: sched_inv_def keeps_def ac_simps)
next
  case (step_idle s cpu clk s' B)
  note wf = sched_invD [OF step_idle.prems]
  show ?case
    using idle_schedule_ok [OF wf(1) step_idle.hyps] wf(2) by (simp add: sched_inv_def keeps_def)
next
  case (step_wake t B s s')
  note t = blocked_thread [OF step_wake(3,1)] and wf = sched_invD [OF step_wake.prems]
  have tin: "t \<in># all_slots" using step_wake(1) unfolding wf(2) [symmetric] by simp
  show ?case
    by (rule bmk_sched_wake_ok [OF wf(1) t])
      (use step_wake(1,2) wf(2) tin in \<open>simp add: sched_inv_def stack_mem_def\<close>)
next
  case (step_wake_timeq t s c s' B)
  note wf = sched_invD [OF step_wake_timeq.prems]
  show ?case
    by (rule bmk_sched_wake_timeq_ok [OF wf(1) step_wake_timeq(1)])
      (use step_wake_timeq(2) wf(2) wake_timeq_keeps [OF step_wake_timeq(2)] in \<open>simp add: sched_inv_def keeps_def\<close>)
next
  case (step_create bouncer name cookie joinable cpuidx f data stack_base stack_size tls s r s' B)
  note wf = sched_invD [OF step_create.prems]
  show ?case using create_step_ok [OF wf(1) step_create.hyps] wf(2) by (simp add: sched_inv_def)
qed

end
