(* ===== verification/Sched_Safety.thy ===== *)
theory Sched_Safety
  imports Sched_Correct
begin

text \<open>
  The scheduler's start establishes the invariant, a concrete state satisfies it, and the properties
  of the scheduler.
\<close>

section \<open>Start\<close>

definition halts_or :: "('a \<Rightarrow> bool) \<Rightarrow> 'a res \<Rightarrow> bool" where
  "halts_or P r \<longleftrightarrow> (case r of Inl e \<Rightarrow> (\<exists>msg. e = Halt msg) | Inr x \<Rightarrow> P x)"

lemma halts_or_bind: "halts_or P r \<Longrightarrow> (\<And>x. P x \<Longrightarrow> halts_or Q (f x)) \<Longrightarrow> halts_or Q (bindE r f)"
  by (cases r) (simp_all add: halts_or_def)

lemma bindE_assoc: "bindE (bindE m f) g = bindE m (\<lambda>x. bindE (f x) g)"
  by (cases m) simp_all

lemma halts_or_simps [simp]: "halts_or P (Inr x) = P x" "halts_or P (Inl (Halt msg))"
  by (simp_all add: halts_or_def)

definition mem_ok :: "sched \<Rightarrow> bool" where
  "mem_ok s \<longleftrightarrow> (\<exists>live. ma_wf (sc_mem s) live)"

lemma mem_ok_pages: "mem_ok s \<Longrightarrow> pg_wf (spages s)"
  by (auto simp: mem_ok_def dest: ma_wfD(1) ma_cellsD(1))

lemma alloc_or_halt_ok:
  assumes "mem_ok s" "request_ok sz align"
  shows "halts_or (\<lambda>(a, s'). \<exists>m. s' = s\<lparr>sc_mem := m\<rparr> \<and> mem_ok s') (alloc_or_halt msg sz align s)"
proof -
  obtain live where wf: "ma_wf (sc_mem s) live" using assms(1) by (auto simp: mem_ok_def)
  obtain r t where "bmk_memalloc sz align BMK_MEMWHO_WIREDBMK (sc_mem s) = Inr (r, t)"
    "\<And>p. r = Some p \<Longrightarrow> \<exists>l. ma_wf t l"
    using bmk_memalloc_ok [OF wf assms(2), of BMK_MEMWHO_WIREDBMK] by fastforce
  then show ?thesis by (cases r) (auto simp: alloc_or_halt_def mem_ok_def)
qed

lemma init_requests:
  "request_ok (sizeof_node * BMK_MAX_BLOCKQ) BMK_PCPU_L1_SIZE" "request_ok (sizeof_thread * BMK_MAX_THREADS) BMK_PCPU_L1_SIZE"
  "request_ok (LFRING_SIZE BMK_MAX_THREADS_ORDER) LFRING_ALIGN" "request_ok (LFRING_SIZE BMK_MAX_BLOCKQ_ORDER) LFRING_ALIGN"
  by (simp_all add: request_ok_def effective_align_def MINALIGN_def sizeof_node_def sizeof_thread_def BMK_MAX_BLOCKQ_def
      BMK_MAX_THREADS_def BMK_MAX_BLOCKQ_ORDER_def BMK_MAX_THREADS_ORDER_def LFRING_SIZE_def LFRING_ALIGN_def BMK_PCPU_L1_SIZE_def)

text \<open>The fields that the start relies on and that it does not change itself.\<close>

definition init_frame :: "sched \<Rightarrow> sched \<Rightarrow> bool" where
  "init_frame s s' \<longleftrightarrow> mem_ok s' \<and> sc_numcpus s' = sc_numcpus s \<and> sc_stackpageorder s' = sc_stackpageorder s \<and>
     sc_idle s' = sc_idle s \<and> sc_timeq s' = (\<lambda>_. [])"

lemma init_runqs_ok:
  assumes "mem_ok s"
  shows "halts_or (\<lambda>s'. init_frame (s\<lparr>sc_timeq := \<lambda>_. []\<rparr>) (s'\<lparr>sc_timeq := \<lambda>_. []\<rparr>) \<and> sc_timeq s' = sc_timeq s \<and>
      sc_freeq s' = sc_freeq s \<and>
      sc_runq s' = (\<lambda>c. if i \<le> c \<and> c < i + n then Some (lfring_init_empty raw BMK_MAX_THREADS_ORDER) else sc_runq s c))
    (init_runqs raw i n s)"
  using assms
proof (induction n arbitrary: i s)
  case 0
  then show ?case by (auto simp: init_frame_def mem_ok_def fun_eq_iff)
next
  case (Suc n)
  show ?case
    unfolding init_runqs.simps
  proof (rule halts_or_bind [OF alloc_or_halt_ok [OF Suc.prems init_requests(3)]], clarify)
    fix a m
    assume ok: "mem_ok (s\<lparr>sc_mem := m\<rparr>)"
    define s1 where "s1 = s\<lparr>sc_mem := m, sc_runq := (sc_runq s)(i := Some (lfring_init_empty raw BMK_MAX_THREADS_ORDER))\<rparr>"
    have ok1: "mem_ok s1" using ok by (simp add: mem_ok_def s1_def)
    have rq: "(\<lambda>c. if i + 1 \<le> c \<and> c < i + 1 + n then Some (lfring_init_empty raw BMK_MAX_THREADS_ORDER) else sc_runq s1 c) =
      (\<lambda>c. if i \<le> c \<and> c < i + Suc n then Some (lfring_init_empty raw BMK_MAX_THREADS_ORDER) else sc_runq s c)"
      by (auto simp: s1_def fun_eq_iff)
    show "halts_or (\<lambda>s'. init_frame (s\<lparr>sc_timeq := \<lambda>_. []\<rparr>) (s'\<lparr>sc_timeq := \<lambda>_. []\<rparr>) \<and> sc_timeq s' = sc_timeq s \<and>
        sc_freeq s' = sc_freeq s \<and>
        sc_runq s' = (\<lambda>c. if i \<le> c \<and> c < i + Suc n then Some (lfring_init_empty raw BMK_MAX_THREADS_ORDER) else sc_runq s c))
      (init_runqs raw (i + 1) n (s\<lparr>sc_mem := m, sc_runq := (sc_runq (s\<lparr>sc_mem := m\<rparr>))
         (i := Some (lfring_init_empty raw BMK_MAX_THREADS_ORDER))\<rparr>))"
      using Suc.IH [OF ok1, of "i + 1"] unfolding rq
      by (simp add: halts_or_def s1_def init_frame_def split: sum.splits)
  qed
qed

text \<open>A state in which all slots are free is well formed.\<close>

lemma titems_init:
  assumes "length (lf_array raw) = 2 ^ Suc BMK_MAX_THREADS_ORDER"
  shows "twf (lfring_init_full raw BMK_MAX_THREADS_ORDER)" "twf (lfring_init_empty raw BMK_MAX_THREADS_ORDER)"
    "titems (lfring_init_empty raw BMK_MAX_THREADS_ORDER) = []"
    "mset (titems (lfring_init_full raw BMK_MAX_THREADS_ORDER)) = all_slots"
proof -
  note full = lfring_init_full_refines [OF program_orders(2) assms]
  note empty = lfring_init_empty_refines [OF program_orders(2) assms]
  show "twf (lfring_init_full raw BMK_MAX_THREADS_ORDER)" "twf (lfring_init_empty raw BMK_MAX_THREADS_ORDER)"
    "titems (lfring_init_empty raw BMK_MAX_THREADS_ORDER) = []"
    using full empty by (simp_all add: titems_def)
  have "distinct (titems (lfring_init_full raw BMK_MAX_THREADS_ORDER))"
    using full_entries_distinct [OF program_orders(2)] by (simp add: titems_def full distinct_map inj_on_def word_unat_eq_iff)
  moreover have "set (titems (lfring_init_full raw BMK_MAX_THREADS_ORDER)) = {..<BMK_MAX_THREADS}"
  proof -
    have "unat ` {x :: u64. unat x < BMK_MAX_THREADS} = {..<BMK_MAX_THREADS}"
    proof (intro equalityI subsetI)
      fix i assume "i \<in> {..<BMK_MAX_THREADS}"
      then show "i \<in> unat ` {x :: u64. unat x < BMK_MAX_THREADS}"
        using slot_valid(2) [of i] by (intro image_eqI [of _ _ "word_of_nat i"]) simp_all
    qed auto
    then show ?thesis
      using full_entries_set [OF program_orders(2)] by (simp add: titems_def full BMK_MAX_THREADS_def)
  qed
  ultimately show "mset (titems (lfring_init_full raw BMK_MAX_THREADS_ORDER)) = all_slots"
    by (metis all_slots_def mset_set_set)
qed

lemma all_free_wf:
  assumes "mset (titems (sc_freeq s)) = all_slots" "twf (sc_freeq s)" "twf (sc_zombieq s)" "titems (sc_zombieq s) = []"
    "\<And>c q. sc_runq s c = Some q \<Longrightarrow> twf q \<and> titems q = []" "lfring_wf BMK_MAX_BLOCKQ_ORDER (sc_nodes s)" "cpus_ok s"
    "sc_timeq s = (\<lambda>_. [])" "sc_idle s = (\<lambda>_. None)" "pg_wf (spages s)" "sc_stackpageorder s < FREELIST_LEVELS"
  shows "sched_wf s" "slots s = all_slots"
proof -
  have "runq_items s c = []" for c using assms(5) by (auto simp: runq_list_def split: option.splits)
  then show sl: "slots s = all_slots"
    using assms(1,4,8,9) by (simp add: slots_def cpu_list_def)
  have "set (titems (sc_freeq s)) = {..<BMK_MAX_THREADS}"
    using assms(1) by (metis all_slots_def finite_lessThan finite_set_mset_mset_set set_mset_mset)
  then have dead: "\<not> live s t" for t by (auto simp: live_def)
  then show "sched_wf s"
    using assms sl by (intro sched_wfI) (auto simp: wf_parts own_stack_def)
qed

text \<open>
  What is known before \<^verbatim>\<open>bmk_sched_init\<close> runs: the memory allocator is set up, no CPU has been started, and
  the tables of queues have no entries beyond their bounds.
\<close>

definition before_init :: "sched \<Rightarrow> bool" where
  "before_init s \<longleftrightarrow> mem_ok s \<and> 0 < sc_numcpus s \<and> sc_idle s = (\<lambda>_. None) \<and> sc_stackpageorder s < FREELIST_LEVELS \<and>
     (\<forall>c>MAXCPUS. sc_runq s c = None \<and> sc_timeq s c = [])"

definition init_ring_ok :: "lfring \<Rightarrow> lfring \<Rightarrow> bool" where
  "init_ring_ok raw rawn \<longleftrightarrow> length (lf_array raw) = 2 ^ Suc BMK_MAX_THREADS_ORDER \<and>
     length (lf_array rawn) = 2 ^ Suc BMK_MAX_BLOCKQ_ORDER"

text \<open>The rings a well-formed start has.\<close>

definition init_state :: "lfring \<Rightarrow> lfring \<Rightarrow> sched \<Rightarrow> bool" where
  "init_state raw rawn s \<longleftrightarrow> mem_ok s \<and> 0 < sc_numcpus s \<and> sc_numcpus s \<le> MAXCPUS \<and> sc_idle s = (\<lambda>_. None) \<and>
     sc_stackpageorder s < FREELIST_LEVELS \<and> sc_timeq s = (\<lambda>_. []) \<and>
     sc_freeq s = lfring_init_full raw BMK_MAX_THREADS_ORDER \<and>
     sc_runq s = (\<lambda>c. if c < sc_numcpus s \<or> c = MAXCPUS \<and> sc_numcpus s \<noteq> 1
       then Some (lfring_init_empty raw BMK_MAX_THREADS_ORDER) else None)"

lemma init_state_wf:
  assumes "init_ring_ok raw rawn" "init_state raw rawn s"
    "s' = s\<lparr>sc_zombieq := lfring_init_empty raw BMK_MAX_THREADS_ORDER, sc_mem := m,
       sc_nodes := lfring_init_full rawn BMK_MAX_BLOCKQ_ORDER, sc_curoff := curoff\<rparr>" "mem_ok s'"
  shows "sched_wf s'" "slots s' = all_slots"
proof -
  note ring = titems_init [of raw] lfring_init_full_refines(1) [OF program_orders(3), of rawn]
  have "mset (titems (sc_freeq s')) = all_slots" "twf (sc_freeq s')" "twf (sc_zombieq s')" "titems (sc_zombieq s') = []"
    "\<And>c q. sc_runq s' c = Some q \<Longrightarrow> twf q \<and> titems q = []" "lfring_wf BMK_MAX_BLOCKQ_ORDER (sc_nodes s')" "cpus_ok s'"
    "sc_timeq s' = (\<lambda>_. [])" "sc_idle s' = (\<lambda>_. None)" "pg_wf (spages s')" "sc_stackpageorder s' < FREELIST_LEVELS"
    using assms ring mem_ok_pages [OF assms(4)]
    by (auto simp: init_ring_ok_def init_state_def cpus_ok_def split: if_splits)
  note this = this
  show "sched_wf s'" "slots s' = all_slots" by (rule all_free_wf; fact)+
qed

lemma alloc_bind:
  assumes "mem_ok s" "request_ok sz align"
    "\<And>a m. mem_ok (s\<lparr>sc_mem := m\<rparr>) \<Longrightarrow> halts_or Q (f a (s\<lparr>sc_mem := m\<rparr>))"
  shows "halts_or Q (bindE (alloc_or_halt msg sz align s) (\<lambda>(a, s). f a s))"
  by (rule halts_or_bind [OF alloc_or_halt_ok [OF assms(1,2)]]) (use assms(3) in auto)

text \<open>The last two allocations.\<close>

lemma init_tail:
  assumes "init_ring_ok raw rawn" "init_state raw rawn s"
  shows "halts_or (\<lambda>s'. sched_wf s' \<and> slots s' = all_slots \<and> mset (titems (sc_freeq s')) = all_slots)
      (bindE (alloc_or_halt z (LFRING_SIZE BMK_MAX_THREADS_ORDER) LFRING_ALIGN s) (\<lambda>(_, s).
       bindE (alloc_or_halt y (LFRING_SIZE BMK_MAX_BLOCKQ_ORDER) LFRING_ALIGN
         (s\<lparr>sc_zombieq := lfring_init_empty raw BMK_MAX_THREADS_ORDER\<rparr>)) (\<lambda>(_, s).
       Inr (s\<lparr>sc_nodes := lfring_init_full rawn BMK_MAX_BLOCKQ_ORDER, sc_curoff := curoff\<rparr>))))"
proof -
  have ok: "mem_ok s" using assms(2) by (simp add: init_state_def)
  have fr: "mset (titems (sc_freeq s)) = all_slots"
    using assms titems_init(4) [of raw] by (simp add: init_ring_ok_def init_state_def)
  show ?thesis
    by (intro alloc_bind init_requests ok) (auto simp: mem_ok_def fr intro!: init_state_wf(1,2) [OF assms refl])
qed

text \<open>The run queues.\<close>

lemma init_queues:
  assumes "mem_ok s" "0 < sc_numcpus s" "sc_numcpus s \<le> MAXCPUS" "sc_idle s = (\<lambda>_. None)" "sc_timeq s = (\<lambda>_. [])"
    "sc_stackpageorder s < FREELIST_LEVELS" "sc_runq s = (\<lambda>_. None)" "sc_freeq s = lfring_init_full raw BMK_MAX_THREADS_ORDER" "n = sc_numcpus s"
  shows "halts_or (init_state raw rawn)
     (bindE (init_runqs raw 0 n s) (\<lambda>s.
      if sc_numcpus s \<noteq> 1 then
        bindE (alloc_or_halt z (LFRING_SIZE BMK_MAX_THREADS_ORDER) LFRING_ALIGN s)
          (\<lambda>(_, s). Inr (s\<lparr>sc_runq := (sc_runq s)(MAXCPUS := Some (lfring_init_empty raw BMK_MAX_THREADS_ORDER))\<rparr>))
      else Inr s))"
  unfolding assms(9)
proof (rule halts_or_bind [OF init_runqs_ok [OF assms(1)]])
  fix s1
  assume "init_frame (s\<lparr>sc_timeq := \<lambda>_. []\<rparr>) (s1\<lparr>sc_timeq := \<lambda>_. []\<rparr>) \<and> sc_timeq s1 = sc_timeq s \<and>
    sc_freeq s1 = sc_freeq s \<and>
    sc_runq s1 = (\<lambda>c. if 0 \<le> c \<and> c < 0 + sc_numcpus s
      then Some (lfring_init_empty raw BMK_MAX_THREADS_ORDER) else sc_runq s c)"
  then have s1: "mem_ok s1" "sc_numcpus s1 = sc_numcpus s" "sc_idle s1 = (\<lambda>_. None)" "sc_timeq s1 = (\<lambda>_. [])"
    "sc_stackpageorder s1 < FREELIST_LEVELS" "sc_freeq s1 = lfring_init_full raw BMK_MAX_THREADS_ORDER"
    "sc_runq s1 = (\<lambda>c. if c < sc_numcpus s then Some (lfring_init_empty raw BMK_MAX_THREADS_ORDER) else None)"
    using assms by (auto simp: init_frame_def mem_ok_def)
  show "halts_or (init_state raw rawn)
     (if sc_numcpus s1 \<noteq> 1 then
        bindE (alloc_or_halt z (LFRING_SIZE BMK_MAX_THREADS_ORDER) LFRING_ALIGN s1)
          (\<lambda>(_, s). Inr (s\<lparr>sc_runq := (sc_runq s)(MAXCPUS := Some (lfring_init_empty raw BMK_MAX_THREADS_ORDER))\<rparr>))
      else Inr s1)"
  proof (cases "sc_numcpus s1 = 1")
    case True
    then show ?thesis using s1 assms(2,3) by (auto simp: init_state_def fun_eq_iff)
  next
    case False
    then show ?thesis
      unfolding if_P [OF False]
      by (intro alloc_bind init_requests s1(1)) (use s1 assms(2,3) in \<open>auto simp: init_state_def fun_eq_iff mem_ok_def\<close>)
  qed
qed

lemma bmk_sched_init_ok:
  assumes "before_init s" "init_ring_ok raw rawn"
  shows "halts_or (\<lambda>s'. sched_wf s' \<and> slots s' = all_slots \<and> mset (titems (sc_freeq s')) = all_slots) (bmk_sched_init raw rawn curoff s)"
proof (cases "MAXCPUS < sc_numcpus s")
  case True
  then show ?thesis by (simp add: bmk_sched_init_def)
next
  case False
  note b = assms(1) [unfolded before_init_def]
  define s0 where "s0 = s\<lparr>sc_timeq := (\<lambda>i. if i \<le> MAXCPUS then [] else sc_timeq s i),
    sc_runq := (\<lambda>i. if i \<le> MAXCPUS then None else sc_runq s i)\<rparr>"
  have s0: "mem_ok s0" "sc_timeq s0 = (\<lambda>_. [])" "sc_runq s0 = (\<lambda>_. None)" "sc_idle s0 = (\<lambda>_. None)"
    "sc_stackpageorder s0 < FREELIST_LEVELS" "0 < sc_numcpus s0" "sc_numcpus s0 \<le> MAXCPUS"
    using b False by (auto simp: s0_def mem_ok_def fun_eq_iff)
  show ?thesis
    unfolding bmk_sched_init_def Let_def s0_def [symmetric] if_not_P [OF False]
    apply (rule alloc_bind [OF s0(1) init_requests(1)])
    apply (rule alloc_bind [OF _ init_requests(2)], simp add: mem_ok_def)
    apply (rule alloc_bind [OF _ init_requests(3)], simp add: mem_ok_def)
    apply (subst bindE_assoc [symmetric])
    apply (rule halts_or_bind [OF init_queues init_tail [OF assms(2)]])
    using s0 by (simp_all add: mem_ok_def)
qed

section \<open>A concrete scheduler\<close>

text \<open>
  One CPU with its idle thread, a running thread and one thread in the run queue; all other slots are
  free. The threads run on stacks of their creators.
\<close>

definition raw_ring :: "nat \<Rightarrow> lfring" where
  "raw_ring order = \<lparr>lf_head = 0, lf_threshold = 0, lf_tail = 0, lf_array = replicate (2 ^ Suc order) 0\<rparr>"

definition demo_sched :: "lfring \<Rightarrow> lfring \<Rightarrow> lfring \<Rightarrow> nat \<Rightarrow> nat \<Rightarrow> sched" where
  "demo_sched free run ns idle cur =
     \<lparr>sc_numcpus = 1, sc_stackpageorder = 0, sc_stacksize = 4096,
      sc_thread = (\<lambda>t. thread_zero\<lparr>bt_idx := t, bt_flags := THR_EXTSTACK\<rparr>), sc_thread_base = 0,
      sc_node_object = (\<lambda>_. 0), sc_node_index = id, sc_runq = (\<lambda>_. None)(0 := Some run), sc_freeq = free,
      sc_zombieq = lfring_init_empty (raw_ring BMK_MAX_THREADS_ORDER) BMK_MAX_THREADS_ORDER, sc_nodes = ns,
      sc_timeq = (\<lambda>_. []), sc_current = (\<lambda>_. cur), sc_idle = (\<lambda>_. None)(0 := Some idle), sc_virgin = (\<lambda>_. False),
      sc_tdata = 0, sc_tdatasize = 0, sc_tbsssize = 0, sc_curoff = 0, sc_mainstack = (0, 0), sc_mem = ma_demo\<rparr>"

lemma demo_slots:
  assumes "idle \<noteq> cur"
  shows "slots (demo_sched free run ns idle cur) = mset (titems free) + mset (titems run) + {#cur, idle#}"
proof -
  have len: "length (lf_array (raw_ring BMK_MAX_THREADS_ORDER)) = 2 ^ Suc BMK_MAX_THREADS_ORDER" by (simp add: raw_ring_def)
  have "(\<Sum>c\<le>MAXCPUS. mset (runq_items (demo_sched free run ns idle cur) c)) =
      (\<Sum>c\<le>MAXCPUS. if c = 0 then mset (titems run) else {#})"
    by (intro sum.cong) (auto simp: demo_sched_def runq_list_def)
  moreover have "(\<Sum>c\<le>MAXCPUS. mset (cpu_items (demo_sched free run ns idle cur) c)) =
      (\<Sum>c\<le>MAXCPUS. if c = 0 then {#cur, idle#} else {#})"
    using assms by (intro sum.cong) (auto simp: demo_sched_def cpu_list_def)
  ultimately show ?thesis
    using titems_init(3) [OF len] by (simp add: slots_def) (simp add: demo_sched_def)
qed

lemma demo_rings:
  obtains free run idle cur t where "twf free" "twf run" "titems run = [t]" "idle \<noteq> cur"
    "mset (titems free) + mset (titems run) + {#cur, idle#} = all_slots"
proof -
  define full where "full = lfring_init_full (raw_ring BMK_MAX_THREADS_ORDER) BMK_MAX_THREADS_ORDER"
  have len: "length (lf_array (raw_ring BMK_MAX_THREADS_ORDER)) = 2 ^ Suc BMK_MAX_THREADS_ORDER" by (simp add: raw_ring_def)
  have full: "twf full" "mset (titems full) = all_slots" using titems_init [OF len] by (simp_all add: full_def)
  have "size (mset (titems full)) = BMK_MAX_THREADS" unfolding full(2) by (simp add: all_slots_def)
  then have "Suc (Suc (Suc 0)) \<le> length (titems full)" by (simp add: max_threads)
  then obtain a b c xs where l: "titems full = a # b # c # xs" unfolding Suc_le_length_iff by blast
  have "count (mset (titems full)) a \<le> 1" unfolding full(2) by (simp add: all_slots_count)
  then have ab: "a \<noteq> b" using l by auto
  have "c \<in># all_slots" using l unfolding full(2) [symmetric] by simp
  then have c: "c < BMK_MAX_THREADS" by (simp add: all_slots_def)
  obtain q1 where q1: "twf q1" "titems q1 = b # c # xs" by (rule thread_deq_Cons [OF full(1) l])
  obtain q2 where q2: "twf q2" "titems q2 = c # xs" by (rule thread_deq_Cons [OF q1])
  obtain q3 where q3: "twf q3" "titems q3 = xs" by (rule thread_deq_Cons [OF q2])
  obtain run where "twf run" "titems run = titems (lfring_init_empty (raw_ring BMK_MAX_THREADS_ORDER) BMK_MAX_THREADS_ORDER) @ [c]"
    by (rule thread_enq_ok [OF titems_init(2) [OF len] _ c]) (simp add: titems_init(3) [OF len] max_threads)
  then have run: "twf run" "titems run = [c]" by (simp_all add: titems_init(3) [OF len])
  have "mset (titems q3) + mset (titems run) + {#b, a#} = all_slots"
    unfolding full(2) [symmetric] l using q3(2) run(2) by simp
  then show thesis using that [OF q3(1) run ab] by simp
qed

lemma demo_inv:
  assumes "lfring_wf BMK_MAX_BLOCKQ_ORDER ns"
  obtains s idle t where "sched_inv (s, {#})" "sc_idle s 0 = Some idle" "sc_current s 0 \<noteq> idle" "runq_items s 0 = [t]"
    "sc_nodes s = ns"
proof -
  obtain free run idle cur t where d: "twf free" "twf run" "titems run = [t]" "idle \<noteq> cur"
    "mset (titems free) + mset (titems run) + {#cur, idle#} = all_slots" by (rule demo_rings)
  define s where "s = demo_sched free run ns idle cur"
  have len: "length (lf_array (raw_ring BMK_MAX_THREADS_ORDER)) = 2 ^ Suc BMK_MAX_THREADS_ORDER" by (simp add: raw_ring_def)
  have sl: "slots s = all_slots" unfolding s_def demo_slots [OF d(4)] by (rule d(5))
  have "rings_ok s" "cpus_ok s" "threads_ok s" "timeq_ok s"
    using d(1,2) assms titems_init(2) [OF len]
    by (auto simp: s_def demo_sched_def wf_parts thread_zero_def MAXCPUS_def split: if_splits)
  moreover have "stacks_ok s"
    using pg_demo_state(2) ma_demo_wf(3)
    by (simp add: s_def demo_sched_def stacks_ok_def own_stack_def thread_zero_def THR_EXTSTACK_def
        FREELIST_LEVELS_def BMK_PCPU_PAGE_SHIFT_def)
  ultimately have "sched_inv (s, {#})" using sl by (simp add: sched_inv_def sched_wf_def)
  then show thesis
    by (rule that) (use d in \<open>auto simp: s_def demo_sched_def runq_list_def\<close>)
qed

definition demo_nodes :: lfring where
  "demo_nodes = lfring_init_full (raw_ring BMK_MAX_BLOCKQ_ORDER) BMK_MAX_BLOCKQ_ORDER"

definition no_nodes :: lfring where
  "no_nodes = lfring_init_empty (raw_ring BMK_MAX_BLOCKQ_ORDER) BMK_MAX_BLOCKQ_ORDER"

lemma demo_nodes_wf:
  "lfring_wf BMK_MAX_BLOCKQ_ORDER demo_nodes" "lfring_wf BMK_MAX_BLOCKQ_ORDER no_nodes"
  "lfring_list BMK_MAX_BLOCKQ_ORDER no_nodes = []"
proof -
  have len: "length (lf_array (raw_ring BMK_MAX_BLOCKQ_ORDER)) = 2 ^ Suc BMK_MAX_BLOCKQ_ORDER" by (simp add: raw_ring_def)
  show "lfring_wf BMK_MAX_BLOCKQ_ORDER demo_nodes" "lfring_wf BMK_MAX_BLOCKQ_ORDER no_nodes"
    "lfring_list BMK_MAX_BLOCKQ_ORDER no_nodes = []"
    unfolding demo_nodes_def no_nodes_def
    using lfring_init_full_refines [OF program_orders(3) len] lfring_init_empty_refines [OF program_orders(3) len] by simp_all
qed

section \<open>Properties\<close>

lemma sched_steps_ok:
  assumes "sched_step\<^sup>*\<^sup>* c d" "sched_inv c"
  shows "sched_inv d \<and> stack_mem (fst d) = stack_mem (fst c) \<and> length (nitems (fst d)) \<le> length (nitems (fst c))"
  using assms by (induction rule: rtranclp_induct) (use sched_step_ok in fastforce)+

text \<open>
  C7. Whatever sequence of yields, blocks, sleeps, exits, wake-ups, timeouts and creations the CPUs go
  through, every thread slot stays in exactly one place (the free list, the list of exited threads, one
  run queue, one timeout queue, a CPU, or blocked outside all queues), and the pages are divided
  between the free ones and the stacks of threads not yet reaped, so that no slot and no stack is lost or handed
  out twice.
\<close>

theorem sched_slots_conserved:
  assumes "sched_step\<^sup>*\<^sup>* (s, B) (s', B')" "sched_inv (s, B)"
  shows "slots s' + B' = mset_set {..<BMK_MAX_THREADS} \<and> sched_wf s' \<and> stack_mem s' = stack_mem s"
  using sched_steps_ok [OF assms] by (simp add: sched_inv_def all_slots_def)

theorem sched_slots_conserved_witness:
  "\<exists>s s' B'. sched_step (s, {#}) (s', B') \<and> B' \<noteq> {#} \<and> slots s' + B' = mset_set {..<BMK_MAX_THREADS}"
proof -
  obtain s idle t where s: "sched_inv (s, {#})" "sc_idle s 0 = Some idle" "sc_current s 0 \<noteq> idle" "runq_items s 0 = [t]"
    by (rule demo_inv [OF demo_nodes_wf(1)])
  obtain s' where "sched_call Block 0 [0] s = Inr s'"
    using sched_call_ok [of s 0 idle Block "[0]"] s by (auto simp: sched_inv_def op_ok_def)
  then have st: "sched_step (s, {#}) (s', {#sc_current s 0#})"
    using step_call [OF s(2,3), of Block "[0]" s' "{#}"] by (simp add: op_ok_def)
  then have "sched_step\<^sup>*\<^sup>* (s, {#}) (s', {#sc_current s 0#})" by (rule r_into_rtranclp)
  from sched_slots_conserved [OF this s(1)] show ?thesis using st by (intro exI conjI) auto
qed

text \<open>
  C8. The scheduler's calls always return: a running thread that yields, blocks, sleeps or exits
  gets to the point where the CPU runs the next thread, and a wake-up of a blocked or sleeping
  thread completes. No ring overflows, no loop spins and no assertion fails, because the rings never
  have to hold more than the slots there are.
\<close>

theorem sched_calls_return:
  assumes "sched_inv (s, B)"
  shows "(\<forall>cpu idle op clk. sc_idle s cpu = Some idle \<and> sc_current s cpu \<noteq> idle \<and> op_ok op \<and> clk \<noteq> [] \<longrightarrow>
      (\<exists>s'. sched_call op cpu clk s = Inr s')) \<and>
    (\<forall>t. t \<in># B \<longrightarrow> (\<exists>s'. bmk_sched_wake t s = Inr s')) \<and>
    (\<forall>t c. t \<in> set (sc_timeq s c) \<longrightarrow> (\<exists>s'. bmk_sched_wake_timeq t s = Inr s')) \<and>
    (\<exists>s'. reaper s = Some (Inr s') \<and> titems (sc_zombieq s') = [])"
proof (intro conjI allI impI)
  note wf = sched_invD(1) [OF assms]
  show "\<exists>s'. sched_call op cpu clk s = Inr s'"
    if "sc_idle s cpu = Some idle \<and> sc_current s cpu \<noteq> idle \<and> op_ok op \<and> clk \<noteq> []" for cpu idle op clk
    using sched_call_ok [OF wf, of cpu idle op clk] that by blast
  show "\<exists>s'. bmk_sched_wake t s = Inr s'" if "t \<in># B" for t
    by (rule bmk_sched_wake_ok [OF wf blocked_thread [OF assms that]]) blast
  show "\<exists>s'. bmk_sched_wake_timeq t s = Inr s'" if "t \<in> set (sc_timeq s c)" for t c
    by (rule bmk_sched_wake_timeq_ok [OF wf that]) blast
  show "\<exists>s'. reaper s = Some (Inr s') \<and> titems (sc_zombieq s') = []" using reaper_ok [OF wf] by blast
qed

theorem sched_calls_return_witness:
  "\<exists>s s'. sched_inv (s, {#}) \<and> sched_call (Sleep 5) 0 [3] s = Inr s'"
proof -
  obtain s idle t where s: "sched_inv (s, {#})" "sc_idle s 0 = Some idle" "sc_current s 0 \<noteq> idle"
    by (rule demo_inv [OF demo_nodes_wf(1)])
  then show ?thesis
    using sched_calls_return [OF s(1), THEN conjunct1, rule_format, of 0 idle "Sleep 5" "[3]"]
    by (auto simp: op_ok_def BMK_SCHED_BLOCK_INFTIME_def)
qed

text \<open>One CPU that goes through several calls, each made by the thread running at that moment.\<close>

fun run_ops :: "nat \<Rightarrow> (sched_op \<times> int list) list \<Rightarrow> sched \<Rightarrow> sched res" where
  "run_ops cpu [] s = Inr s"
| "run_ops cpu ((op, clk) # ops) s = bindE (sched_call op cpu clk s) (run_ops cpu ops)"

lemma runq_not_idle:
  assumes "sched_wf s" "sc_idle s cpu = Some idle" "t \<in> set (runq_items s cpu)"
  shows "t \<noteq> idle"
proof
  assume eq: "t = idle"
  have c: "cpu \<le> MAXCPUS" using started_cpu [OF assms(1,2)] by blast
  have le: "f cpu \<subseteq># (\<Sum>i\<le>MAXCPUS. f i)" for f :: "nat \<Rightarrow> nat multiset"
    using c sum.remove [of "{..MAXCPUS}" cpu f] by simp
  have "X + Y \<subseteq># F + Z + R + T + C" if "X \<subseteq># R" "Y \<subseteq># C" for X Y F Z R T C :: "nat multiset"
  proof -
    have "X + Y \<subseteq># R + C" using that by (rule subset_mset.add_mono)
    also have "R + C \<subseteq># F + Z + R + T + C" by (simp add: subseteq_mset_def)
    finally show ?thesis .
  qed
  then have "mset (runq_items s cpu) + mset (cpu_items s cpu) \<subseteq># slots s"
    unfolding slots_def using le [of "\<lambda>i. mset (runq_items s i)"] le [of "\<lambda>i. mset (cpu_items s i)"] by simp
  then have "count (mset (runq_items s cpu)) t + count (mset (cpu_items s cpu)) t \<le> 1"
    using slots_distinct [OF assms(1)] by (metis count_union)
  moreover have "0 < count (mset (runq_items s cpu)) t" "0 < count (mset (cpu_items s cpu)) t"
    using assms(2,3) eq by (simp_all add: cpu_list_def)
  ultimately show False by linarith
qed

text \<open>
  C9. A runnable thread gets to run: the thread at position \<open>n\<close> of a CPU's run queue is the running one
  after the CPU has gone through \<open>n + 1\<close> calls of the scheduler, whatever those calls are and
  whatever the clock says, and all of them return.
\<close>

theorem sched_runs_eventually:
  assumes "sched_wf s" "sc_idle s cpu = Some idle" "sc_current s cpu \<noteq> idle" "n < length (runq_items s cpu)"
    "length ops = Suc n" "list_all (\<lambda>(op, clk). op_ok op) ops"
  shows "\<exists>s'. run_ops cpu ops s = Inr s' \<and> sc_current s' cpu = runq_items s cpu ! n"
  using assms
proof (induction n arbitrary: s ops)
  case (0 s ops)
  obtain t ts where q: "runq_items s cpu = t # ts" using 0(4) by (cases "runq_items s cpu") auto
  obtain op clk where ops: "ops = [(op, clk)]" "op_ok op" using 0(5,6) by (auto simp: length_Suc_conv)
  show ?case by (rule sched_call_head [OF 0(1-3) ops(2) q, of clk]) (simp add: ops q)
next
  case (Suc n s ops)
  obtain t ts where q: "runq_items s cpu = t # ts" using Suc.prems(4) by (cases "runq_items s cpu") auto
  obtain op clk rest where ops: "ops = (op, clk) # rest" "op_ok op" "length rest = Suc n"
    "list_all (\<lambda>(op, clk). op_ok op) rest" using Suc.prems(5,6) by (cases ops) auto
  obtain s' ys where s': "sched_call op cpu clk s = Inr s'" "sched_wf s'" "sc_idle s' cpu = Some idle"
    "sc_current s' cpu = t" "runq_items s' cpu = ts @ ys"
    by (rule sched_call_head [OF Suc.prems(1-3) ops(2) q])
  have "t \<noteq> idle" using runq_not_idle [OF Suc.prems(1,2)] q by simp
  then show ?case
    using Suc.IH [OF s'(2,3) _ _ ops(3,4)] s'(1,4,5) q ops(1) Suc.prems(4) by (simp add: nth_append)
qed

theorem sched_runs_eventually_witness:
  "\<exists>s t s'. runq_items s 0 = [t] \<and> run_ops 0 [(Block, [])] s = Inr s' \<and> sc_current s' 0 = t"
proof -
  obtain s idle t where s: "sched_inv (s, {#})" "sc_idle s 0 = Some idle" "sc_current s 0 \<noteq> idle" "runq_items s 0 = [t]"
    by (rule demo_inv [OF demo_nodes_wf(1)])
  then show ?thesis
    using sched_runs_eventually [OF sched_invD(1) [OF s(1)] s(2,3), of 0 "[(Block, [])]"] by (auto simp: op_ok_def)
qed

lemma sorted_split:
  fixes wt :: "'a \<Rightarrow> int"
  assumes "sorted (map wt xs)"
  shows "takeWhile (\<lambda>u. wt u \<le> k) xs = filter (\<lambda>u. wt u \<le> k) xs" "dropWhile (\<lambda>u. wt u \<le> k) xs = filter (\<lambda>u. k < wt u) xs"
proof -
  have "takeWhile (\<lambda>u. wt u \<le> k) xs = filter (\<lambda>u. wt u \<le> k) xs \<and> dropWhile (\<lambda>u. wt u \<le> k) xs = filter (\<lambda>u. k < wt u) xs"
    using assms
  proof (induction xs)
    case (Cons x xs)
    show ?case
    proof (cases "wt x \<le> k")
      case False
      then have "\<forall>y\<in>set xs. k < wt y" using Cons.prems by auto
      then have "filter (\<lambda>u. wt u \<le> k) xs = []" "filter (\<lambda>u. k < wt u) xs = xs" by (auto simp: filter_empty_conv)
      then show ?thesis using False by simp
    qed (use Cons in simp)
  qed simp
  then show "takeWhile (\<lambda>u. wt u \<le> k) xs = filter (\<lambda>u. wt u \<le> k) xs" "dropWhile (\<lambda>u. wt u \<le> k) xs = filter (\<lambda>u. k < wt u) xs"
    by simp_all
qed



text \<open>
  A thread put on a timeout queue goes behind all threads with a deadline that is not later and
  before all others, so that the queue stays sorted and threads with equal deadlines wake in the order they
  went to sleep; the thread is on the queue once, and the assertion on the last element holds.
\<close>

theorem insert_timeq_stable:
  assumes "bt_wakeup_time (sc_thread s t) \<noteq> BMK_SCHED_BLOCK_INFTIME"
    "c = bt_cpuidx (sc_thread s t)" "sorted (map (\<lambda>u. bt_wakeup_time (sc_thread s u)) (sc_timeq s c))"
  shows "\<exists>s'. bmk_insert_timeq t s = Inr s' \<and> sorted (map (\<lambda>u. bt_wakeup_time (sc_thread s u)) (sc_timeq s' c)) \<and>
    sc_timeq s' c = filter (\<lambda>u. bt_wakeup_time (sc_thread s u) \<le> bt_wakeup_time (sc_thread s t)) (sc_timeq s c) @
      t # filter (\<lambda>u. bt_wakeup_time (sc_thread s t) < bt_wakeup_time (sc_thread s u)) (sc_timeq s c) \<and>
    (\<forall>d. d \<noteq> c \<longrightarrow> sc_timeq s' d = sc_timeq s d)"
proof -
  define wt where "wt = (\<lambda>u. bt_wakeup_time (sc_thread s u))"
  have "timeq_place wt t (sc_timeq s c) =
      filter (\<lambda>u. wt u \<le> wt t) (sc_timeq s c) @ t # filter (\<lambda>u. wt t < wt u) (sc_timeq s c)"
    using sorted_split [OF assms(3) [folded wt_def]] by (simp add: timeq_place_def)
  then show ?thesis
    using bmk_insert_timeq_eq [OF assms(1)] timeq_place_sorted [OF assms(3) [folded wt_def], of t] assms(2)
    by (simp add: wt_def)
qed

theorem insert_timeq_stable_witness:
  "\<exists>s s'. bmk_insert_timeq 3 s = Inr s' \<and> sc_timeq s' 0 = [1, 2, 3, 4]"
proof -
  define s where "s = (demo_sched no_nodes no_nodes no_nodes 0 1)\<lparr>sc_timeq := (\<lambda>_. [1, 2, 4]),
    sc_thread := (\<lambda>t. thread_zero\<lparr>bt_wakeup_time := if t = 1 then 5 else if t < 4 then 7 else 9\<rparr>)\<rparr>"
  have f: "sc_thread s = (\<lambda>t. thread_zero\<lparr>bt_wakeup_time := if t = 1 then 5 else if t < 4 then 7 else 9\<rparr>)"
    "sc_timeq s = (\<lambda>_. [1, 2, 4])" by (simp_all add: s_def)
  have "bt_cpuidx (sc_thread s 3) = 0" by (simp add: f thread_zero_def)
  then show ?thesis
    using insert_timeq_stable [of s 3 0] by (auto simp: f BMK_SCHED_BLOCK_INFTIME_def)
qed





end
