(* ===== verification/Join.thy ===== *)
theory Join
  imports Prelude
begin

text \<open>
  The handshake of \<^verbatim>\<open>bmk_sched_join\<close> and \<^verbatim>\<open>bmk_sched_exit_withtls\<close> in \<^verbatim>\<open>lib/libbmk_core/sched.c\<close>,
  at the grain of single atomic instructions. The joining thread waits on \<^verbatim>\<open>bt_join\<close> and then posts
  \<^verbatim>\<open>bt_exit\<close>; the exiting thread posts \<^verbatim>\<open>bt_join\<close>, waits on \<^verbatim>\<open>bt_exit\<close> and disappears. A thread that blocks
  runs its callback only after it has left its CPU, and the other thread may act between any two
  instructions.
\<close>

section \<open>The atomic operations\<close>

text \<open>Each gives the new value of the variable and what the thread does next.\<close>

definition join_init :: u64 where
  "join_init = 1"

definition join_wait :: "u64 \<Rightarrow> u64 \<times> bool" where
  "join_wait value = (value - 1, value = 1)"

definition join_callback :: "u64 \<Rightarrow> u64 \<Rightarrow> u64 \<times> bool" where
  "join_callback prev value = (prev, value = 1)"

definition join_post :: "u64 \<Rightarrow> u64 \<times> u64 option" where
  "join_post value = (value + 1, if value > 1 then Some value else None)"

section \<open>The two threads\<close>

text \<open>
  \<open>WaitSwitch\<close>: has decided to block, the callback has not run yet. \<open>WaitOff\<close>: off the CPU. \<open>PostWake v\<close>: about
  to wake the thread at address \<open>v\<close>. The joining thread goes \<open>Wait\<close> then \<open>Post\<close>, the exiting thread
  the other way round.
\<close>

datatype join_pc = Wait | WaitSwitch | WaitOff | Post | PostWake u64 | Finished

record join_state =
  bt_join_value :: u64
  bt_exit_value :: u64
  joiner :: join_pc
  exiter :: join_pc
  joiner_wakes :: nat
  exiter_wakes :: nat

definition join_start :: join_state where
  "join_start = \<lparr>bt_join_value = join_init, bt_exit_value = join_init, joiner = Wait, exiter = Post,
     joiner_wakes = 0, exiter_wakes = 0\<rparr>"

text \<open>
  \<open>ja\<close> and \<open>ea\<close> are the addresses of the two threads. \<open>joiner_wakes\<close> and \<open>exiter_wakes\<close> count the entries of
  the thread in its run queue.
\<close>

inductive join_step :: "u64 \<Rightarrow> u64 \<Rightarrow> join_state \<Rightarrow> join_state \<Rightarrow> bool" for ja ea where
  j_wait: "joiner s = Wait \<Longrightarrow> join_wait (bt_join_value s) = (v, blocks) \<Longrightarrow>
    join_step ja ea s (s\<lparr>bt_join_value := v, joiner := (if blocks then WaitSwitch else Post)\<rparr>)"
| j_callback: "joiner s = WaitSwitch \<Longrightarrow> join_callback ja (bt_join_value s) = (v, wakes) \<Longrightarrow>
    join_step ja ea s (s\<lparr>bt_join_value := v, joiner := WaitOff,
      joiner_wakes := joiner_wakes s + (if wakes then 1 else 0)\<rparr>)"
| j_resume: "joiner s = WaitOff \<Longrightarrow> 0 < joiner_wakes s \<Longrightarrow>
    join_step ja ea s (s\<lparr>joiner := Post, joiner_wakes := joiner_wakes s - 1\<rparr>)"
| j_post: "joiner s = Post \<Longrightarrow> join_post (bt_exit_value s) = (v, w) \<Longrightarrow>
    join_step ja ea s (s\<lparr>bt_exit_value := v, joiner := (case w of None \<Rightarrow> Finished | Some t \<Rightarrow> PostWake t)\<rparr>)"
| j_wake: "joiner s = PostWake t \<Longrightarrow>
    join_step ja ea s (s\<lparr>joiner := Finished, exiter_wakes := exiter_wakes s + (if t = ea then 1 else 0)\<rparr>)"
| e_post: "exiter s = Post \<Longrightarrow> join_post (bt_join_value s) = (v, w) \<Longrightarrow>
    join_step ja ea s (s\<lparr>bt_join_value := v, exiter := (case w of None \<Rightarrow> Wait | Some t \<Rightarrow> PostWake t)\<rparr>)"
| e_wake: "exiter s = PostWake t \<Longrightarrow>
    join_step ja ea s (s\<lparr>exiter := Wait, joiner_wakes := joiner_wakes s + (if t = ja then 1 else 0)\<rparr>)"
| e_wait: "exiter s = Wait \<Longrightarrow> join_wait (bt_exit_value s) = (v, blocks) \<Longrightarrow>
    join_step ja ea s (s\<lparr>bt_exit_value := v, exiter := (if blocks then WaitSwitch else Finished)\<rparr>)"
| e_callback: "exiter s = WaitSwitch \<Longrightarrow> join_callback ea (bt_exit_value s) = (v, wakes) \<Longrightarrow>
    join_step ja ea s (s\<lparr>bt_exit_value := v, exiter := WaitOff,
      exiter_wakes := exiter_wakes s + (if wakes then 1 else 0)\<rparr>)"
| e_resume: "exiter s = WaitOff \<Longrightarrow> 0 < exiter_wakes s \<Longrightarrow>
    join_step ja ea s (s\<lparr>exiter := Finished, exiter_wakes := exiter_wakes s - 1\<rparr>)"

section \<open>Invariant\<close>

text \<open>How far the waiter and the poster of one variable are, with what the variable then holds.\<close>

datatype wait_phase = WBefore | WSwitch | WOff | WAfter
datatype post_phase = PBefore | PWaking u64 | PAfter

fun cell_inv :: "u64 \<Rightarrow> u64 \<Rightarrow> wait_phase \<Rightarrow> post_phase \<Rightarrow> nat \<Rightarrow> bool" where
  "cell_inv a v WBefore PBefore n \<longleftrightarrow> v = 1 \<and> n = 0"
| "cell_inv a v WBefore (PWaking t) n \<longleftrightarrow> False"
| "cell_inv a v WBefore PAfter n \<longleftrightarrow> v = 2 \<and> n = 0"
| "cell_inv a v WSwitch PBefore n \<longleftrightarrow> v = 0 \<and> n = 0"
| "cell_inv a v WSwitch (PWaking t) n \<longleftrightarrow> False"
| "cell_inv a v WSwitch PAfter n \<longleftrightarrow> v = 1 \<and> n = 0"
| "cell_inv a v WOff PBefore n \<longleftrightarrow> v = a \<and> n = 0"
| "cell_inv a v WOff (PWaking t) n \<longleftrightarrow> t = a \<and> n = 0"
| "cell_inv a v WOff PAfter n \<longleftrightarrow> n = 1"
| "cell_inv a v WAfter PBefore n \<longleftrightarrow> False"
| "cell_inv a v WAfter (PWaking t) n \<longleftrightarrow> False"
| "cell_inv a v WAfter PAfter n \<longleftrightarrow> n = 0"

fun joiner_wait :: "join_pc \<Rightarrow> wait_phase" where
  "joiner_wait Wait = WBefore" | "joiner_wait WaitSwitch = WSwitch" | "joiner_wait WaitOff = WOff"
| "joiner_wait Post = WAfter" | "joiner_wait (PostWake t) = WAfter" | "joiner_wait Finished = WAfter"

fun joiner_post :: "join_pc \<Rightarrow> post_phase" where
  "joiner_post Wait = PBefore" | "joiner_post WaitSwitch = PBefore" | "joiner_post WaitOff = PBefore"
| "joiner_post Post = PBefore" | "joiner_post (PostWake t) = PWaking t" | "joiner_post Finished = PAfter"

fun exiter_post :: "join_pc \<Rightarrow> post_phase" where
  "exiter_post Post = PBefore" | "exiter_post (PostWake t) = PWaking t" | "exiter_post Wait = PAfter"
| "exiter_post WaitSwitch = PAfter" | "exiter_post WaitOff = PAfter" | "exiter_post Finished = PAfter"

fun exiter_wait :: "join_pc \<Rightarrow> wait_phase" where
  "exiter_wait Post = WBefore" | "exiter_wait (PostWake t) = WBefore" | "exiter_wait Wait = WBefore"
| "exiter_wait WaitSwitch = WSwitch" | "exiter_wait WaitOff = WOff" | "exiter_wait Finished = WAfter"

definition join_inv :: "u64 \<Rightarrow> u64 \<Rightarrow> join_state \<Rightarrow> bool" where
  "join_inv ja ea s \<longleftrightarrow>
     cell_inv ja (bt_join_value s) (joiner_wait (joiner s)) (exiter_post (exiter s)) (joiner_wakes s) \<and>
     cell_inv ea (bt_exit_value s) (exiter_wait (exiter s)) (joiner_post (joiner s)) (exiter_wakes s)"

lemma cell_wait:
  assumes "cell_inv a v WBefore p n" "join_wait v = (v', blocks)"
  shows "cell_inv a v' (if blocks then WSwitch else WAfter) p n"
  using assms by (cases p) (auto simp: join_wait_def)

lemma cell_callback:
  assumes "cell_inv a v WSwitch p n" "join_callback a v = (v', wakes)"
  shows "cell_inv a v' WOff p (n + (if wakes then 1 else 0))"
  using assms by (cases p) (auto simp: join_callback_def)

lemma cell_resume: "cell_inv a v WOff p n \<Longrightarrow> 0 < n \<Longrightarrow> cell_inv a v WAfter p (n - 1)"
  by (cases p) auto

lemma cell_post:
  assumes "cell_inv a v w PBefore n" "join_post v = (v', r)" "1 < a"
  shows "cell_inv a v' w (case r of None \<Rightarrow> PAfter | Some t \<Rightarrow> PWaking t) n"
  using assms by (cases w) (auto simp: join_post_def)

lemma cell_wake: "cell_inv a v w (PWaking t) n \<Longrightarrow> cell_inv a v w PAfter (n + (if t = a then 1 else 0))"
  by (cases w) auto

lemma join_inv_step:
  assumes "join_step ja ea s s'" "join_inv ja ea s" "1 < ja" "1 < ea"
  shows "join_inv ja ea s'"
  using assms
proof (induction rule: join_step.induct)
  case (j_wait s v blocks)
  then show ?case using cell_wait [of ja "bt_join_value s" _ _ v blocks] by (auto simp: join_inv_def)
next
  case (j_callback s v wakes)
  then show ?case using cell_callback [of ja "bt_join_value s" _ _ v wakes] by (auto simp: join_inv_def)
next
  case (j_resume s)
  then show ?case using cell_resume [of ja] by (auto simp: join_inv_def)
next
  case (j_post s v w)
  then show ?case using cell_post [of ea "bt_exit_value s" _ _ v w] by (cases w) (auto simp: join_inv_def)
next
  case (j_wake s t)
  then show ?case using cell_wake [of ea "bt_exit_value s"] by (auto simp: join_inv_def)
next
  case (e_post s v w)
  then show ?case using cell_post [of ja "bt_join_value s" _ _ v w] by (cases w) (auto simp: join_inv_def)
next
  case (e_wake s t)
  then show ?case using cell_wake [of ja "bt_join_value s"] by (auto simp: join_inv_def)
next
  case (e_wait s v blocks)
  then show ?case using cell_wait [of ea "bt_exit_value s" _ _ v blocks] by (auto simp: join_inv_def)
next
  case (e_callback s v wakes)
  then show ?case using cell_callback [of ea "bt_exit_value s" _ _ v wakes] by (auto simp: join_inv_def)
next
  case (e_resume s)
  then show ?case using cell_resume [of ea] by (auto simp: join_inv_def)
qed

lemma join_inv_start: "join_inv ja ea join_start"
  by (simp add: join_inv_def join_start_def join_init_def)

lemma join_reach_inv:
  assumes "(join_step ja ea)\<^sup>*\<^sup>* join_start s" "1 < ja" "1 < ea"
  shows "join_inv ja ea s"
  using assms(1) by (induction rule: rtranclp_induct) (use join_inv_start join_inv_step assms(2,3) in blast)+

section \<open>Progress\<close>

text \<open>The number of instructions a thread has still to execute, at most.\<close>

fun joiner_left :: "join_pc \<Rightarrow> nat" where
  "joiner_left Wait = 5" | "joiner_left WaitSwitch = 4" | "joiner_left WaitOff = 3" | "joiner_left Post = 2"
| "joiner_left (PostWake t) = 1" | "joiner_left Finished = 0"

fun exiter_left :: "join_pc \<Rightarrow> nat" where
  "exiter_left Post = 5" | "exiter_left (PostWake t) = 4" | "exiter_left Wait = 3" | "exiter_left WaitSwitch = 2"
| "exiter_left WaitOff = 1" | "exiter_left Finished = 0"

definition join_left :: "join_state \<Rightarrow> nat" where
  "join_left s = joiner_left (joiner s) + exiter_left (exiter s)"

lemma join_step_decreases: "join_step ja ea s s' \<Longrightarrow> join_left s' < join_left s"
  by (induction rule: join_step.induct) (auto simp: join_left_def split: option.splits)

lemma join_progress:
  assumes "join_inv ja ea s" "joiner s \<noteq> Finished \<or> exiter s \<noteq> Finished"
  shows "\<exists>s'. join_step ja ea s s'"
proof -
  note steps = join_step.intros [of s]
  show ?thesis
  proof (cases "joiner s")
    case WaitOff
    show ?thesis
    proof (cases "exiter s")
      case Post
      then show ?thesis using steps(6) by (metis surj_pair)
    qed (use WaitOff assms(1) steps in \<open>auto simp: join_inv_def\<close>)
  next
    case Finished
    then show ?thesis
    proof (cases "exiter s")
      case WaitOff
      then show ?thesis using Finished assms(1) steps(10) by (auto simp: join_inv_def)
    next
      case WaitSwitch
      then show ?thesis using steps(9) by (metis surj_pair)
    next
      case Wait
      then show ?thesis using steps(8) by (metis surj_pair)
    qed (use Finished assms in \<open>auto simp: join_inv_def\<close>)
  next
    case Wait
    then show ?thesis using steps(1) by (metis surj_pair)
  next
    case WaitSwitch
    then show ?thesis using steps(2) by (metis surj_pair)
  next
    case Post
    then show ?thesis using steps(4) by (metis surj_pair)
  next
    case (PostWake t)
    then show ?thesis using steps(5) by blast
  qed
qed

section \<open>Properties\<close>

definition join_demo :: join_state where
  "join_demo = join_start\<lparr>bt_join_value := 0, joiner := WaitSwitch\<rparr>"

lemma join_demo_reach: "(join_step 128 256)\<^sup>*\<^sup>* join_start join_demo"
  using j_wait [of join_start 0 True 128 256]
  by (intro r_into_rtranclp) (simp add: join_demo_def join_start_def join_wait_def join_init_def)

text \<open>
  C14. Joining always succeeds: under every interleaving of the two threads' atomic instructions the
  handshake comes to its end after at most ten steps, and until then some thread can take a step, so that neither
  waits for ever. In the end both have finished and no wake-up is left over.
\<close>

theorem join_completes:
  assumes "(join_step ja ea)\<^sup>*\<^sup>* join_start s" "1 < ja" "1 < ea"
  shows "(\<forall>s'. join_step ja ea s s' \<longrightarrow> join_left s' < join_left s) \<and> join_left s \<le> 10 \<and>
    ((\<nexists>s'. join_step ja ea s s') \<longrightarrow>
       joiner s = Finished \<and> exiter s = Finished \<and> joiner_wakes s = 0 \<and> exiter_wakes s = 0)"
proof -
  have inv: "join_inv ja ea s" by (rule join_reach_inv [OF assms])
  have "join_left s \<le> 10" by (cases "joiner s"; cases "exiter s") (simp_all add: join_left_def)
  moreover have "joiner s = Finished \<and> exiter s = Finished" if "\<nexists>s'. join_step ja ea s s'"
    using join_progress [OF inv] that by blast
  moreover have "joiner_wakes s = 0 \<and> exiter_wakes s = 0" if "joiner s = Finished" "exiter s = Finished"
    using inv that by (simp add: join_inv_def)
  ultimately show ?thesis using join_step_decreases by blast
qed

theorem join_completes_witness:
  "\<exists>s. (join_step 128 256)\<^sup>*\<^sup>* join_start s \<and> joiner s = WaitSwitch \<and> join_left s \<le> 10"
  using join_completes [OF join_demo_reach] join_demo_reach
  by (intro exI [of _ join_demo]) (simp add: join_demo_def)

text \<open>
  C15. The handshake is safe: a thread is only ever woken after it has left its CPU and is then woken exactly
  once, the joining thread returns only after the other one has posted, and the exiting thread gives up its slot
  only after the joining thread's last access to it.
\<close>

theorem join_handshake_safe:
  assumes "(join_step ja ea)\<^sup>*\<^sup>* join_start s" "1 < ja" "1 < ea"
  shows "joiner_wakes s \<le> 1 \<and> exiter_wakes s \<le> 1 \<and> (0 < joiner_wakes s \<longrightarrow> joiner s = WaitOff) \<and>
    (0 < exiter_wakes s \<longrightarrow> exiter s = WaitOff) \<and>
    (joiner s = Finished \<longrightarrow> exiter s \<noteq> Post) \<and> (exiter s = Finished \<longrightarrow> joiner s = Finished)"
proof -
  have inv: "join_inv ja ea s" by (rule join_reach_inv [OF assms])
  then show ?thesis by (cases "joiner s"; cases "exiter s") (auto simp: join_inv_def)
qed

theorem join_handshake_safe_witness:
  "\<exists>s. (join_step 128 256)\<^sup>*\<^sup>* join_start s \<and> joiner s = WaitSwitch \<and> joiner_wakes s \<le> 1"
  using join_handshake_safe [OF join_demo_reach] join_demo_reach
  by (intro exI [of _ join_demo]) (simp add: join_demo_def)

end
