(* ===== verification/Lwp.thy ===== *)
theory Lwp
  imports Prelude
begin

text \<open>
  Parking and unparking of LWPs in \<^verbatim>\<open>lib/librumprun_base/_lwp.c\<close>, at the grain of atomic instructions and
  lock-protected sections, with the part of the scheduler they use: the timeout queue under its lock and the
  run queue. Any number of threads may unpark the LWP at any time.
\<close>

section \<open>Operations\<close>

definition RL_MASK_UNPARK :: u64 where "RL_MASK_UNPARK = 0x1"
definition RL_MASK_PARK :: u64 where "RL_MASK_PARK = 0x2"
definition EALREADY :: int where "EALREADY = 37"
definition ESRCH :: int where "ESRCH = 3"
definition ENODEV :: int where "ENODEV = 19"
definition MAXCOMLEN :: nat where "MAXCOMLEN = 16"

text \<open>The entry of an LWP in the list of all LWPs; the fields for the start of the thread are left out.\<close>

record rumprun_lwp =
  rl_value :: u64
  rl_wake_timeq :: bool
  rl_thread :: nat
  rl_lwpid :: int
  rl_name :: string
  lc_curcpu :: int
  lc_pctr :: nat

text \<open>The result is the index in the list of all LWPs, the main thread's entry being the first.\<close>

fun find_lwp :: "int \<Rightarrow> nat \<Rightarrow> rumprun_lwp list \<Rightarrow> nat option" where
  "find_lwp lid i [] = None"
| "find_lwp lid i (rl # rls) = (if rl_lwpid rl = lid then Some i else find_lwp lid (i + 1) rls)"

definition lwpid2rl :: "int \<Rightarrow> rumprun_lwp list \<Rightarrow> nat option" where
  "lwpid2rl lid all_lwp = (if lid = 0 then Some 0 else find_lwp lid 0 all_lwp)"

text \<open>
  The read-modify-write instructions: the new value, and whether the caller goes on to wake the thread
  (for \<^verbatim>\<open>_lwp_park\<close>: whether it returns at once).
\<close>

definition park_enter :: "u64 \<Rightarrow> u64 \<times> bool" where
  "park_enter value = (RL_MASK_PARK, value = RL_MASK_UNPARK)"

definition park_callback_xor :: "u64 \<Rightarrow> u64 \<times> bool" where
  "park_callback_xor value = (value XOR RL_MASK_PARK, value \<noteq> RL_MASK_PARK)"

definition unpark_exchange :: "u64 \<Rightarrow> u64 \<times> bool" where
  "unpark_exchange value = (RL_MASK_UNPARK, value = 0)"

definition wakeup_cas :: "u64 \<Rightarrow> u64 \<times> bool" where
  "wakeup_cas value = (if value = 0 then (RL_MASK_UNPARK, True) else (value, False))"

text \<open>The calls as a whole; the thread to wake is the last component.\<close>

definition lwp_unpark :: "int \<Rightarrow> rumprun_lwp list \<Rightarrow> int \<times> rumprun_lwp list \<times> nat option" where
  "lwp_unpark lid all_lwp =
     (case lwpid2rl lid all_lwp of
        None \<Rightarrow> (- 1, all_lwp, None)
      | Some i \<Rightarrow>
          let (v, wakes) = unpark_exchange (rl_value (all_lwp ! i)) in
          (0, all_lwp[i := (all_lwp ! i)\<lparr>rl_value := v\<rparr>], if wakes then Some (rl_thread (all_lwp ! i)) else None))"

definition lwp_wakeup :: "int \<Rightarrow> rumprun_lwp list \<Rightarrow> int \<times> rumprun_lwp list \<times> nat option" where
  "lwp_wakeup lid all_lwp =
     (case lwpid2rl lid all_lwp of
        None \<Rightarrow> (ESRCH, all_lwp, None)
      | Some i \<Rightarrow>
          let (v, wakes) = wakeup_cas (rl_value (all_lwp ! i)) in
          if wakes then (0, all_lwp[i := (all_lwp ! i)\<lparr>rl_value := v\<rparr>], Some (rl_thread (all_lwp ! i)))
          else (ENODEV, all_lwp, None))"

text \<open>\<open>None\<close> is a null \<^verbatim>\<open>targets\<close>; \<open>rv\<close> starts as the number of targets.\<close>

fun unpark_loop :: "int \<Rightarrow> int list \<Rightarrow> rumprun_lwp list \<Rightarrow> int \<times> rumprun_lwp list \<times> nat list" where
  "unpark_loop rv [] all_lwp = (rv, all_lwp, [])"
| "unpark_loop rv (lid # targets) all_lwp =
     (case lwp_unpark lid all_lwp of (r, all_lwp, w) \<Rightarrow>
      case unpark_loop (if r \<noteq> 0 then rv - 1 else rv) targets all_lwp of (rv, all_lwp, ws) \<Rightarrow>
        (rv, all_lwp, (case w of None \<Rightarrow> [] | Some t \<Rightarrow> [t]) @ ws))"

definition lwp_unpark_all :: "int list option \<Rightarrow> rumprun_lwp list \<Rightarrow> int \<times> rumprun_lwp list \<times> nat list" where
  "lwp_unpark_all targets all_lwp =
     (case targets of None \<Rightarrow> (1024, all_lwp, []) | Some ts \<Rightarrow> unpark_loop (int (length ts)) ts all_lwp)"

definition lwp_setname :: "int \<Rightarrow> string \<Rightarrow> rumprun_lwp list \<Rightarrow> int \<times> rumprun_lwp list" where
  "lwp_setname lid name all_lwp =
     (case lwpid2rl lid all_lwp of
        None \<Rightarrow> (ESRCH, all_lwp)
      | Some i \<Rightarrow> (0, all_lwp[i := (all_lwp ! i)\<lparr>rl_name := take MAXCOMLEN name\<rparr>]))"

definition LWPCTL_CPU_NONE :: int where "LWPCTL_CPU_NONE = - 1"
definition LWPCTL_CPU_EXITED :: int where "LWPCTL_CPU_EXITED = - 2"

text \<open>The cookies are indices, \<open>None\<close> for threads without an LWP.\<close>

definition schedhook :: "nat option \<Rightarrow> nat option \<Rightarrow> rumprun_lwp list \<Rightarrow> rumprun_lwp list" where
  "schedhook prev next all_lwp =
     (let l = (case prev of
                 Some p \<Rightarrow> if lc_curcpu (all_lwp ! p) \<noteq> LWPCTL_CPU_EXITED
                   then all_lwp[p := (all_lwp ! p)\<lparr>lc_curcpu := LWPCTL_CPU_NONE\<rparr>] else all_lwp
               | None \<Rightarrow> all_lwp) in
      case next of Some n \<Rightarrow> l[n := (l ! n)\<lparr>lc_curcpu := 0, lc_pctr := lc_pctr (l ! n) + 1\<rparr>] | None \<Rightarrow> l)"

text \<open>The deadline of a timed park, from the seconds, nanoseconds and flags given.\<close>

definition park_deadline :: "int \<Rightarrow> int \<Rightarrow> bool \<Rightarrow> int \<Rightarrow> int \<Rightarrow> int" where
  "park_deadline tv_sec tv_nsec abstime epochoffset now =
     (let nsecs = tv_sec * 1000 * 1000 * 1000 + tv_nsec in
      if abstime then nsecs - epochoffset else nsecs + now)"

text \<open>What \<^verbatim>\<open>_lwp_park\<close> returns, with the value it leaves in \<^verbatim>\<open>errno\<close>.\<close>

definition park_result :: "int \<Rightarrow> int \<times> int option" where
  "park_result rv = (if rv \<noteq> 0 then (- 1, Some rv) else (0, None))"

text \<open>Unparking changes no identifier, so that \<^verbatim>\<open>_lwp_unpark_all\<close> counts the targets that exist.\<close>

lemma find_lwp_ids:
  assumes "map rl_lwpid l = map rl_lwpid l'"
  shows "find_lwp lid i l = find_lwp lid i l'"
  using map_eq_imp_length_eq [OF assms] assms by (induction l l' arbitrary: i rule: list_induct2) simp_all

lemma lwp_unpark_ids: "map rl_lwpid (fst (snd (lwp_unpark lid l))) = map rl_lwpid l"
proof -
  have "map rl_lwpid (l[i := (l ! i)\<lparr>rl_value := v\<rparr>]) = map rl_lwpid l" for i v
    by (cases "i < length l") (auto intro!: nth_equalityI simp: nth_list_update)
  then show ?thesis by (simp add: lwp_unpark_def Let_def split_beta split: option.splits)
qed

lemma unpark_loop_count:
  "fst (unpark_loop rv targets l) = rv - int (length (filter (\<lambda>lid. lwpid2rl lid l = None) targets))"
proof (induction targets arbitrary: rv l)
  case (Cons lid targets)
  obtain r l' w where u: "lwp_unpark lid l = (r, l', w)" by (metis prod_cases3)
  have "lwpid2rl k l' = lwpid2rl k l" for k
    using lwp_unpark_ids [of lid l] u by (simp add: lwpid2rl_def find_lwp_ids [of l' l])
  then have "fst (unpark_loop rv' targets l') = rv' - int (length (filter (\<lambda>k. lwpid2rl k l = None) targets))" for rv'
    using Cons.IH [of rv' l'] by simp
  moreover have "r = (if lwpid2rl lid l = None then - 1 else 0)"
    using u by (auto simp: lwp_unpark_def Let_def split_beta split: option.splits)
  ultimately show ?case using u by (simp add: split_beta)
qed simp

lemma lwp_unpark_all_count:
  "fst (lwp_unpark_all (Some targets) l) = int (length (filter (\<lambda>lid. lwpid2rl lid l \<noteq> None) targets))"
  using sum_length_filter_compl [of "\<lambda>lid. lwpid2rl lid l = None" targets]
  by (simp add: lwp_unpark_all_def unpark_loop_count)

section \<open>Parking as a transition system\<close>

text \<open>
  \<open>Blocking\<close>: has called \<^verbatim>\<open>bmk_sched_block\<close>, the callback has not begun. \<open>Inserted\<close>: the callback has put the thread on
  the timeout queue. \<open>CallbackWake\<close>: the callback found the LWP unparked and calls \<^verbatim>\<open>rl_wake\<close>. \<open>Parked\<close>: off the
  CPU. \<open>Resumed\<close>: running again, before the store that ends \<^verbatim>\<open>_lwp_park\<close>.
\<close>

datatype park_pc = Running | Blocking | Inserted | CallbackWake | Parked | Resumed

text \<open>
  The timer runs with the lock of the timeout queues held from \<open>Fired\<close> to \<open>Leaving\<close>.
\<close>

datatype timer_pc = Idle | Fired | Waking | Leaving

text \<open>
  \<open>pending\<close> counts the unparking threads that are about to call \<^verbatim>\<open>rl_wake\<close>, \<open>enqueuing\<close> those that are about to
  put the thread into its run queue, and \<open>runnable\<close> its entries there.
\<close>

record park_state =
  pval :: u64
  timed :: bool
  parker :: park_pc
  on_timeq :: bool
  timedout :: bool
  timer :: timer_pc
  pending :: nat
  enqueuing :: nat
  runnable :: nat

definition park_start :: park_state where
  "park_start = \<lparr>pval = RL_MASK_PARK, timed = False, parker = Running, on_timeq = False, timedout = False,
     timer = Idle, pending = 0, enqueuing = 0, runnable = 0\<rparr>"

text \<open>
  \<^verbatim>\<open>rl_wake\<close>: for an untimed park \<^verbatim>\<open>bmk_sched_wake\<close>; for a timed one \<^verbatim>\<open>bmk_sched_wake_timeq\<close>, which looks at
  \<^verbatim>\<open>bt_timedout\<close> under the lock.
\<close>

definition rl_wake_ready :: "park_state \<Rightarrow> bool" where
  "rl_wake_ready s \<longleftrightarrow> \<not> timed s \<or> timer s = Idle"

definition rl_wake :: "park_state \<Rightarrow> park_state" where
  "rl_wake s =
     (if \<not> timed s then s\<lparr>enqueuing := enqueuing s + 1\<rparr>
      else if \<not> timedout s then s\<lparr>on_timeq := False, enqueuing := enqueuing s + 1\<rparr>
      else s)"

text \<open>\<open>allow\<close> says whether parks with a timeout occur.\<close>

inductive park_step :: "bool \<Rightarrow> park_state \<Rightarrow> park_state \<Rightarrow> bool" for allow where
  park_now: "parker s = Running \<Longrightarrow> park_enter (pval s) = (v, True) \<Longrightarrow> park_step allow s (s\<lparr>pval := v\<rparr>)"
| park_block: "parker s = Running \<Longrightarrow> park_enter (pval s) = (v, False) \<Longrightarrow> t \<longrightarrow> allow \<Longrightarrow>
    park_step allow s (s\<lparr>pval := v, timed := t, timedout := False, parker := Blocking\<rparr>)"
| callback_insert: "parker s = Blocking \<Longrightarrow> timed s \<Longrightarrow> timer s = Idle \<Longrightarrow>
    park_step allow s (s\<lparr>on_timeq := True, parker := Inserted\<rparr>)"
| callback_xor: "parker s = (if timed s then Inserted else Blocking) \<Longrightarrow> park_callback_xor (pval s) = (v, wakes) \<Longrightarrow>
    park_step allow s (s\<lparr>pval := v, parker := (if wakes then CallbackWake else Parked)\<rparr>)"
| callback_wake: "parker s = CallbackWake \<Longrightarrow> rl_wake_ready s \<Longrightarrow> park_step allow s ((rl_wake s)\<lparr>parker := Parked\<rparr>)"
| unpark: "unpark_exchange (pval s) = (v, wakes) \<Longrightarrow>
    park_step allow s (s\<lparr>pval := v, pending := pending s + (if wakes then 1 else 0)\<rparr>)"
| unpark_wake: "0 < pending s \<Longrightarrow> rl_wake_ready s \<Longrightarrow> park_step allow s (rl_wake (s\<lparr>pending := pending s - 1\<rparr>))"
| enqueue: "0 < enqueuing s \<Longrightarrow> park_step allow s (s\<lparr>enqueuing := enqueuing s - 1, runnable := runnable s + 1\<rparr>)"
| timer_fire: "on_timeq s \<Longrightarrow> timer s = Idle \<Longrightarrow> park_step allow s (s\<lparr>timedout := True, on_timeq := False, timer := Fired\<rparr>)"
| timer_exchange: "timer s = Fired \<Longrightarrow> unpark_exchange (pval s) = (v, wakes) \<Longrightarrow>
    park_step allow s (s\<lparr>pval := v, timer := (if wakes then Waking else Leaving)\<rparr>)"
| timer_wake: "timer s = Waking \<Longrightarrow> park_step allow s (s\<lparr>timer := Leaving, runnable := runnable s + 1\<rparr>)"
| timer_leave: "timer s = Leaving \<Longrightarrow> park_step allow s (s\<lparr>timer := Idle\<rparr>)"
| resume: "parker s = Parked \<Longrightarrow> 0 < runnable s \<Longrightarrow>
    park_step allow s (s\<lparr>parker := Resumed, runnable := runnable s - 1\<rparr>)"
| park_return: "parker s = Resumed \<Longrightarrow> park_step allow s (s\<lparr>pval := RL_MASK_PARK, parker := Running\<rparr>)"

section \<open>Parks without a timeout\<close>

definition in_flight :: "park_state \<Rightarrow> nat" where
  "in_flight s = pending s + enqueuing s + runnable s"

definition untimed_inv :: "park_state \<Rightarrow> bool" where
  "untimed_inv s \<longleftrightarrow> \<not> timed s \<and> \<not> on_timeq s \<and> timer s = Idle \<and>
     (case parker s of
        Running \<Rightarrow> pval s \<in> {1, 2} \<and> in_flight s = 0
      | Blocking \<Rightarrow> pval s \<in> {1, 2} \<and> in_flight s = 0
      | Inserted \<Rightarrow> False
      | CallbackWake \<Rightarrow> pval s \<in> {1, 3} \<and> in_flight s = 0
      | Parked \<Rightarrow> pval s = 0 \<and> in_flight s = 0 \<or> pval s \<in> {1, 3} \<and> in_flight s = 1
      | Resumed \<Rightarrow> pval s \<in> {1, 3} \<and> in_flight s = 0)"

lemmas lwp_ops = park_enter_def park_callback_xor_def unpark_exchange_def rl_wake_def rl_wake_ready_def in_flight_def
  RL_MASK_PARK_def RL_MASK_UNPARK_def

lemma untimed_inv_step: "park_step False s s' \<Longrightarrow> untimed_inv s \<Longrightarrow> untimed_inv s'"
  by (induction rule: park_step.induct)
    (auto simp: untimed_inv_def lwp_ops split: park_pc.splits if_splits)

lemma untimed_reach_inv: "(park_step False)\<^sup>*\<^sup>* park_start s \<Longrightarrow> untimed_inv s"
proof (induction rule: rtranclp_induct)
  case base
  show ?case by (simp add: untimed_inv_def park_start_def lwp_ops)
qed (rule untimed_inv_step)

text \<open>How far the wake-up of a parked thread still is.\<close>

definition wake_distance :: "park_state \<Rightarrow> nat" where
  "wake_distance s = (if parker s = Parked then 3 * pending s + 2 * enqueuing s + runnable s else 0)"

text \<open>
  C16. Without timeouts no wake-up is lost or doubled: an LWP is put into its run queue only when it is
  off its CPU, and at most once. As soon as somebody has unparked it after it parked, exactly one wake-up is
  on its way; the next step of that wake-up is always possible and brings it closer, and no
  further unpark sets it back.
\<close>

theorem untimed_park_wakes:
  assumes "(park_step False)\<^sup>*\<^sup>* park_start s"
  shows "in_flight s \<le> 1 \<and> (0 < in_flight s \<longrightarrow> parker s = Parked) \<and>
    (parker s = Parked \<and> pval s \<noteq> 0 \<longrightarrow> in_flight s = 1 \<and>
      (\<exists>s'. park_step False s s' \<and> wake_distance s' < wake_distance s) \<and>
      (\<forall>s'. park_step False s s' \<longrightarrow> wake_distance s' \<le> wake_distance s))"
proof -
  have inv: "untimed_inv s" by (rule untimed_reach_inv [OF assms])
  have "\<exists>s'. park_step False s s' \<and> wake_distance s' < wake_distance s" if pk: "parker s = Parked" and fl: "in_flight s = 1"
  proof -
    consider "0 < pending s" | "0 < enqueuing s" | "0 < runnable s" using fl unfolding in_flight_def by linarith
    then show ?thesis
    proof cases
      case 1
      then have "park_step False s (rl_wake (s\<lparr>pending := pending s - 1\<rparr>))"
        using inv by (intro unpark_wake) (auto simp: untimed_inv_def rl_wake_ready_def)
      moreover have "wake_distance (rl_wake (s\<lparr>pending := pending s - 1\<rparr>)) < wake_distance s"
        using 1 inv pk by (auto simp: wake_distance_def rl_wake_def untimed_inv_def)
      ultimately show ?thesis by blast
    next
      case 2
      show ?thesis by (intro exI conjI, rule enqueue [OF 2]) (use 2 pk in \<open>simp add: wake_distance_def\<close>)
    next
      case 3
      show ?thesis by (intro exI conjI, rule resume [OF pk 3]) (use 3 pk in \<open>simp add: wake_distance_def\<close>)
    qed
  qed
  moreover have "wake_distance s' \<le> wake_distance s" if "park_step False s s'" "parker s = Parked" "pval s \<noteq> 0" for s'
    using that inv by (induction rule: park_step.induct) (auto simp: untimed_inv_def wake_distance_def lwp_ops split: if_splits)
  ultimately show ?thesis using inv by (auto simp: untimed_inv_def split: park_pc.splits)
qed

theorem untimed_park_wakes_witness:
  "\<exists>s. (park_step False)\<^sup>*\<^sup>* park_start s \<and> parker s = Parked \<and> pval s = 1 \<and> in_flight s = 1"
proof -
  have s1: "park_step False park_start (park_start\<lparr>parker := Blocking\<rparr>)"
    using park_block [of park_start 2 False False] by (simp add: park_start_def lwp_ops)
  have s2: "park_step False (park_start\<lparr>parker := Blocking\<rparr>) (park_start\<lparr>pval := 0, parker := Parked\<rparr>)"
    using callback_xor [of "park_start\<lparr>parker := Blocking\<rparr>" 0 False False] by (simp add: park_start_def lwp_ops)
  have s3: "park_step False (park_start\<lparr>pval := 0, parker := Parked\<rparr>) (park_start\<lparr>pval := 1, parker := Parked, pending := 1\<rparr>)"
    using unpark [of "park_start\<lparr>pval := 0, parker := Parked\<rparr>" 1 True False] by (simp add: park_start_def lwp_ops)
  have r: "(park_step False)\<^sup>*\<^sup>* park_start (park_start\<lparr>pval := 1, parker := Parked, pending := 1\<rparr>)"
    using s1 s2 s3 by (meson rtranclp.rtrancl_into_rtrancl rtranclp.rtrancl_refl)
  show ?thesis using untimed_park_wakes [OF r] r by (intro exI [of _ "park_start\<lparr>pval := 1, parker := Parked, pending := 1\<rparr>"]) simp
qed

section \<open>Parks with a timeout\<close>

definition stuck :: "park_state \<Rightarrow> bool" where
  "stuck s \<longleftrightarrow> parker s = Parked \<and> pval s = RL_MASK_UNPARK \<and> in_flight s = 0 \<and> timer s = Idle \<and> \<not> on_timeq s"

lemma stuck_step: "park_step allow s s' \<Longrightarrow> stuck s \<Longrightarrow> stuck s'"
  by (induction rule: park_step.induct) (auto simp: stuck_def lwp_ops split: if_splits)

lemma stuck_steps: "(park_step allow)\<^sup>*\<^sup>* s s' \<Longrightarrow> stuck s \<Longrightarrow> stuck s'"
  by (induction rule: rtranclp_induct) (auto dest: stuck_step)

text \<open>
  C17. A timed park can sleep for ever: when the timeout expires between an unparking thread's exchange
  and its call of \<^verbatim>\<open>bmk_sched_wake_timeq\<close>, the timer leaves the wake-up to the unparking thread, whose call
  in turn sees \<^verbatim>\<open>bt_timedout\<close> and leaves it to the timer. The LWP has then been unparked and has
  timed out, but stays parked whatever happens afterwards, further unparks included.
\<close>

theorem timed_park_lost_wakeup:
  "\<exists>s. (park_step True)\<^sup>*\<^sup>* park_start s \<and> parker s = Parked \<and> timed s \<and> timedout s \<and>
     (\<forall>s'. (park_step True)\<^sup>*\<^sup>* s s' \<longrightarrow> parker s' = Parked \<and> runnable s' = 0)"
proof -
  define s1 where "s1 = park_start\<lparr>timed := True, parker := Blocking\<rparr>"
  define s2 where "s2 = s1\<lparr>on_timeq := True, parker := Inserted\<rparr>"
  define s3 where "s3 = s2\<lparr>pval := 0, parker := Parked\<rparr>"
  define s4 where "s4 = s3\<lparr>pval := 1, pending := 1\<rparr>"
  define s5 where "s5 = s4\<lparr>timedout := True, on_timeq := False, timer := Fired\<rparr>"
  define s6 where "s6 = s5\<lparr>timer := Leaving\<rparr>"
  define s7 where "s7 = s6\<lparr>timer := Idle\<rparr>"
  define s8 where "s8 = s7\<lparr>pending := 0\<rparr>"
  note defs = s8_def s7_def s6_def s5_def s4_def s3_def s2_def s1_def park_start_def lwp_ops
  have "park_step True park_start s1" using park_block [of park_start 2 True True] by (simp add: defs)
  moreover have "park_step True s1 s2" using callback_insert [of s1 True] by (simp add: defs)
  moreover have "park_step True s2 s3" using callback_xor [of s2 0 False True] by (simp add: defs)
  moreover have "park_step True s3 s4" using unpark [of s3 1 True True] by (simp add: defs)
  moreover have "park_step True s4 s5" using timer_fire [of s4 True] by (simp add: defs)
  moreover have "park_step True s5 s6" using timer_exchange [of s5 1 False True] by (simp add: defs)
  moreover have "park_step True s6 s7" using timer_leave [of s6 True] by (simp add: defs)
  moreover have "park_step True s7 s8" using unpark_wake [of s7 True] by (simp add: defs)
  ultimately have "(park_step True)\<^sup>*\<^sup>* park_start s8"
    by (meson rtranclp.rtrancl_into_rtrancl rtranclp.rtrancl_refl)
  moreover have "stuck s8" "timed s8" "timedout s8" by (simp_all add: stuck_def defs)
  ultimately show ?thesis using stuck_steps [of True s8] by (auto simp: stuck_def in_flight_def)
qed

theorem timed_park_lost_wakeup_witness:
  "\<exists>s. (park_step True)\<^sup>*\<^sup>* park_start s \<and> timedout s \<and> parker s = Parked \<and> runnable s = 0"
  using timed_park_lost_wakeup by blast

end
