(* ===== verification/Lfqueue.thy ===== *)
theory Lfqueue
  imports Prelude
begin

text \<open>
  The linked queue of \<^verbatim>\<open>include/bmk-core/lfqueue.h\<close>, in which the last node's link doubles as a counter of
  dequeues that found the queue empty. The operations are modelled as they run when no other CPU changes the
  queue meanwhile: a compare-and-exchange on an unchanged word succeeds. A pointer is a
  64-bit word; nodes are at even addresses.
\<close>

section \<open>Model\<close>

definition LFQ_CNT :: u64 where "LFQ_CNT = 0x1"
definition LFQ_INC :: u64 where "LFQ_INC = 0x2"
definition LFQ_NULL :: u64 where "LFQ_NULL = - 1"

text \<open>A word with its stamp.\<close>

type_synonym aba = "u64 \<times> u64"

record lfqueue =
  lq_head :: aba
  lq_tail :: aba

record node_heap =
  nd_next :: "u64 \<Rightarrow> aba"
  nd_object :: "u64 \<Rightarrow> nat"

definition lfqueue_init :: "u64 \<Rightarrow> node_heap \<Rightarrow> lfqueue \<times> node_heap" where
  "lfqueue_init node h =
     (\<lparr>lq_head = (node, 0), lq_tail = (node, 0)\<rparr>, h\<lparr>nd_next := (nd_next h)(node := (LFQ_NULL, 0))\<rparr>)"

definition lfqueue_sentinel :: "lfqueue \<Rightarrow> u64" where
  "lfqueue_sentinel queue = fst (lq_head queue)"

partial_function (option) enqueue_loop ::
  "u64 \<Rightarrow> bool \<Rightarrow> lfqueue \<Rightarrow> node_heap \<Rightarrow> (bool \<times> lfqueue \<times> node_heap) option" where
  "enqueue_loop node mark queue h =
     (let tail = lq_tail queue; next = nd_next h (fst tail) in
      if fst next AND LFQ_CNT = 0 then
        enqueue_loop node mark (queue\<lparr>lq_tail := (fst next, snd tail + 1)\<rparr>) h
      else if mark \<and> fst next \<noteq> LFQ_NULL then
        Some (False, queue, h\<lparr>nd_next := (nd_next h)(fst tail := (fst next + LFQ_INC, snd next + 1))\<rparr>)
      else
        Some (True, queue\<lparr>lq_tail := (node, snd tail + 1)\<rparr>,
              h\<lparr>nd_next := (nd_next h)(fst tail := (node, snd next + 1))\<rparr>))"

declare enqueue_loop.simps [code]

definition lfqueue_enqueue ::
  "lfqueue \<Rightarrow> u64 \<Rightarrow> bool \<Rightarrow> node_heap \<Rightarrow> (bool \<times> lfqueue \<times> node_heap) option" where
  "lfqueue_enqueue queue node mark h =
     enqueue_loop node mark queue (h\<lparr>nd_next := (nd_next h)(node := (LFQ_NULL, snd (nd_next h node)))\<rparr>)"

definition lfqueue_dequeue :: "lfqueue \<Rightarrow> bool \<Rightarrow> node_heap \<Rightarrow> u64 option \<times> lfqueue \<times> node_heap" where
  "lfqueue_dequeue queue mark h =
     (let head = lq_head queue; tail = lq_tail queue; next = nd_next h (fst head) in
      if fst next AND LFQ_CNT \<noteq> 0 then
        (None, queue,
         if mark then h\<lparr>nd_next := (nd_next h)(fst head := (fst next - LFQ_INC, snd next + 1))\<rparr> else h)
      else
        let queue = (if fst head = fst tail then queue\<lparr>lq_tail := (fst next, snd tail + 1)\<rparr> else queue);
            object = nd_object h (fst next)
        in (Some (fst head), queue\<lparr>lq_head := (fst next, snd head + 1)\<rparr>,
            h\<lparr>nd_object := (nd_object h)(fst head := object)\<rparr>))"

section \<open>The queue as a list or a counter\<close>

text \<open>
  What the queue holds: the objects of the waiting nodes, or the number of dequeues that came too early.
\<close>

datatype bq = Waiting "nat list" | Pending nat

fun bq_items :: "bq \<Rightarrow> nat list" where
  "bq_items (Waiting xs) = xs" | "bq_items (Pending n) = []"

fun bq_count :: "bq \<Rightarrow> nat" where
  "bq_count (Waiting xs) = 0" | "bq_count (Pending n) = n"

text \<open>The link of the last node.\<close>

definition end_mark :: "nat \<Rightarrow> u64" where
  "end_mark n = - 1 - 2 * word_of_nat n"

fun chain :: "(u64 \<Rightarrow> aba) \<Rightarrow> u64 \<Rightarrow> u64 list \<Rightarrow> u64 \<Rightarrow> bool" where
  "chain nx s [] e \<longleftrightarrow> fst (nx s) = e"
| "chain nx s (n # ns) e \<longleftrightarrow> fst (nx s) = n \<and> chain nx n ns e"

definition lq_inv :: "lfqueue \<Rightarrow> node_heap \<Rightarrow> u64 list \<Rightarrow> bq \<Rightarrow> bool" where
  "lq_inv queue h ns b \<longleftrightarrow>
     (let s = fst (lq_head queue) in
      distinct (s # ns) \<and> (\<forall>n\<in>set (s # ns). n AND LFQ_CNT = 0) \<and> fst (lq_tail queue) = last (s # ns) \<and>
      chain (nd_next h) s ns (end_mark (bq_count b)) \<and> map (nd_object h) ns = bq_items b \<and>
      bq_count b < 2 ^ 62)"

lemma end_mark_odd: "end_mark n AND LFQ_CNT \<noteq> 0"
proof -
  have "odd (end_mark n)" by (simp add: end_mark_def)
  then have "end_mark n AND 1 = 1" by (simp add: and_one_eq odd_iff_mod_2_eq_one)
  then show ?thesis by (simp add: LFQ_CNT_def)
qed

lemma end_mark_0 [simp]: "end_mark 0 = LFQ_NULL"
  by (simp add: end_mark_def LFQ_NULL_def)

lemma end_mark_Suc: "end_mark (Suc n) = end_mark n - LFQ_INC"
  by (simp add: end_mark_def LFQ_INC_def algebra_simps)

lemma end_mark_NULL:
  assumes "n < 2 ^ 62"
  shows "end_mark n = LFQ_NULL \<longleftrightarrow> n = 0"
proof
  assume "end_mark n = LFQ_NULL"
  then have "2 * word_of_nat n = (0 :: u64)" by (simp add: end_mark_def LFQ_NULL_def)
  then have "word_of_nat (2 * n) = (0 :: u64)" by (simp only: of_nat_mult of_nat_numeral)
  then have "2 ^ 64 dvd 2 * n" unfolding word_of_nat_eq_0_iff by simp
  moreover have "2 * n < 2 ^ 64" using assms by simp
  ultimately show "n = 0" using nat_dvd_not_less by force
qed simp

lemma chain_upd: "m \<notin> set (s # ns) \<Longrightarrow> chain (nx(m := v)) s ns e \<longleftrightarrow> chain nx s ns e"
  by (induction ns arbitrary: s) auto

lemma chain_last: "chain nx s ns e \<Longrightarrow> fst (nx (last (s # ns))) = e"
  by (induction ns arbitrary: s) auto

text \<open>Changing the link of the last node changes only the end of the chain.\<close>

lemma chain_end:
  "distinct (s # ns) \<Longrightarrow> chain nx s ns e \<Longrightarrow> chain (nx(last (s # ns) := (e', st))) s ns e'"
proof (induction ns arbitrary: s)
  case (Cons n ns)
  have "s \<noteq> last (n # ns)" using Cons.prems(1) by (metis distinct.simps(2) last_in_set list.distinct(1))
  then show ?case using Cons by simp
qed simp

lemma chain_append: "chain nx s (ns @ [m]) e \<longleftrightarrow> chain nx s ns m \<and> fst (nx m) = e"
  by (induction ns arbitrary: s) auto

lemma enqueue_at_end:
  assumes "lq_inv queue h ns b"
  shows "enqueue_loop node mark queue h =
    (if mark \<and> bq_count b \<noteq> 0 then
       Some (False, queue, h\<lparr>nd_next := (nd_next h)(fst (lq_tail queue) :=
         (fst (nd_next h (fst (lq_tail queue))) + LFQ_INC, snd (nd_next h (fst (lq_tail queue))) + 1))\<rparr>)
     else
       Some (True, queue\<lparr>lq_tail := (node, snd (lq_tail queue) + 1)\<rparr>,
         h\<lparr>nd_next := (nd_next h)(fst (lq_tail queue) := (node, snd (nd_next h (fst (lq_tail queue))) + 1))\<rparr>))"
proof -
  have e: "fst (nd_next h (fst (lq_tail queue))) = end_mark (bq_count b)"
    using assms chain_last [of "nd_next h" "fst (lq_head queue)" ns] by (simp add: lq_inv_def Let_def)
  have "end_mark (bq_count b) = LFQ_NULL \<longleftrightarrow> bq_count b = 0"
    using assms end_mark_NULL by (simp add: lq_inv_def Let_def)
  then show ?thesis
    by (subst enqueue_loop.simps) (simp add: Let_def e end_mark_odd)
qed

text \<open>An enqueue that finds no early dequeue puts the node at the end.\<close>

lemma enqueue_waiting:
  assumes "lq_inv queue h ns (Waiting xs)" "node \<notin> set (fst (lq_head queue) # ns)" "node AND LFQ_CNT = 0"
  obtains queue' h' where "lfqueue_enqueue queue node mark h = Some (True, queue', h')"
    "lq_inv queue' h' (ns @ [node]) (Waiting (xs @ [nd_object h node]))" "lq_head queue' = lq_head queue"
    "nd_object h' = nd_object h"
proof -
  define s where "s = fst (lq_head queue)"
  define h1 where "h1 = h\<lparr>nd_next := (nd_next h)(node := (LFQ_NULL, snd (nd_next h node)))\<rparr>"
  have nin: "node \<notin> set (s # ns)" using assms(2) by (simp add: s_def)
  have inv: "distinct (s # ns)" "\<forall>n\<in>set (s # ns). n AND LFQ_CNT = 0" "fst (lq_tail queue) = last (s # ns)"
    "chain (nd_next h) s ns LFQ_NULL" "map (nd_object h) ns = xs"
    using assms(1) by (simp_all add: lq_inv_def Let_def s_def)
  have c1: "chain (nd_next h1) s ns LFQ_NULL" using inv(4) chain_upd [OF nin] by (simp add: h1_def)
  have inv1: "lq_inv queue h1 ns (Waiting xs)"
    using assms(1) c1 by (simp add: lq_inv_def Let_def s_def h1_def)
  define l where "l = last (s # ns)"
  have l: "l \<in> set (s # ns)" "l \<noteq> node" using nin last_in_set [of "s # ns"] by (auto simp: l_def)
  define q' where "q' = queue\<lparr>lq_tail := (node, snd (lq_tail queue) + 1)\<rparr>"
  define h' where "h' = h1\<lparr>nd_next := (nd_next h1)(l := (node, snd (nd_next h1 l) + 1))\<rparr>"
  have "chain (nd_next h') s (ns @ [node]) LFQ_NULL"
    unfolding chain_append using chain_end [OF inv(1) c1, of node] l by (simp add: h'_def l_def h1_def)
  then have "lq_inv q' h' (ns @ [node]) (Waiting (xs @ [nd_object h node]))"
    using inv nin assms(3) by (auto simp: lq_inv_def Let_def q'_def h'_def h1_def s_def [symmetric])
  moreover have "lfqueue_enqueue queue node mark h = Some (True, q', h')"
    unfolding lfqueue_enqueue_def h1_def [symmetric] enqueue_at_end [OF inv1] using inv(3)
    by (simp add: q'_def h'_def l_def)
  ultimately show thesis using that by (simp add: q'_def h'_def h1_def)
qed

text \<open>An enqueue that comes after an early dequeue does not take effect and uses the dequeue up.\<close>

lemma enqueue_pending:
  assumes "lq_inv queue h ns (Pending (Suc n))" "node \<notin> set (fst (lq_head queue) # ns)"
  obtains h' where "lfqueue_enqueue queue node True h = Some (False, queue, h')"
    "lq_inv queue h' ns (Pending n)" "nd_object h' = nd_object h"
proof -
  define s where "s = fst (lq_head queue)"
  define h1 where "h1 = h\<lparr>nd_next := (nd_next h)(node := (LFQ_NULL, snd (nd_next h node)))\<rparr>"
  have inv: "distinct (s # ns)" "fst (lq_tail queue) = last (s # ns)" "chain (nd_next h) s ns (end_mark (Suc n))"
    using assms(1) unfolding lq_inv_def Let_def s_def bq_count.simps by blast+
  have c1: "chain (nd_next h1) s ns (end_mark (Suc n))"
    using inv(3) chain_upd [of node s ns] assms(2) by (simp add: h1_def s_def)
  have inv1: "lq_inv queue h1 ns (Pending (Suc n))"
    using assms(1) c1 by (simp add: lq_inv_def Let_def s_def h1_def)
  define l where "l = last (s # ns)"
  define h' where "h' = h1\<lparr>nd_next := (nd_next h1)(l := (end_mark n, snd (nd_next h1 l) + 1))\<rparr>"
  have "fst (nd_next h1 l) + LFQ_INC = end_mark n"
    using chain_last [OF c1] by (simp add: l_def end_mark_Suc)
  then have "lfqueue_enqueue queue node True h = Some (False, queue, h')"
    unfolding lfqueue_enqueue_def h1_def [symmetric] enqueue_at_end [OF inv1]
    by (simp add: h'_def inv(2) l_def)
  moreover have "lq_inv queue h' ns (Pending n)"
    using inv1 chain_end [OF inv(1) c1, of "end_mark n"]
    by (simp add: lq_inv_def Let_def h'_def l_def s_def)
  ultimately show thesis using that by (simp add: h'_def h1_def)
qed

text \<open>A dequeue returns the old sentinel, carrying the object of the first waiting node.\<close>

lemma dequeue_waiting:
  assumes "lq_inv queue h (n # ns) (Waiting (x # xs))"
  obtains queue' h' where "lfqueue_dequeue queue mark h = (Some (fst (lq_head queue)), queue', h')"
    "lq_inv queue' h' ns (Waiting xs)" "fst (lq_head queue') = n" "nd_object h' = (nd_object h)(fst (lq_head queue) := x)"
proof -
  define s where "s = fst (lq_head queue)"
  have inv: "distinct (s # n # ns)" "\<forall>k\<in>set (s # n # ns). k AND LFQ_CNT = 0" "fst (lq_tail queue) = last (n # ns)"
    "fst (nd_next h s) = n" "chain (nd_next h) n ns LFQ_NULL" "nd_object h n = x" "map (nd_object h) ns = xs"
    using assms by (simp_all add: lq_inv_def Let_def s_def)
  have "last (n # ns) \<in> set (n # ns)" by (rule last_in_set) simp
  then have st: "s \<noteq> fst (lq_tail queue)" using inv(1,3) by auto
  define q' where "q' = queue\<lparr>lq_head := (n, snd (lq_head queue) + 1)\<rparr>"
  define h' where "h' = h\<lparr>nd_object := (nd_object h)(s := x)\<rparr>"
  have "map (nd_object h') ns = xs" using inv(1,7) by (auto simp: h'_def)
  then have "lq_inv q' h' ns (Waiting xs)"
    using inv by (simp add: lq_inv_def Let_def q'_def h'_def)
  moreover have "lfqueue_dequeue queue mark h = (Some s, q', h')"
    using st inv(2,4,6) by (simp add: lfqueue_dequeue_def Let_def s_def q'_def h'_def)
  ultimately show thesis using that by (simp add: q'_def h'_def s_def)
qed

text \<open>A dequeue of an empty queue is counted when it is marked.\<close>

lemma dequeue_empty:
  assumes "lq_inv queue h [] b" "bq_items b = []" "Suc (bq_count b) < 2 ^ 62"
  obtains h' where "lfqueue_dequeue queue True h = (None, queue, h')" "lq_inv queue h' [] (Pending (Suc (bq_count b)))"
    "nd_object h' = nd_object h"
proof -
  define s where "s = fst (lq_head queue)"
  have e: "fst (nd_next h s) = end_mark (bq_count b)" using assms(1) by (simp add: lq_inv_def Let_def s_def)
  define h' where "h' = h\<lparr>nd_next := (nd_next h)(s := (end_mark (Suc (bq_count b)), snd (nd_next h s) + 1))\<rparr>"
  have "lfqueue_dequeue queue True h = (None, queue, h')"
    using e by (simp add: lfqueue_dequeue_def Let_def end_mark_odd h'_def end_mark_Suc s_def)
  moreover have "lq_inv queue h' [] (Pending (Suc (bq_count b)))"
    using assms by (simp add: lq_inv_def Let_def h'_def s_def)
  ultimately show thesis using that by (simp add: h'_def)
qed

end
