(* ===== verification/Block_Queue.thy ===== *)
theory Block_Queue
  imports Sched Lfqueue
begin

text \<open>
  The block queues of \<^verbatim>\<open>lib/libbmk_core/sched.c\<close>, on which the mutexes of the rump kernel sleep. Every
  thread owns a node; a blocking thread's node goes into the queue, and a woken thread gets the old sentinel instead.
  What a wake-up does to the scheduler is the parameter \<open>wake\<close>, which the program instantiates with
  \<^verbatim>\<open>bmk_sched_wake\<close>.
\<close>

section \<open>Model\<close>

record block_state =
  bs_heap :: node_heap
  bs_node :: "nat \<Rightarrow> u64"

definition block_queue_callback ::
  "(nat \<Rightarrow> 's \<Rightarrow> 's res) \<Rightarrow> nat \<Rightarrow> lfqueue \<times> block_state \<times> 's \<Rightarrow> (lfqueue \<times> block_state \<times> 's) res" where
  "block_queue_callback wake prev = (\<lambda>(queue, b, s).
     bindE (loopE (lfqueue_enqueue queue (bs_node b prev) True (bs_heap b))) (\<lambda>(r, queue, h).
     if \<not> r then bindE (wake prev s) (\<lambda>s. Inr (queue, b\<lparr>bs_heap := h\<rparr>, s))
     else Inr (queue, b\<lparr>bs_heap := h\<rparr>, s)))"

definition bmk_block_queue_wake ::
  "(nat \<Rightarrow> 's \<Rightarrow> 's res) \<Rightarrow> lfqueue \<times> block_state \<times> 's \<Rightarrow> (lfqueue \<times> block_state \<times> 's) res" where
  "bmk_block_queue_wake wake = (\<lambda>(queue, b, s).
     case lfqueue_dequeue queue True (bs_heap b) of (node, queue, h) \<Rightarrow>
       (case node of
          Some n \<Rightarrow>
            let thread = nd_object h n in
            bindE (wake thread s) (\<lambda>s. Inr (queue, b\<lparr>bs_heap := h, bs_node := (bs_node b)(thread := n)\<rparr>, s))
        | None \<Rightarrow> Inr (queue, b\<lparr>bs_heap := h\<rparr>, s)))"

text \<open>The node with index \<open>i\<close> of \<^verbatim>\<open>nodes_array\<close>.\<close>

definition node_addr :: "u64 \<Rightarrow> nat \<Rightarrow> u64" where
  "node_addr nodes_array i = nodes_array + word_of_nat (i * sizeof_node)"

definition bmk_block_queue_init ::
  "u64 \<Rightarrow> block_state \<times> sched \<Rightarrow> (lfqueue \<times> block_state \<times> sched) res" where
  "bmk_block_queue_init nodes_array = (\<lambda>(b, s).
     bindE (do_block_node_alloc s) (\<lambda>(node, s).
     let (queue, h) = lfqueue_init (node_addr nodes_array node) (bs_heap b) in
     Inr (queue, b\<lparr>bs_heap := h\<rparr>, s)))"

definition bmk_block_queue_destroy ::
  "u64 \<Rightarrow> lfqueue \<times> block_state \<times> sched \<Rightarrow> (block_state \<times> sched) res" where
  "bmk_block_queue_destroy nodes_array = (\<lambda>(queue, b, s).
     let node = lfqueue_sentinel queue;
         index = sc_node_index s (unat (node - nodes_array) div sizeof_node)
     in
     bindE (loopE (lfring_enqueue (sc_nodes s) BMK_MAX_BLOCKQ_ORDER (word_of_nat index) False)) (\<lambda>q.
     Inr (b, s\<lparr>sc_nodes := q\<rparr>)))"

section \<open>Specification\<close>

text \<open>
  A block queue is a counting semaphore: a wake-up releases the thread that has waited longest, or
  lets the next thread that wants to block go on.
\<close>

datatype bq_call = Block nat | Wake

fun bq_spec_call :: "bq_call \<Rightarrow> bq \<Rightarrow> nat option \<times> bq" where
  "bq_spec_call (Block t) (Waiting xs) = (None, Waiting (xs @ [t]))"
| "bq_spec_call (Block t) (Pending 0) = (None, Waiting [t])"
| "bq_spec_call (Block t) (Pending (Suc n)) = (Some t, Pending n)"
| "bq_spec_call Wake (Waiting []) = (None, Pending 1)"
| "bq_spec_call Wake (Waiting (x # xs)) = (Some x, Waiting xs)"
| "bq_spec_call Wake (Pending n) = (None, Pending (Suc n))"

fun bq_spec_calls :: "bq_call list \<Rightarrow> bq \<Rightarrow> nat list \<times> bq" where
  "bq_spec_calls [] b = ([], b)"
| "bq_spec_calls (c # cs) b =
     (case bq_spec_call c b of (w, b') \<Rightarrow> case bq_spec_calls cs b' of (ws, b'') \<Rightarrow>
       ((case w of None \<Rightarrow> [] | Some t \<Rightarrow> [t]) @ ws, b''))"

text \<open>A thread that waits already cannot block, and the early wake-ups stay below the counter's range.\<close>

fun call_ok :: "nat set \<Rightarrow> bq_call \<Rightarrow> bq \<Rightarrow> bool" where
  "call_ok T (Block t) b \<longleftrightarrow> t \<in> T \<and> t \<notin> set (bq_items b)"
| "call_ok T Wake b \<longleftrightarrow> Suc (bq_count b) < 2 ^ 62"

fun calls_ok :: "nat set \<Rightarrow> bq_call list \<Rightarrow> bq \<Rightarrow> bool" where
  "calls_ok T [] b \<longleftrightarrow> True"
| "calls_ok T (c # cs) b \<longleftrightarrow> call_ok T c b \<and> calls_ok T cs (snd (bq_spec_call c b))"

text \<open>The calls on the implementation, with the woken threads collected in order.\<close>

definition log_wake :: "nat \<Rightarrow> nat list \<Rightarrow> nat list res" where
  "log_wake t l = Inr (l @ [t])"

fun run_call :: "bq_call \<Rightarrow> lfqueue \<times> block_state \<times> nat list \<Rightarrow> (lfqueue \<times> block_state \<times> nat list) res" where
  "run_call (Block t) c = block_queue_callback log_wake t c"
| "run_call Wake c = bmk_block_queue_wake log_wake c"

fun run_bq :: "bq_call list \<Rightarrow> lfqueue \<times> block_state \<times> nat list \<Rightarrow> (lfqueue \<times> block_state \<times> nat list) res" where
  "run_bq [] c = Inr c"
| "run_bq (k # ks) c = bindE (run_call k c) (run_bq ks)"

section \<open>Refinement\<close>

text \<open>
  The nodes of the threads of \<open>T\<close> that do not wait are different from each other and from the nodes in the
  queue, and each node carries its thread.
\<close>

definition bq_inv :: "nat set \<Rightarrow> lfqueue \<Rightarrow> block_state \<Rightarrow> bq \<Rightarrow> bool" where
  "bq_inv T queue b a \<longleftrightarrow> (\<exists>ns. lq_inv queue (bs_heap b) ns a \<and> distinct (bq_items a) \<and> set (bq_items a) \<subseteq> T \<and>
     inj_on (bs_node b) (T - set (bq_items a)) \<and>
     (\<forall>t\<in>T - set (bq_items a). bs_node b t \<notin> set (fst (lq_head queue) # ns) \<and> bs_node b t AND LFQ_CNT = 0 \<and>
        nd_object (bs_heap b) (bs_node b t) = t))"

lemma lq_pending_0: "lq_inv queue h ns (Pending 0) \<longleftrightarrow> lq_inv queue h ns (Waiting [])"
  by (simp add: lq_inv_def)

lemma lq_items: "lq_inv queue h ns a \<Longrightarrow> length ns = length (bq_items a)"
  by (auto simp: lq_inv_def Let_def dest: arg_cong [where f = length])

lemma block_waiting:
  assumes "bq_inv T queue b (Waiting xs)" "t \<in> T" "t \<notin> set xs"
  obtains queue' b' where "block_queue_callback wake t (queue, b, l) = Inr (queue', b', l)"
    "bq_inv T queue' b' (Waiting (xs @ [t]))"
proof -
  obtain ns where ns: "lq_inv queue (bs_heap b) ns (Waiting xs)" "distinct xs" "set xs \<subseteq> T" "inj_on (bs_node b) (T - set xs)"
    "\<And>u. u \<in> T - set xs \<Longrightarrow> bs_node b u \<notin> set (fst (lq_head queue) # ns) \<and> bs_node b u AND LFQ_CNT = 0 \<and>
        nd_object (bs_heap b) (bs_node b u) = u"
    using assms(1) by (auto simp: bq_inv_def)
  have t: "t \<in> T - set xs" using assms(2,3) by blast
  note tn = ns(5) [OF t]
  obtain queue' h' where q': "lfqueue_enqueue queue (bs_node b t) True (bs_heap b) = Some (True, queue', h')"
    "lq_inv queue' h' (ns @ [bs_node b t]) (Waiting (xs @ [nd_object (bs_heap b) (bs_node b t)]))"
    "lq_head queue' = lq_head queue" "nd_object h' = nd_object (bs_heap b)"
    by (rule enqueue_waiting [OF ns(1), of "bs_node b t" True]) (use tn in \<open>simp_all add: that\<close>)
  have "bs_node b u \<noteq> bs_node b t" if "u \<in> T" "u \<notin> set xs" "u \<noteq> t" for u
    using ns(4) t that by (metis DiffI inj_onD)
  then have "bq_inv T queue' (b\<lparr>bs_heap := h'\<rparr>) (Waiting (xs @ [t]))"
    unfolding bq_inv_def
    using q' tn ns(2,3,5) assms(2,3) inj_on_subset [OF ns(4), of "T - set (xs @ [t])"]
    by (intro exI [of _ "ns @ [bs_node b t]"]) auto
  then show thesis using that q'(1) by (simp add: block_queue_callback_def)
qed

lemma block_pending:
  assumes "bq_inv T queue b (Pending (Suc n))" "t \<in> T"
  obtains b' where "block_queue_callback wake t (queue, b, l) = bindE (wake t l) (\<lambda>l. Inr (queue, b', l))"
    "bq_inv T queue b' (Pending n)"
proof -
  obtain ns where ns: "lq_inv queue (bs_heap b) ns (Pending (Suc n))" "inj_on (bs_node b) T"
    "\<And>u. u \<in> T \<Longrightarrow> bs_node b u \<notin> set (fst (lq_head queue) # ns) \<and> bs_node b u AND LFQ_CNT = 0 \<and>
        nd_object (bs_heap b) (bs_node b u) = u"
    using assms(1) by (auto simp: bq_inv_def)
  obtain h' where h': "lfqueue_enqueue queue (bs_node b t) True (bs_heap b) = Some (False, queue, h')"
    "lq_inv queue h' ns (Pending n)" "nd_object h' = nd_object (bs_heap b)"
    by (rule enqueue_pending [OF ns(1), of "bs_node b t"]) (use ns(3) [OF assms(2)] in \<open>simp_all add: that\<close>)
  have "bq_inv T queue (b\<lparr>bs_heap := h'\<rparr>) (Pending n)"
    unfolding bq_inv_def using h' ns(2,3) by (intro exI [of _ ns]) auto
  then show thesis using that h'(1) by (simp add: block_queue_callback_def)
qed

lemma wake_waiting:
  assumes "bq_inv T queue b (Waiting (x # xs))"
  obtains queue' b' where "bmk_block_queue_wake wake (queue, b, l) = bindE (wake x l) (\<lambda>l. Inr (queue', b', l))"
    "bq_inv T queue' b' (Waiting xs)"
proof -
  obtain ms where ms: "lq_inv queue (bs_heap b) ms (Waiting (x # xs))" "distinct (x # xs)" "set (x # xs) \<subseteq> T"
    "inj_on (bs_node b) (T - set (x # xs))"
    "\<And>u. u \<in> T - set (x # xs) \<Longrightarrow> bs_node b u \<notin> set (fst (lq_head queue) # ms) \<and> bs_node b u AND LFQ_CNT = 0 \<and>
        nd_object (bs_heap b) (bs_node b u) = u"
    using assms by (auto simp: bq_inv_def)
  obtain n ns where ns: "ms = n # ns" using lq_items [OF ms(1)] by (cases ms) auto
  define s where "s = fst (lq_head queue)"
  obtain queue' h' where q': "lfqueue_dequeue queue True (bs_heap b) = (Some s, queue', h')"
    "lq_inv queue' h' ns (Waiting xs)" "fst (lq_head queue') = n" "nd_object h' = (nd_object (bs_heap b))(s := x)"
    by (rule dequeue_waiting [OF ms(1) [unfolded ns], of True, folded s_def]) (rule that)
  have s: "s \<notin> set (n # ns)" "s AND LFQ_CNT = 0"
    using ms(1) unfolding ns lq_inv_def Let_def s_def [symmetric] by simp_all
  define b' where "b' = b\<lparr>bs_heap := h', bs_node := (bs_node b)(x := s)\<rparr>"
  have other: "bs_node b u \<noteq> s \<and> bs_node b u \<notin> set (n # ns) \<and> bs_node b u AND LFQ_CNT = 0 \<and>
      nd_object (bs_heap b) (bs_node b u) = u" if "u \<in> T" "u \<notin> set xs" "u \<noteq> x" for u
    using ms(5) [of u] that unfolding ns s_def [symmetric] by simp
  have b': "bs_node b' u = (if u = x then s else bs_node b u)" "bs_heap b' = h'" for u by (simp_all add: b'_def)
  have "inj_on (bs_node b') (T - set xs)"
  proof (rule inj_onI)
    fix u v assume uv: "u \<in> T - set xs" "v \<in> T - set xs" "bs_node b' u = bs_node b' v"
    show "u = v"
    proof (cases "u = x \<or> v = x")
      case True
      then show ?thesis using other [of u] other [of v] uv b'(1) by (metis DiffD1 DiffD2)
    next
      case False
      then have "bs_node b u = bs_node b v" using uv(3) b'(1) by simp
      then show ?thesis using inj_onD [OF ms(4), of u v] uv(1,2) False by simp
    qed
  qed
  moreover have "bs_node b' u \<notin> set (fst (lq_head queue') # ns) \<and> bs_node b' u AND LFQ_CNT = 0 \<and>
      nd_object (bs_heap b') (bs_node b' u) = u" if "u \<in> T - set xs" for u
    using that other [of u] s q'(3,4) b' by (cases "u = x") simp_all
  ultimately have "bq_inv T queue' b' (Waiting xs)"
    unfolding bq_inv_def using q'(2) ms(2,3) b'(2) by (intro exI [of _ ns] conjI ballI) simp_all
  then show thesis
    using that q'(1,4) by (simp add: bmk_block_queue_wake_def b'_def Let_def)
qed

lemma wake_empty:
  assumes "bq_inv T queue b a" "bq_items a = []" "Suc (bq_count a) < 2 ^ 62"
  obtains b' where "bmk_block_queue_wake wake (queue, b, l) = Inr (queue, b', l)" "bq_inv T queue b' (Pending (Suc (bq_count a)))"
proof -
  obtain ns where ns: "lq_inv queue (bs_heap b) ns a" "inj_on (bs_node b) T"
    "\<And>u. u \<in> T \<Longrightarrow> bs_node b u \<notin> set (fst (lq_head queue) # ns) \<and> bs_node b u AND LFQ_CNT = 0 \<and>
        nd_object (bs_heap b) (bs_node b u) = u"
    using assms(1,2) by (auto simp: bq_inv_def)
  have nil: "ns = []" using lq_items [OF ns(1)] assms(2) by simp
  obtain h' where h': "lfqueue_dequeue queue True (bs_heap b) = (None, queue, h')"
    "lq_inv queue h' [] (Pending (Suc (bq_count a)))" "nd_object h' = nd_object (bs_heap b)"
    by (rule dequeue_empty [OF ns(1) [unfolded nil] assms(2,3)])
  have "bq_inv T queue (b\<lparr>bs_heap := h'\<rparr>) (Pending (Suc (bq_count a)))"
    unfolding bq_inv_def using h' ns(2,3) by (intro exI [of _ "[]"]) (auto simp: nil)
  then show thesis using that h'(1) by (simp add: bmk_block_queue_wake_def)
qed

lemma run_call_refines:
  assumes "bq_inv T queue b a" "call_ok T c a"
  shows "\<exists>queue' b'. run_call c (queue, b, l) =
      Inr (queue', b', l @ (case fst (bq_spec_call c a) of None \<Rightarrow> [] | Some t \<Rightarrow> [t])) \<and>
    bq_inv T queue' b' (snd (bq_spec_call c a))"
proof (cases c)
  case (Block t)
  have t: "t \<in> T" "t \<notin> set (bq_items a)" using assms(2) Block by simp_all
  consider (w) xs where "a = Waiting xs" | (z) "a = Pending 0" | (s) n where "a = Pending (Suc n)"
    by (metis bq.exhaust old.nat.exhaust)
  then show ?thesis
  proof cases
    case w
    have p: "bq_inv T queue b (Waiting xs)" "t \<notin> set xs" using assms(1) t(2) w by simp_all
    show ?thesis by (rule block_waiting [OF p(1) t(1) p(2), of log_wake l]) (simp add: Block w)
  next
    case z
    have p: "bq_inv T queue b (Waiting [])" using assms(1) z by (simp add: bq_inv_def lq_pending_0)
    show ?thesis by (rule block_waiting [OF p t(1), of log_wake l]) (simp_all add: Block z)
  next
    case s
    have p: "bq_inv T queue b (Pending (Suc n))" using assms(1) s by simp
    show ?thesis by (rule block_pending [OF p t(1), of log_wake l]) (simp add: Block s log_wake_def)
  qed
next
  case Wake
  show ?thesis
  proof (cases "bq_items a")
    case Nil
    have sp: "bq_spec_call Wake a = (None, Pending (Suc (bq_count a)))"
      using Nil by (cases a) (auto simp: neq_Nil_conv)
    have p: "Suc (bq_count a) < 2 ^ 62" using assms(2) Wake by simp
    show ?thesis by (rule wake_empty [OF assms(1) Nil p, of log_wake l]) (simp add: Wake sp)
  next
    case (Cons x xs)
    then have a: "a = Waiting (x # xs)" by (cases a) auto
    have p: "bq_inv T queue b (Waiting (x # xs))" using assms(1) a by simp
    show ?thesis by (rule wake_waiting [OF p, of log_wake l]) (simp add: Wake a log_wake_def)
  qed
qed

text \<open>
  C18. A block queue behaves as a counting semaphore that releases its waiters in the order in which they
  blocked: for every sequence of blocks and wake-ups the threads woken, and their order, are
  those of the specification, and each call returns.
\<close>

theorem block_queue_refines:
  assumes "bq_inv T queue b a" "calls_ok T cs a"
  shows "\<exists>queue' b'. run_bq cs (queue, b, l) = Inr (queue', b', l @ fst (bq_spec_calls cs a)) \<and>
    bq_inv T queue' b' (snd (bq_spec_calls cs a))"
  using assms
proof (induction cs arbitrary: queue b a l)
  case (Cons c cs)
  obtain q1 b1 where 1: "run_call c (queue, b, l) =
      Inr (q1, b1, l @ (case fst (bq_spec_call c a) of None \<Rightarrow> [] | Some t \<Rightarrow> [t]))"
    "bq_inv T q1 b1 (snd (bq_spec_call c a))"
    using run_call_refines [OF Cons.prems(1), of c l] Cons.prems(2) by auto
  show ?case
    using Cons.IH [OF 1(2), of "l @ (case fst (bq_spec_call c a) of None \<Rightarrow> [] | Some t \<Rightarrow> [t])"] Cons.prems(2) 1(1)
    by (auto simp: split_beta)
qed simp

definition bq_demo :: "lfqueue \<times> block_state" where
  "bq_demo = (case lfqueue_init 64 \<lparr>nd_next = (\<lambda>_. (0, 0)), nd_object = (\<lambda>n. unat n div 128)\<rparr> of
     (q, h) \<Rightarrow> (q, \<lparr>bs_heap = h, bs_node = (\<lambda>t. word_of_nat (128 * t))\<rparr>))"

theorem block_queue_refines_witness:
  "\<exists>queue' b'. run_bq [Block 3, Wake, Wake, Block 5] (fst bq_demo, snd bq_demo, []) = Inr (queue', b', [3, 5])"
proof -
  have "bq_inv {3, 5} (fst bq_demo) (snd bq_demo) (Waiting [])"
    unfolding bq_inv_def
    by (intro exI [of _ "[]"]) (auto simp: bq_demo_def lfqueue_init_def lq_inv_def Let_def LFQ_CNT_def)
  then show ?thesis
    using block_queue_refines [of "{3, 5}" "fst bq_demo" "snd bq_demo" "Waiting []" "[Block 3, Wake, Wake, Block 5]" "[]"]
    by auto
qed

end
