(* ===== verification/Mutex.thy ===== *)
theory Mutex
  imports Block_Queue
begin

text \<open>
  The mutexes of \<^verbatim>\<open>lib/libbmk_rumpuser/rumpuser_synch.c\<close>, at the grain of single atomic instructions. A mutex
  counts the threads that hold it or want it; a thread that finds the count different from 0 blocks on the block
  queue, and a thread that leaves wakes one when others are counted. The block queue is its
  specification \<open>bq_spec_call\<close>, which the queue of \<open>Block_Queue\<close> refines.
\<close>

section \<open>Operations\<close>

definition BMK_EBUSY :: int where "BMK_EBUSY = 16"

text \<open>
  The atomic instructions: the new counter and what follows. For \<^verbatim>\<open>rumpuser_mutex_enter\<close> whether the thread
  blocks, for \<^verbatim>\<open>rumpuser_mutex_exit\<close> whether it wakes another one. There are at most \<^verbatim>\<open>BMK_MAX_THREADS\<close>
  threads, each counted once, so that the 64-bit counter does not wrap on the way up.
\<close>

definition mutex_enter_add :: "nat \<Rightarrow> nat \<times> bool" where
  "mutex_enter_add counter = (counter + 1, counter \<noteq> 0)"

definition mutex_exit_sub :: "nat \<Rightarrow> nat \<times> bool" where
  "mutex_exit_sub counter = (if counter = 0 then 2 ^ 64 - 1 else counter - 1, counter \<noteq> 1)"

text \<open>
  \<^verbatim>\<open>rumpuser_mutex_tryenter\<close> and one round of \<^verbatim>\<open>rumpuser_mutex_enter_nowrap\<close>: the compare-and-exchange from 0 to 1.
\<close>

definition mutex_cas :: "nat \<Rightarrow> int \<times> nat" where
  "mutex_cas counter = (if counter \<noteq> 0 then (BMK_EBUSY, counter) else (0, 1))"

section \<open>The mutex as a transition system\<close>

text \<open>
  \<open>m_blocking\<close>: has counted itself and left for the scheduler, the callback has not run. \<open>m_woken\<close>: in a run
  queue. \<open>m_inside\<close>: holds the mutex. \<open>m_leaving\<close>: has counted itself out and is about to wake another
  thread. The threads of \<open>m_queue\<close> are off their CPUs.
\<close>

record mutex_state =
  m_counter :: nat
  m_queue :: bq
  m_blocking :: "nat set"
  m_woken :: "nat set"
  m_inside :: "nat set"
  m_leaving :: "nat set"

definition mutex_start :: mutex_state where
  "mutex_start = \<lparr>m_counter = 0, m_queue = Waiting [], m_blocking = {}, m_woken = {}, m_inside = {}, m_leaving = {}\<rparr>"

definition m_busy :: "mutex_state \<Rightarrow> nat set" where
  "m_busy s = m_blocking s \<union> set (bq_items (m_queue s)) \<union> m_woken s \<union> m_inside s \<union> m_leaving s"

inductive mutex_step :: "mutex_state \<Rightarrow> mutex_state \<Rightarrow> bool" where
  m_enter: "t \<notin> m_busy s \<Longrightarrow> mutex_enter_add (m_counter s) = (c, False) \<Longrightarrow>
    mutex_step s (s\<lparr>m_counter := c, m_inside := insert t (m_inside s)\<rparr>)"
| m_enter_block: "t \<notin> m_busy s \<Longrightarrow> mutex_enter_add (m_counter s) = (c, True) \<Longrightarrow>
    mutex_step s (s\<lparr>m_counter := c, m_blocking := insert t (m_blocking s)\<rparr>)"
| m_tryenter: "t \<notin> m_busy s \<Longrightarrow> mutex_cas (m_counter s) = (0, c) \<Longrightarrow>
    mutex_step s (s\<lparr>m_counter := c, m_inside := insert t (m_inside s)\<rparr>)"
| m_callback: "t \<in> m_blocking s \<Longrightarrow> bq_spec_call (Block t) (m_queue s) = (None, q) \<Longrightarrow>
    mutex_step s (s\<lparr>m_blocking := m_blocking s - {t}, m_queue := q\<rparr>)"
| m_callback_wake: "t \<in> m_blocking s \<Longrightarrow> bq_spec_call (Block t) (m_queue s) = (Some w, q) \<Longrightarrow>
    mutex_step s (s\<lparr>m_blocking := m_blocking s - {t}, m_queue := q, m_woken := insert w (m_woken s)\<rparr>)"
| m_resume: "t \<in> m_woken s \<Longrightarrow>
    mutex_step s (s\<lparr>m_woken := m_woken s - {t}, m_inside := insert t (m_inside s)\<rparr>)"
| m_exit: "t \<in> m_inside s \<Longrightarrow> mutex_exit_sub (m_counter s) = (c, False) \<Longrightarrow>
    mutex_step s (s\<lparr>m_counter := c, m_inside := m_inside s - {t}\<rparr>)"
| m_exit_wake: "t \<in> m_inside s \<Longrightarrow> mutex_exit_sub (m_counter s) = (c, True) \<Longrightarrow>
    mutex_step s (s\<lparr>m_counter := c, m_inside := m_inside s - {t}, m_leaving := insert t (m_leaving s)\<rparr>)"
| m_wake: "t \<in> m_leaving s \<Longrightarrow> bq_spec_call Wake (m_queue s) = (None, q) \<Longrightarrow>
    mutex_step s (s\<lparr>m_leaving := m_leaving s - {t}, m_queue := q\<rparr>)"
| m_wake_waiter: "t \<in> m_leaving s \<Longrightarrow> bq_spec_call Wake (m_queue s) = (Some w, q) \<Longrightarrow>
    mutex_step s (s\<lparr>m_leaving := m_leaving s - {t}, m_queue := q, m_woken := insert w (m_woken s)\<rparr>)"

section \<open>Invariant\<close>

text \<open>
  The counter is the number of threads that hold or want the mutex, and as long as it is not 0 there is
  exactly one right to enter: with the holder, with a woken thread, with a leaving thread, or stored in the
  queue.
\<close>

definition m_tokens :: "mutex_state \<Rightarrow> nat" where
  "m_tokens s = card (m_inside s) + card (m_woken s) + card (m_leaving s) + bq_count (m_queue s)"

definition m_waiters :: "mutex_state \<Rightarrow> nat" where
  "m_waiters s = card (m_inside s) + card (m_woken s) + card (m_blocking s) + length (bq_items (m_queue s))"

definition m_disjoint :: "mutex_state \<Rightarrow> bool" where
  "m_disjoint s \<longleftrightarrow> m_blocking s \<inter> m_woken s = {} \<and> m_blocking s \<inter> m_inside s = {} \<and> m_blocking s \<inter> m_leaving s = {} \<and>
     m_woken s \<inter> m_inside s = {} \<and> m_woken s \<inter> m_leaving s = {} \<and> m_inside s \<inter> m_leaving s = {} \<and>
     distinct (bq_items (m_queue s)) \<and>
     set (bq_items (m_queue s)) \<inter> (m_blocking s \<union> m_woken s \<union> m_inside s \<union> m_leaving s) = {}"

definition m_finite :: "mutex_state \<Rightarrow> bool" where
  "m_finite s \<longleftrightarrow> finite (m_blocking s) \<and> finite (m_woken s) \<and> finite (m_inside s) \<and> finite (m_leaving s)"

definition mutex_inv :: "mutex_state \<Rightarrow> bool" where
  "mutex_inv s \<longleftrightarrow> m_finite s \<and> m_disjoint s \<and> m_counter s = m_waiters s \<and>
     m_tokens s = (if m_counter s = 0 then 0 else 1)"

lemma bq_block_None:
  assumes "bq_spec_call (Block t) q = (None, q')"
  shows "bq_items q' = bq_items q @ [t]" "bq_count q' = 0" "bq_count q = 0"
  using assms by (cases q; auto simp: gr0_conv_Suc elim: bq_spec_call.elims)+

lemma bq_block_Some:
  assumes "bq_spec_call (Block t) q = (Some w, q')"
  shows "w = t" "bq_items q' = []" "bq_items q = []" "bq_count q = Suc (bq_count q')"
  using assms by (cases q; auto elim: bq_spec_call.elims)+

lemma bq_wake_None:
  assumes "bq_spec_call Wake q = (None, q')"
  shows "bq_items q' = []" "bq_items q = []" "bq_count q' = Suc (bq_count q)"
  using assms by (cases q; auto elim: bq_spec_call.elims)+

lemma bq_wake_Some:
  assumes "bq_spec_call Wake q = (Some w, q')"
  shows "bq_items q = w # bq_items q'" "bq_count q = 0" "bq_count q' = 0"
  using assms by (cases q; auto elim: bq_spec_call.elims)+

lemma mutex_invD:
  assumes "mutex_inv s"
  shows "finite (m_blocking s)" "finite (m_woken s)" "finite (m_inside s)" "finite (m_leaving s)"
    "m_counter s = m_waiters s" "m_tokens s = (if m_counter s = 0 then 0 else 1)" "m_disjoint s" "m_finite s"
  using assms by (simp_all add: mutex_inv_def m_finite_def)

lemmas m_counts = m_tokens_def m_waiters_def

lemma m_disjointD:
  assumes "m_disjoint s"
  shows "t \<in> m_blocking s \<Longrightarrow> t \<notin> m_woken s \<and> t \<notin> m_inside s \<and> t \<notin> m_leaving s \<and> t \<notin> set (bq_items (m_queue s))"
    "t \<in> m_woken s \<Longrightarrow> t \<notin> m_inside s \<and> t \<notin> m_leaving s \<and> t \<notin> set (bq_items (m_queue s))"
    "t \<in> m_inside s \<Longrightarrow> t \<notin> m_leaving s \<and> t \<notin> set (bq_items (m_queue s))"
    "t \<in> m_leaving s \<Longrightarrow> t \<notin> set (bq_items (m_queue s))" "distinct (bq_items (m_queue s))"
  using assms unfolding m_disjoint_def by blast+

lemma m_disjointI:
  assumes "\<And>t. t \<in> m_blocking s \<Longrightarrow> t \<notin> m_woken s \<and> t \<notin> m_inside s \<and> t \<notin> m_leaving s \<and> t \<notin> set (bq_items (m_queue s))"
    "\<And>t. t \<in> m_woken s \<Longrightarrow> t \<notin> m_inside s \<and> t \<notin> m_leaving s \<and> t \<notin> set (bq_items (m_queue s))"
    "\<And>t. t \<in> m_inside s \<Longrightarrow> t \<notin> m_leaving s \<and> t \<notin> set (bq_items (m_queue s))"
    "\<And>t. t \<in> m_leaving s \<Longrightarrow> t \<notin> set (bq_items (m_queue s))" "distinct (bq_items (m_queue s))"
  shows "m_disjoint s"
  using assms unfolding m_disjoint_def by blast

lemma card_move:
  "finite A \<Longrightarrow> t \<in> A \<Longrightarrow> \<exists>k. card A = Suc k \<and> card (A - {t}) = k" "finite A \<Longrightarrow> t \<notin> A \<Longrightarrow> card (insert t A) = Suc (card A)"
  by (metis card_Suc_Diff1) simp

text \<open>Tokens at the moment a thread is inside, woken or leaving.\<close>

lemma one_token:
  assumes "mutex_inv s" "t \<in> m_inside s \<or> t \<in> m_woken s \<or> t \<in> m_leaving s"
  shows "m_tokens s = 1" "m_counter s \<noteq> 0"
proof -
  have "0 < m_tokens s"
    using mutex_invD(2,3,4) [OF assms(1)] assms(2) by (auto simp: m_tokens_def card_gt_0_iff)
  then show "m_tokens s = 1" "m_counter s \<noteq> 0" using mutex_invD(6) [OF assms(1)] by (auto split: if_splits)
qed

lemma m_disjoint_step:
  assumes "mutex_step s s'" "m_disjoint s"
  shows "m_disjoint s'"
  using assms(1)
proof cases
  case (m_enter t c)
  then show ?thesis using m_disjointD [OF assms(2)] by (intro m_disjointI) (auto simp: m_busy_def)
next
  case (m_enter_block t c)
  then show ?thesis using m_disjointD [OF assms(2)] by (intro m_disjointI) (auto simp: m_busy_def)
next
  case (m_tryenter t c)
  then show ?thesis using m_disjointD [OF assms(2)] by (intro m_disjointI) (auto simp: m_busy_def)
next
  case (m_callback t q)
  then show ?thesis
    using m_disjointD [OF assms(2)] bq_block_None(1) [OF m_callback(3)] by (intro m_disjointI) auto
next
  case (m_callback_wake t w q)
  then show ?thesis
    using m_disjointD [OF assms(2)] bq_block_Some(1,2) [OF m_callback_wake(3)] by (intro m_disjointI) auto
next
  case (m_resume t)
  then show ?thesis using m_disjointD [OF assms(2)] by (intro m_disjointI) auto
next
  case (m_exit t c)
  then show ?thesis using m_disjointD [OF assms(2)] by (intro m_disjointI) auto
next
  case (m_exit_wake t c)
  then show ?thesis using m_disjointD [OF assms(2)] by (intro m_disjointI) auto
next
  case (m_wake t q)
  then show ?thesis
    using m_disjointD [OF assms(2)] bq_wake_None(1) [OF m_wake(3)] by (intro m_disjointI) auto
next
  case (m_wake_waiter t w q)
  then show ?thesis
    using m_disjointD [OF assms(2)] bq_wake_Some(1) [OF m_wake_waiter(3)] by (intro m_disjointI) auto
qed

lemma m_finite_step: "mutex_step s s' \<Longrightarrow> m_finite s \<Longrightarrow> m_finite s'"
  by (induction rule: mutex_step.induct) (simp_all add: m_finite_def)

text \<open>The two equations on the counter and the tokens.\<close>

lemma m_count_step:
  assumes "mutex_step s s'" "mutex_inv s"
  shows "m_counter s' = m_waiters s' \<and> m_tokens s' = (if m_counter s' = 0 then 0 else 1)"
  using assms(1)
proof cases
  case (m_enter t c)
  have "card (insert t (m_inside s)) = Suc (card (m_inside s))"
    using card_move(2) [OF mutex_invD(3) [OF assms(2)]] m_enter(2) by (simp add: m_busy_def)
  moreover have "m_counter s = 0" "c = 1" using m_enter(3) by (auto simp: mutex_enter_add_def)
  ultimately show ?thesis using m_enter(1) mutex_invD(5,6) [OF assms(2)] by (simp add: m_counts)
next
  case (m_enter_block t c)
  have "card (insert t (m_blocking s)) = Suc (card (m_blocking s))"
    using card_move(2) [OF mutex_invD(1) [OF assms(2)]] m_enter_block(2) by (simp add: m_busy_def)
  moreover have "m_counter s \<noteq> 0" "c = Suc (m_counter s)" using m_enter_block(3) by (auto simp: mutex_enter_add_def)
  ultimately show ?thesis using m_enter_block(1) mutex_invD(5,6) [OF assms(2)] by (simp add: m_counts)
next
  case (m_tryenter t c)
  have "card (insert t (m_inside s)) = Suc (card (m_inside s))"
    using card_move(2) [OF mutex_invD(3) [OF assms(2)]] m_tryenter(2) by (simp add: m_busy_def)
  moreover have "m_counter s = 0" "c = 1"
    using m_tryenter(3) by (auto simp: mutex_cas_def BMK_EBUSY_def split: if_splits)
  ultimately show ?thesis using m_tryenter(1) mutex_invD(5,6) [OF assms(2)] by (simp add: m_counts)
next
  case (m_callback t q)
  obtain k where k: "card (m_blocking s) = Suc k" "card (m_blocking s - {t}) = k"
    using card_move(1) [OF mutex_invD(1) [OF assms(2)] m_callback(2)] by blast
  show ?thesis
    using m_callback(1) k bq_block_None [OF m_callback(3)] mutex_invD(5,6) [OF assms(2)] by (simp add: m_counts)
next
  case (m_callback_wake t w q)
  obtain k where k: "card (m_blocking s) = Suc k" "card (m_blocking s - {t}) = k"
    using card_move(1) [OF mutex_invD(1) [OF assms(2)] m_callback_wake(2)] by blast
  have "card (insert t (m_woken s)) = Suc (card (m_woken s))"
    using card_move(2) [OF mutex_invD(2) [OF assms(2)]] m_disjointD(1) [OF mutex_invD(7) [OF assms(2)] m_callback_wake(2)] by blast
  then show ?thesis
    using m_callback_wake(1) k bq_block_Some [OF m_callback_wake(3)] mutex_invD(5,6) [OF assms(2)] by (simp add: m_counts)
next
  case (m_resume t)
  obtain k where k: "card (m_woken s) = Suc k" "card (m_woken s - {t}) = k"
    using card_move(1) [OF mutex_invD(2) [OF assms(2)] m_resume(2)] by blast
  have "card (insert t (m_inside s)) = Suc (card (m_inside s))"
    using card_move(2) [OF mutex_invD(3) [OF assms(2)]] m_disjointD(2) [OF mutex_invD(7) [OF assms(2)] m_resume(2)] by blast
  then show ?thesis using m_resume(1) k mutex_invD(5,6) [OF assms(2)] by (simp add: m_counts)
next
  case (m_exit t c)
  obtain k where k: "card (m_inside s) = Suc k" "card (m_inside s - {t}) = k"
    using card_move(1) [OF mutex_invD(3) [OF assms(2)] m_exit(2)] by blast
  have "m_counter s = 1" "c = 0" using m_exit(3) by (auto simp: mutex_exit_sub_def)
  then show ?thesis using m_exit(1) k mutex_invD(5,6) [OF assms(2)] by (simp add: m_counts)
next
  case (m_exit_wake t c)
  obtain k where k: "card (m_inside s) = Suc k" "card (m_inside s - {t}) = k"
    using card_move(1) [OF mutex_invD(3) [OF assms(2)] m_exit_wake(2)] by blast
  have "card (insert t (m_leaving s)) = Suc (card (m_leaving s))"
    using card_move(2) [OF mutex_invD(4) [OF assms(2)]] m_disjointD(3) [OF mutex_invD(7) [OF assms(2)] m_exit_wake(2)] by blast
  moreover have "m_counter s \<noteq> 1" "c = m_counter s - 1"
    using m_exit_wake(3) one_token(2) [OF assms(2) disjI1 [OF m_exit_wake(2)]] by (auto simp: mutex_exit_sub_def)
  ultimately show ?thesis
    using m_exit_wake(1) k mutex_invD(5,6) [OF assms(2)] by (auto simp: m_counts)
next
  case (m_wake t q)
  obtain k where k: "card (m_leaving s) = Suc k" "card (m_leaving s - {t}) = k"
    using card_move(1) [OF mutex_invD(4) [OF assms(2)] m_wake(2)] by blast
  show ?thesis
    using m_wake(1) k bq_wake_None [OF m_wake(3)] mutex_invD(5,6) [OF assms(2)] by (simp add: m_counts)
next
  case (m_wake_waiter t w q)
  obtain k where k: "card (m_leaving s) = Suc k" "card (m_leaving s - {t}) = k"
    using card_move(1) [OF mutex_invD(4) [OF assms(2)] m_wake_waiter(2)] by blast
  note q = bq_wake_Some [OF m_wake_waiter(3)]
  have "w \<in> set (bq_items (m_queue s))" by (simp add: q(1))
  then have "card (insert w (m_woken s)) = Suc (card (m_woken s))"
    using card_move(2) [OF mutex_invD(2) [OF assms(2)]] m_disjointD(2) [OF mutex_invD(7) [OF assms(2)], of w] by blast
  then show ?thesis
    using m_wake_waiter(1) k q mutex_invD(5,6) [OF assms(2)] by (simp add: m_counts)
qed

lemma mutex_inv_step: "mutex_step s s' \<Longrightarrow> mutex_inv s \<Longrightarrow> mutex_inv s'"
  unfolding mutex_inv_def [of s'] using m_count_step m_disjoint_step m_finite_step mutex_invD(7,8) by blast

lemma mutex_reach_inv: "mutex_step\<^sup>*\<^sup>* mutex_start s \<Longrightarrow> mutex_inv s"
proof (induction rule: rtranclp_induct)
  case base
  show ?case by (simp add: mutex_inv_def m_finite_def m_disjoint_def m_counts mutex_start_def)
qed (rule mutex_inv_step)

lemma mutex_progress:
  assumes "mutex_inv s" "m_counter s \<noteq> 0" "m_inside s = {}"
  obtains t where "t \<in> m_woken s" | t where "t \<in> m_leaving s" | t n where "t \<in> m_blocking s" "m_queue s = Pending (Suc n)"
proof (cases "m_woken s = {} \<and> m_leaving s = {}")
  case True
  then have "bq_count (m_queue s) = 1" using mutex_invD(6) [OF assms(1)] assms(2,3) by (simp add: m_tokens_def)
  then have q: "m_queue s = Pending (Suc 0)" by (cases "m_queue s") auto
  then have "card (m_blocking s) \<noteq> 0" using mutex_invD(5) [OF assms(1)] assms(2,3) True by (simp add: m_waiters_def)
  then show thesis using that(3) q by fastforce
qed (use that in blast)

text \<open>
  C19. A mutex excludes and does not get stuck: at most one thread is inside, the counter is the number of
  threads that hold or want it, and whenever it is not 0 and nobody is inside, the right to enter is on its way to
  a waiting thread by a step that can be taken at once, so no wake-up is lost even when it comes before the
  thread it is meant for has gone to sleep.
\<close>

theorem mutex_excludes_and_progresses:
  assumes "mutex_step\<^sup>*\<^sup>* mutex_start s"
  shows "card (m_inside s) \<le> 1 \<and> m_counter s = m_waiters s \<and>
    (m_counter s \<noteq> 0 \<and> m_inside s = {} \<longrightarrow> (\<exists>t s'. mutex_step s s' \<and>
       (t \<in> m_inside s' \<or> t \<in> m_woken s' \<and> t \<notin> m_woken s \<or> t \<in> m_leaving s \<and> t \<notin> m_leaving s')))"
proof -
  have inv: "mutex_inv s" by (rule mutex_reach_inv [OF assms])
  have "card (m_inside s) \<le> 1" using mutex_invD(6) [OF inv] by (simp add: m_tokens_def split: if_splits)
  moreover have "\<exists>t s'. mutex_step s s' \<and>
      (t \<in> m_inside s' \<or> t \<in> m_woken s' \<and> t \<notin> m_woken s \<or> t \<in> m_leaving s \<and> t \<notin> m_leaving s')"
    if "m_counter s \<noteq> 0" "m_inside s = {}"
  proof (rule mutex_progress [OF inv that])
    fix t assume "t \<in> m_woken s"
    then show ?thesis using m_resume [of t s] by fastforce
  next
    fix t assume t: "t \<in> m_leaving s"
    obtain w q where "bq_spec_call Wake (m_queue s) = (w, q)" by fastforce
    then show ?thesis using t m_wake [of t s q] m_wake_waiter [of t s _ q] by (cases w) fastforce+
  next
    fix t n assume t: "t \<in> m_blocking s" "m_queue s = Pending (Suc n)"
    then have "t \<notin> m_woken s" using m_disjointD(1) [OF mutex_invD(7) [OF inv]] by blast
    then show ?thesis using t m_callback_wake [of t s t "Pending n"] by fastforce
  qed
  ultimately show ?thesis using mutex_invD(5) [OF inv] by blast
qed

theorem mutex_excludes_and_progresses_witness:
  "\<exists>s. mutex_step\<^sup>*\<^sup>* mutex_start s \<and> m_inside s = {1} \<and> m_blocking s = {2} \<and> card (m_inside s) \<le> 1 \<and> m_counter s = 2"
proof -
  define s1 where "s1 = mutex_start\<lparr>m_counter := 1, m_inside := {1}\<rparr>"
  define s2 where "s2 = s1\<lparr>m_counter := 2, m_blocking := {2}\<rparr>"
  have "mutex_step mutex_start s1"
    using m_enter [of 1 mutex_start 1] by (simp add: s1_def mutex_start_def m_busy_def mutex_enter_add_def)
  moreover have "mutex_step s1 s2"
    using m_enter_block [of 2 s1 2] by (simp add: s2_def s1_def mutex_start_def m_busy_def mutex_enter_add_def)
  ultimately have r: "mutex_step\<^sup>*\<^sup>* mutex_start s2" by (meson rtranclp.rtrancl_into_rtrancl rtranclp.rtrancl_refl)
  have "card (m_inside s2) \<le> 1" using mutex_excludes_and_progresses [OF r] by blast
  then show ?thesis using r by (intro exI [of _ s2]) (simp add: s2_def s1_def)
qed

end
