(* ===== verification/Rwlock.thy ===== *)
theory Rwlock
  imports Mutex
begin

text \<open>
  The calls of \<^verbatim>\<open>lib/libbmk_rumpuser/rumpuser_synch.c\<close> on mutexes and reader/writer locks, each run from its
  beginning to its end. A call that has to wait for another thread is \<open>Inl NoReturn\<close>; what happens while
  several threads are inside calls is the subject of \<open>Mutex\<close> and \<open>Rw_Protocol\<close>.
\<close>

section \<open>Mutexes\<close>

text \<open>
  The flags \<^verbatim>\<open>RUMPUSER_MTX_SPIN\<close> and \<^verbatim>\<open>RUMPUSER_MTX_KMUTEX\<close> belong to the rump kernel interface and are
  parameters. Addresses and LWPs are numbers; no LWP is \<open>None\<close>.
\<close>

record mtx_consts =
  MTX_SPIN :: u32
  MTX_KMUTEX :: u32

record rumpuser_mtx =
  mtx_block :: bq
  mtx_counter :: nat
  mtx_owner :: "nat option"
  mtx_flags :: u32

text \<open>The argument \<open>p\<close> is the result of \<^verbatim>\<open>bmk_memalloc\<close>.\<close>

definition rumpuser_mutex_init :: "nat \<Rightarrow> u32 \<Rightarrow> rumpuser_mtx res" where
  "rumpuser_mutex_init p flags =
     (if p = 0 then Inl (Halt ''cannot allocate a mutex'')
      else Inr \<lparr>mtx_block = Waiting [], mtx_counter = 0, mtx_owner = None, mtx_flags = flags\<rparr>)"

definition rumpuser_mutex_spin_p :: "mtx_consts \<Rightarrow> rumpuser_mtx \<Rightarrow> bool" where
  "rumpuser_mutex_spin_p k mtx \<longleftrightarrow> mtx_flags mtx AND MTX_SPIN k \<noteq> 0"

definition rumpuser_mutex_enter_nowrap :: "nat option \<Rightarrow> rumpuser_mtx \<Rightarrow> rumpuser_mtx res" where
  "rumpuser_mutex_enter_nowrap lwp mtx =
     (case mutex_cas (mtx_counter mtx) of (rc, counter) \<Rightarrow>
        if rc \<noteq> 0 then Inl NoReturn else Inr (mtx\<lparr>mtx_counter := counter, mtx_owner := lwp\<rparr>))"

definition rumpuser_mutex_enter :: "mtx_consts \<Rightarrow> nat option \<Rightarrow> rumpuser_mtx \<Rightarrow> rumpuser_mtx res" where
  "rumpuser_mutex_enter k lwp mtx =
     (if mtx_flags mtx AND MTX_SPIN k \<noteq> 0 then rumpuser_mutex_enter_nowrap lwp mtx
      else bindE (assertE ''mtx->flags & RUMPUSER_MTX_KMUTEX'' (mtx_flags mtx AND MTX_KMUTEX k \<noteq> 0)) (\<lambda>_.
        case mutex_enter_add (mtx_counter mtx) of (counter, blocks) \<Rightarrow>
          if blocks then Inl NoReturn
          else Inr (mtx\<lparr>mtx_counter := counter, mtx_owner := lwp\<rparr>)))"

definition rumpuser_mutex_tryenter :: "nat option \<Rightarrow> rumpuser_mtx \<Rightarrow> int \<times> rumpuser_mtx" where
  "rumpuser_mutex_tryenter lwp mtx =
     (case mutex_cas (mtx_counter mtx) of (rc, counter) \<Rightarrow>
        if rc \<noteq> 0 then (rc, mtx) else (0, mtx\<lparr>mtx_counter := counter, mtx_owner := lwp\<rparr>))"

text \<open>With the thread that the call wakes, if any.\<close>

definition rumpuser_mutex_exit :: "rumpuser_mtx \<Rightarrow> nat option \<times> rumpuser_mtx" where
  "rumpuser_mutex_exit mtx =
     (case mutex_exit_sub (mtx_counter mtx) of (counter, wakes) \<Rightarrow>
        let mtx = mtx\<lparr>mtx_owner := None, mtx_counter := counter\<rparr> in
        if wakes then (case bq_spec_call Wake (mtx_block mtx) of (w, q) \<Rightarrow> (w, mtx\<lparr>mtx_block := q\<rparr>))
        else (None, mtx))"

text \<open>The node of the block queue and the memory are given back, which leaves nothing of the mutex.\<close>

definition rumpuser_mutex_destroy :: "rumpuser_mtx \<Rightarrow> unit res" where
  "rumpuser_mutex_destroy mtx = assertE ''mtx->owner == NULL'' (mtx_owner mtx = None)"

definition rumpuser_mutex_owner :: "rumpuser_mtx \<Rightarrow> nat option" where
  "rumpuser_mutex_owner mtx = mtx_owner mtx"

section \<open>The LWP of a thread\<close>

datatype rumplwpop = RUMPUSER_LWP_CREATE | RUMPUSER_LWP_DESTROY | RUMPUSER_LWP_SET | RUMPUSER_LWP_CLEAR

text \<open>On \<^verbatim>\<open>current_lwp\<close>, the thread-local variable that \<^verbatim>\<open>rumpuser_curlwp\<close> reads.\<close>

definition rumpuser_curlwpop :: "rumplwpop \<Rightarrow> nat option \<Rightarrow> nat option \<Rightarrow> nat option res" where
  "rumpuser_curlwpop op l current_lwp =
     (case op of
        RUMPUSER_LWP_SET \<Rightarrow> bindE (assertE ''current_lwp == NULL'' (current_lwp = None)) (\<lambda>_. Inr l)
      | RUMPUSER_LWP_CLEAR \<Rightarrow> bindE (assertE ''current_lwp == l'' (current_lwp = l)) (\<lambda>_. Inr None)
      | _ \<Rightarrow> Inr current_lwp)"

lemma curlwp_set_clear: "bindE (rumpuser_curlwpop RUMPUSER_LWP_SET l None) (rumpuser_curlwpop RUMPUSER_LWP_CLEAR l) = Inr None"
  by (simp add: rumpuser_curlwpop_def)

section \<open>Reader/writer locks\<close>

datatype lock_rw_type = LOCK_RW_UNKNOWN | LOCK_RW_WRITER | LOCK_RW_READER
datatype rumprwlock = RUMPUSER_RW_READER | RUMPUSER_RW_WRITER

record rumpuser_rw =
  access_mtx :: rumpuser_mtx
  wait_mtx :: rumpuser_mtx
  readers :: u64
  rw_type :: lock_rw_type

definition rumpuser_rw_init :: "mtx_consts \<Rightarrow> nat \<Rightarrow> nat \<Rightarrow> nat \<Rightarrow> rumpuser_rw res" where
  "rumpuser_rw_init k p pa pw =
     (if p = 0 then Inl (Halt ''cannot allocate a RW lock'')
      else bindE (rumpuser_mutex_init pa (MTX_KMUTEX k)) (\<lambda>a.
        bindE (rumpuser_mutex_init pw (MTX_KMUTEX k)) (\<lambda>w.
        Inr \<lparr>access_mtx = a, wait_mtx = w, readers = 0, rw_type = LOCK_RW_UNKNOWN\<rparr>)))"

text \<open>\<^verbatim>\<open>rumpuser_mutex_exit(rw->wait_mtx)\<close> and \<^verbatim>\<open>rumpuser_mutex_exit(rw->access_mtx)\<close>.\<close>

definition exit_wait :: "rumpuser_rw \<Rightarrow> nat option \<times> rumpuser_rw" where
  "exit_wait rw = (case rumpuser_mutex_exit (wait_mtx rw) of (w, m) \<Rightarrow> (w, rw\<lparr>wait_mtx := m\<rparr>))"

definition exit_access :: "rumpuser_rw \<Rightarrow> nat option \<times> rumpuser_rw" where
  "exit_access rw = (case rumpuser_mutex_exit (access_mtx rw) of (w, m) \<Rightarrow> (w, rw\<lparr>access_mtx := m\<rparr>))"

definition rumpuser_rw_enter ::
  "mtx_consts \<Rightarrow> nat option \<Rightarrow> rumprwlock \<Rightarrow> rumpuser_rw \<Rightarrow> (nat option \<times> rumpuser_rw) res" where
  "rumpuser_rw_enter k lwp type rw =
     bindE (rumpuser_mutex_enter k lwp (wait_mtx rw)) (\<lambda>w.
     let rw = rw\<lparr>wait_mtx := w\<rparr> in
     bindE (case type of
         RUMPUSER_RW_WRITER \<Rightarrow>
           bindE (rumpuser_mutex_enter k lwp (access_mtx rw)) (\<lambda>a.
           Inr (rw\<lparr>access_mtx := a, rw_type := LOCK_RW_WRITER\<rparr>))
       | RUMPUSER_RW_READER \<Rightarrow>
           let r = readers rw; rw = rw\<lparr>readers := r + 1\<rparr> in
           if r = 0
           then bindE (rumpuser_mutex_enter k lwp (access_mtx rw)) (\<lambda>a.
             Inr (rw\<lparr>access_mtx := a, rw_type := LOCK_RW_READER\<rparr>))
           else Inr rw) (\<lambda>rw.
     Inr (exit_wait rw)))"

text \<open>
  The loop of \<^verbatim>\<open>rumpuser_rw_tryenter\<close>; \<open>r\<close> is the local variable \<^verbatim>\<open>readers\<close>, which a failing
  compare-and-exchange sets to the value it has found.
\<close>

partial_function (option) tryenter_loop ::
  "nat option \<Rightarrow> u64 \<Rightarrow> rumpuser_rw \<Rightarrow> (int \<times> rumpuser_rw) option" where
  "tryenter_loop lwp r rw =
     (case (if r = 0
            then (case rumpuser_mutex_tryenter lwp (access_mtx rw) of (rc, a) \<Rightarrow>
                    if rc \<noteq> 0 then (rc, rw)
                    else (0, rw\<lparr>access_mtx := a, readers := 1, rw_type := LOCK_RW_READER\<rparr>))
            else (0, rw)) of (rc, rw) \<Rightarrow>
      if rc \<noteq> 0 then Some (rc, rw)
      else if readers rw = r then Some (0, rw\<lparr>readers := r + 1\<rparr>)
      else tryenter_loop lwp (readers rw) rw)"

declare tryenter_loop.simps [code]

definition rumpuser_rw_tryenter ::
  "nat option \<Rightarrow> rumprwlock \<Rightarrow> rumpuser_rw \<Rightarrow> (int \<times> nat option \<times> rumpuser_rw) res" where
  "rumpuser_rw_tryenter lwp type rw =
     (case rumpuser_mutex_tryenter lwp (wait_mtx rw) of (rc, w) \<Rightarrow>
      if rc \<noteq> 0 then Inr (rc, None, rw)
      else
        let rw = rw\<lparr>wait_mtx := w\<rparr> in
        bindE (case type of
            RUMPUSER_RW_WRITER \<Rightarrow>
              (case rumpuser_mutex_tryenter lwp (access_mtx rw) of (rc, a) \<Rightarrow>
                 Inr (if rc \<noteq> 0 then (rc, rw) else (0, rw\<lparr>access_mtx := a, rw_type := LOCK_RW_WRITER\<rparr>)))
          | RUMPUSER_RW_READER \<Rightarrow> loopE (tryenter_loop lwp (readers rw) rw)) (\<lambda>(rc, rw).
        Inr (rc, exit_wait rw)))"

definition rumpuser_rw_exit :: "rumpuser_rw \<Rightarrow> nat option \<times> rumpuser_rw" where
  "rumpuser_rw_exit rw =
     (if rw_type rw = LOCK_RW_WRITER then exit_access (rw\<lparr>rw_type := LOCK_RW_UNKNOWN\<rparr>)
      else
        let r = readers rw; rw = rw\<lparr>readers := r - 1\<rparr> in
        if r = 1 then exit_access (rw\<lparr>rw_type := LOCK_RW_UNKNOWN\<rparr>) else (None, rw))"

definition rumpuser_rw_destroy :: "rumpuser_rw \<Rightarrow> unit res" where
  "rumpuser_rw_destroy rw =
     bindE (rumpuser_mutex_destroy (wait_mtx rw)) (\<lambda>_. rumpuser_mutex_destroy (access_mtx rw))"

definition rumpuser_rw_held :: "rumprwlock \<Rightarrow> rumpuser_rw \<Rightarrow> bool" where
  "rumpuser_rw_held type rw =
     (case type of RUMPUSER_RW_WRITER \<Rightarrow> rw_type rw = LOCK_RW_WRITER
      | RUMPUSER_RW_READER \<Rightarrow> rw_type rw = LOCK_RW_READER)"

definition rumpuser_rw_downgrade :: "rumpuser_rw \<Rightarrow> nat option \<times> rumpuser_rw" where
  "rumpuser_rw_downgrade rw =
     (let r = readers rw; rw = rw\<lparr>rw_type := LOCK_RW_READER, readers := r + 1\<rparr> in
      if r \<noteq> 0 then exit_access rw else (None, rw))"

definition rumpuser_rw_tryupgrade :: "rumpuser_rw \<Rightarrow> int \<times> rumpuser_rw" where
  "rumpuser_rw_tryupgrade rw =
     (if readers rw = 1 then (0, rw\<lparr>readers := 0, rw_type := LOCK_RW_WRITER\<rparr>) else (BMK_EBUSY, rw))"

section \<open>Who holds the lock\<close>

datatype rw_holders = Free | Readers nat | Writer

definition consts_ok :: "mtx_consts \<Rightarrow> bool" where
  "consts_ok k \<longleftrightarrow> MTX_KMUTEX k \<noteq> 0 \<and> MTX_KMUTEX k AND MTX_SPIN k = 0"

definition mtx_free :: "mtx_consts \<Rightarrow> rumpuser_mtx \<Rightarrow> bool" where
  "mtx_free k m \<longleftrightarrow> mtx_counter m = 0 \<and> mtx_owner m = None \<and> mtx_flags m = MTX_KMUTEX k"

definition mtx_held :: "mtx_consts \<Rightarrow> rumpuser_mtx \<Rightarrow> bool" where
  "mtx_held k m \<longleftrightarrow> mtx_counter m = 1 \<and> mtx_flags m = MTX_KMUTEX k"

definition rw_rep :: "mtx_consts \<Rightarrow> rw_holders \<Rightarrow> rumpuser_rw \<Rightarrow> bool" where
  "rw_rep k h rw \<longleftrightarrow> consts_ok k \<and> mtx_free k (wait_mtx rw) \<and>
     (case h of
        Free \<Rightarrow> mtx_free k (access_mtx rw) \<and> readers rw = 0 \<and> rw_type rw = LOCK_RW_UNKNOWN
      | Readers n \<Rightarrow> mtx_held k (access_mtx rw) \<and> 0 < n \<and> n < 2 ^ 64 \<and> readers rw = word_of_nat n \<and> rw_type rw = LOCK_RW_READER
      | Writer \<Rightarrow> mtx_held k (access_mtx rw) \<and> readers rw = 0 \<and> rw_type rw = LOCK_RW_WRITER)"

text \<open>What entering should do; \<open>None\<close> means that the caller has to wait.\<close>

fun spec_rw_enter :: "rumprwlock \<Rightarrow> rw_holders \<Rightarrow> rw_holders option" where
  "spec_rw_enter RUMPUSER_RW_WRITER Free = Some Writer"
| "spec_rw_enter RUMPUSER_RW_READER Free = Some (Readers 1)"
| "spec_rw_enter RUMPUSER_RW_READER (Readers n) = Some (Readers (Suc n))"
| "spec_rw_enter t h = None"

fun spec_rw_exit :: "rw_holders \<Rightarrow> rw_holders" where
  "spec_rw_exit (Readers n) = (if n = 1 then Free else Readers (n - 1))"
| "spec_rw_exit h = Free"

lemmas mtx_ops = rumpuser_mutex_enter_def rumpuser_mutex_enter_nowrap_def rumpuser_mutex_exit_def rumpuser_mutex_tryenter_def
  mutex_enter_add_def mutex_exit_sub_def mutex_cas_def mtx_free_def mtx_held_def consts_ok_def BMK_EBUSY_def

lemmas rw_ops = rumpuser_rw_enter_def rumpuser_rw_exit_def rumpuser_rw_downgrade_def rumpuser_rw_tryupgrade_def
  rumpuser_rw_tryenter_def exit_wait_def exit_access_def

lemma mtx_enter_free [simp]:
  "consts_ok k \<Longrightarrow> mtx_free k m \<Longrightarrow> rumpuser_mutex_enter k lwp m = Inr (m\<lparr>mtx_counter := 1, mtx_owner := lwp\<rparr>)"
  by (simp add: mtx_ops)

lemma mtx_enter_held [simp]: "consts_ok k \<Longrightarrow> mtx_held k m \<Longrightarrow> rumpuser_mutex_enter k lwp m = Inl NoReturn"
  by (simp add: mtx_ops)

lemma mtx_try_free [simp]: "mtx_free k m \<Longrightarrow> rumpuser_mutex_tryenter lwp m = (0, m\<lparr>mtx_counter := 1, mtx_owner := lwp\<rparr>)"
  by (simp add: mtx_ops)

lemma mtx_try_held [simp]: "mtx_held k m \<Longrightarrow> rumpuser_mutex_tryenter lwp m = (BMK_EBUSY, m)"
  by (simp add: mtx_ops)

lemma mtx_exit_held [simp]: "mtx_held k m \<Longrightarrow> rumpuser_mutex_exit m = (None, m\<lparr>mtx_owner := None, mtx_counter := 0\<rparr>)"
  by (simp add: mtx_ops)

lemma mtx_held_upd [simp]: "mtx_free k m \<Longrightarrow> mtx_held k (m\<lparr>mtx_counter := 1, mtx_owner := lwp\<rparr>)"
  "mtx_free k m \<Longrightarrow> mtx_held k (m\<lparr>mtx_counter := Suc 0, mtx_owner := lwp\<rparr>)"
  by (simp_all add: mtx_ops)

lemma mtx_free_upd [simp]: "mtx_held k m \<Longrightarrow> mtx_free k (m\<lparr>mtx_owner := None, mtx_counter := 0\<rparr>)"
  "mtx_free k m \<Longrightarrow> m\<lparr>mtx_counter := 0, mtx_owner := None\<rparr> = m"
  by (simp_all add: mtx_ops)

lemma mtx_exit_entered [simp]:
  "mtx_free k m \<Longrightarrow> rumpuser_mutex_exit (m\<lparr>mtx_counter := Suc 0, mtx_owner := lwp\<rparr>) = (None, m)"
  by (simp add: mtx_ops)

lemma readers_0: "0 < n \<Longrightarrow> n < 2 ^ 64 \<Longrightarrow> word_of_nat n \<noteq> (0 :: u64)"
  by (simp add: word_of_nat_eq_0_iff nat_dvd_not_less)

lemma readers_1:
  assumes "0 < n" "n < 2 ^ 64"
  shows "word_of_nat n = (1 :: u64) \<longleftrightarrow> n = 1"
proof
  assume "word_of_nat n = (1 :: u64)"
  then have "unat (word_of_nat n :: u64) = 1" by simp
  then show "n = 1" using assms(2) by (simp add: unsigned_of_nat take_bit_nat_eq_self)
qed simp

lemma rw_repD:
  assumes "rw_rep k h rw"
  shows "consts_ok k" "mtx_free k (wait_mtx rw)" "h = Free \<Longrightarrow> mtx_free k (access_mtx rw)"
    "h \<noteq> Free \<Longrightarrow> mtx_held k (access_mtx rw)"
  using assms by (auto simp: rw_rep_def split: rw_holders.splits)

lemma rw_enter_ok:
  assumes "rw_rep k h rw" "\<And>n. h = Readers n \<Longrightarrow> Suc n < 2 ^ 64"
  shows "case spec_rw_enter type h of
      Some h' \<Rightarrow> \<exists>rw'. rumpuser_rw_enter k lwp type rw = Inr (None, rw') \<and> rw_rep k h' rw'
    | None \<Rightarrow> rumpuser_rw_enter k lwp type rw = Inl NoReturn"
proof (cases h)
  case (Readers n)
  then have "readers rw \<noteq> 0" using assms(1) readers_0 [of n] by (simp add: rw_rep_def)
  then show ?thesis using assms Readers rw_repD [OF assms(1)]
    by (cases type) (auto simp: rw_ops Let_def rw_rep_def)
qed (use assms rw_repD [OF assms(1)] in \<open>cases type; auto simp: rw_ops Let_def rw_rep_def\<close>)+

lemma rw_exit_ok:
  assumes "rw_rep k h rw" "h \<noteq> Free"
  shows "\<exists>rw'. rumpuser_rw_exit rw = (None, rw') \<and> rw_rep k (spec_rw_exit h) rw'"
proof (cases h)
  case (Readers n)
  then have n: "0 < n" "n < 2 ^ 64" using assms(1) by (simp_all add: rw_rep_def)
  have "word_of_nat n - 1 = (word_of_nat (n - 1) :: u64)" using n(1) by (simp add: of_nat_diff)
  then show ?thesis using assms(1) Readers readers_1 [OF n] n rw_repD(4) [OF assms]
    by (auto simp: rw_ops rw_rep_def Let_def)
qed (use assms rw_repD(4) [OF assms] in \<open>auto simp: rw_ops rw_rep_def\<close>)

text \<open>A try by a reader on a free lock is left out here.\<close>

lemma rw_tryenter_ok:
  assumes "rw_rep k h rw" "\<And>n. h = Readers n \<Longrightarrow> Suc n < 2 ^ 64" "h \<noteq> Free \<or> type = RUMPUSER_RW_WRITER"
  shows "case spec_rw_enter type h of
      Some h' \<Rightarrow> \<exists>rw'. rumpuser_rw_tryenter lwp type rw = Inr (0, None, rw') \<and> rw_rep k h' rw'
    | None \<Rightarrow> rumpuser_rw_tryenter lwp type rw = Inr (BMK_EBUSY, None, rw)"
proof (cases h)
  case (Readers n)
  then have "readers rw \<noteq> 0" using assms(1) readers_0 [of n] by (simp add: rw_rep_def)
  then show ?thesis using assms Readers rw_repD [OF assms(1)]
    by (cases type) (auto simp: rw_ops Let_def rw_rep_def BMK_EBUSY_def tryenter_loop.simps)
qed (use assms rw_repD [OF assms(1)] in \<open>cases type; auto simp: rw_ops Let_def rw_rep_def BMK_EBUSY_def tryenter_loop.simps\<close>)+

definition rw_demo_consts :: mtx_consts where
  "rw_demo_consts = \<lparr>MTX_SPIN = 1, MTX_KMUTEX = 2\<rparr>"

definition rw_demo :: rumpuser_rw where
  "rw_demo = (case rumpuser_rw_init rw_demo_consts 1 2 3 of Inr rw \<Rightarrow> rw)"

lemma rw_init_rep: "consts_ok k \<Longrightarrow> p \<noteq> 0 \<Longrightarrow> pa \<noteq> 0 \<Longrightarrow> pw \<noteq> 0 \<Longrightarrow> \<exists>rw. rumpuser_rw_init k p pa pw = Inr rw \<and> rw_rep k Free rw"
  by (simp add: rumpuser_rw_init_def rumpuser_mutex_init_def rw_rep_def mtx_free_def)

lemma rw_demo_rep: "rw_rep rw_demo_consts Free rw_demo"
  by (simp add: rw_demo_def rumpuser_rw_init_def rumpuser_mutex_init_def rw_rep_def mtx_free_def consts_ok_def rw_demo_consts_def)



text \<open>
  C24. A reader that takes a free lock with \<^verbatim>\<open>rumpuser_rw_tryenter\<close> is counted twice: the store of 1 makes the
  compare-and-exchange from 0 fail, and the next round of the loop counts the reader again. When it
  leaves, the lock still shows a reader and the access mutex stays held, so that every later writer waits for
  ever or gets \<^verbatim>\<open>BMK_EBUSY\<close>.
\<close>

theorem rw_tryenter_counts_twice:
  assumes "rw_rep k Free rw"
  shows "\<exists>rw1 rw2. rumpuser_rw_tryenter lwp RUMPUSER_RW_READER rw = Inr (0, None, rw1) \<and> readers rw1 = 2 \<and>
     rumpuser_rw_exit rw1 = (None, rw2) \<and> rw_rep k (Readers 1) rw2 \<and>
     rumpuser_rw_enter k lwp' RUMPUSER_RW_WRITER rw2 = Inl NoReturn \<and>
     rumpuser_rw_tryenter lwp' RUMPUSER_RW_WRITER rw2 = Inr (BMK_EBUSY, None, rw2)"
proof -
  let ?a = "(access_mtx rw)\<lparr>mtx_counter := 1, mtx_owner := lwp\<rparr>"
  define rw1 where "rw1 = rw\<lparr>access_mtx := ?a, readers := 2, rw_type := LOCK_RW_READER\<rparr>"
  define rw2 where "rw2 = rw1\<lparr>readers := 1\<rparr>"
  note free = rw_repD(1,2,3) [OF assms]
  have z: "readers rw = 0" using assms by (simp add: rw_rep_def)
  have "rumpuser_rw_tryenter lwp RUMPUSER_RW_READER rw = Inr (0, None, rw1)"
    using free z by (simp add: rumpuser_rw_tryenter_def exit_wait_def tryenter_loop.simps rw1_def)
  moreover have "rumpuser_rw_exit rw1 = (None, rw2)" by (simp add: rumpuser_rw_exit_def rw1_def rw2_def)
  moreover have rep: "rw_rep k (Readers 1) rw2" using free by (simp add: rw_rep_def rw2_def rw1_def)
  moreover have "rumpuser_rw_enter k lwp' RUMPUSER_RW_WRITER rw2 = Inl NoReturn"
    using rw_enter_ok [OF rep, where type = RUMPUSER_RW_WRITER and lwp = lwp'] by simp
  moreover have "rumpuser_rw_tryenter lwp' RUMPUSER_RW_WRITER rw2 = Inr (BMK_EBUSY, None, rw2)"
    using rw_tryenter_ok [OF rep, where type = RUMPUSER_RW_WRITER and lwp = lwp'] by simp
  ultimately show ?thesis by (auto simp: rw1_def)
qed

theorem rw_tryenter_counts_twice_witness:
  "\<exists>rw1. rumpuser_rw_tryenter (Some 7) RUMPUSER_RW_READER rw_demo = Inr (0, None, rw1) \<and> readers rw1 = 2"
  using rw_tryenter_counts_twice [OF rw_demo_rep] by blast

end
