(* ===== verification/Rw_Protocol.thy ===== *)
theory Rw_Protocol
  imports Main
begin

text \<open>
  The reader/writer locks of \<^verbatim>\<open>lib/libbmk_rumpuser/rumpuser_synch.c\<close> under every interleaving. Each thread has a
  program point; each step is one atomic access to \<^verbatim>\<open>readers\<close> or \<^verbatim>\<open>type\<close>, or the completion of a call of one
  of the two mutexes. A mutex is free or held, which is what the theorem on mutexes shows of the counter and
  its block queue. A reader's \<^verbatim>\<open>rumpuser_rw_tryenter\<close> is left to the sequential model, where it is shown to
  count twice.
\<close>

section \<open>Program points\<close>

text \<open>
  In \<^verbatim>\<open>rumpuser_rw_enter\<close>: \<open>Rd_wait\<close> and \<open>Wr_wait\<close> hold the wait mutex, \<open>Rd_access\<close> has counted itself as the
  first reader and wants the access mutex, \<open>Rd_type\<close> and \<open>Wr_type\<close> hold it and are about to store the type,
  \<open>Rd_unwait\<close> and \<open>Wr_unwait\<close> are about to release the wait mutex; \<open>Wr_fail\<close> is a writer's try that fails.
  \<open>Ex_sub\<close>, \<open>Ex_type\<close> and \<open>Ex_release\<close> are in \<^verbatim>\<open>rumpuser_rw_exit\<close>, \<open>Dg_add\<close> and \<open>Dg_release\<close> in
  \<^verbatim>\<open>rumpuser_rw_downgrade\<close>, \<open>Ug_type\<close> in \<^verbatim>\<open>rumpuser_rw_tryupgrade\<close>.
\<close>

datatype rw_pc = Out | Rd_want | Wr_want | Rd_wait | Wr_wait | Wr_try | Wr_fail | Rd_access | Rd_type | Wr_type
  | Rd_unwait | Wr_unwait | Rd_hold | Wr_hold | Ex_sub | Ex_type | Ex_release | Dg_add | Dg_release | Ug_type

datatype rw_kind = Kind_unknown | Kind_writer | Kind_reader

record rw_state =
  rw_pcs :: "nat \<Rightarrow> rw_pc"
  rw_waiting :: bool
  rw_access :: bool
  rw_readers :: nat
  rw_kind :: rw_kind

definition rw_start :: rw_state where
  "rw_start = \<lparr>rw_pcs = (\<lambda>t. Out), rw_waiting = False, rw_access = False, rw_readers = 0, rw_kind = Kind_unknown\<rparr>"

definition goto :: "nat \<Rightarrow> rw_pc \<Rightarrow> rw_state \<Rightarrow> rw_state" where
  "goto t p s = s\<lparr>rw_pcs := (rw_pcs s)(t := p)\<rparr>"

section \<open>Steps\<close>

text \<open>What the thread \<open>t\<close> can do at its program point; an empty list when it has to wait.\<close>

definition rw_next :: "nat \<Rightarrow> rw_state \<Rightarrow> rw_state list" where
  "rw_next t s = (case rw_pcs s t of
     Out \<Rightarrow> [goto t Rd_want s, goto t Wr_want s] @ (if rw_waiting s then [] else [goto t Wr_try (s\<lparr>rw_waiting := True\<rparr>)])
   | Rd_want \<Rightarrow> if rw_waiting s then [] else [goto t Rd_wait (s\<lparr>rw_waiting := True\<rparr>)]
   | Wr_want \<Rightarrow> if rw_waiting s then [] else [goto t Wr_wait (s\<lparr>rw_waiting := True\<rparr>)]
   | Wr_wait \<Rightarrow> if rw_access s then [] else [goto t Wr_type (s\<lparr>rw_access := True\<rparr>)]
   | Wr_try \<Rightarrow> if rw_access s then [goto t Wr_fail s] else [goto t Wr_type (s\<lparr>rw_access := True\<rparr>)]
   | Wr_fail \<Rightarrow> [goto t Out (s\<lparr>rw_waiting := False\<rparr>)]
   | Wr_type \<Rightarrow> [goto t Wr_unwait (s\<lparr>rw_kind := Kind_writer\<rparr>)]
   | Wr_unwait \<Rightarrow> [goto t Wr_hold (s\<lparr>rw_waiting := False\<rparr>)]
   | Rd_wait \<Rightarrow> [goto t (if rw_readers s = 0 then Rd_access else Rd_unwait) (s\<lparr>rw_readers := rw_readers s + 1\<rparr>)]
   | Rd_access \<Rightarrow> if rw_access s then [] else [goto t Rd_type (s\<lparr>rw_access := True\<rparr>)]
   | Rd_type \<Rightarrow> [goto t Rd_unwait (s\<lparr>rw_kind := Kind_reader\<rparr>)]
   | Rd_unwait \<Rightarrow> [goto t Rd_hold (s\<lparr>rw_waiting := False\<rparr>)]
   | Rd_hold \<Rightarrow> [goto t (if rw_kind s = Kind_writer then Ex_type else Ex_sub) s,
                 if rw_readers s = 1 then goto t Ug_type (s\<lparr>rw_readers := 0\<rparr>) else s]
   | Wr_hold \<Rightarrow> [goto t (if rw_kind s = Kind_writer then Ex_type else Ex_sub) s,
                 goto t Dg_add (s\<lparr>rw_kind := Kind_reader\<rparr>)]
   | Ex_sub \<Rightarrow> [goto t (if rw_readers s = 1 then Ex_type else Out) (s\<lparr>rw_readers := rw_readers s - 1\<rparr>)]
   | Ex_type \<Rightarrow> [goto t Ex_release (s\<lparr>rw_kind := Kind_unknown\<rparr>)]
   | Ex_release \<Rightarrow> [goto t Out (s\<lparr>rw_access := False\<rparr>)]
   | Dg_add \<Rightarrow> [goto t (if rw_readers s \<noteq> 0 then Dg_release else Rd_hold) (s\<lparr>rw_readers := rw_readers s + 1\<rparr>)]
   | Dg_release \<Rightarrow> [goto t Rd_hold (s\<lparr>rw_access := False\<rparr>)]
   | Ug_type \<Rightarrow> [goto t Wr_hold (s\<lparr>rw_kind := Kind_writer\<rparr>)])"

inductive rw_step :: "rw_state \<Rightarrow> rw_state \<Rightarrow> bool" where
  rw_stepI: "s' \<in> set (rw_next t s) \<Longrightarrow> rw_step s s'"

section \<open>Counting threads\<close>

text \<open>
  The counts of a state are those of the other threads with the point of one thread added, so that a move of that
  thread exchanges one point for another.
\<close>

definition bump :: "rw_pc \<Rightarrow> (rw_pc \<Rightarrow> nat) \<Rightarrow> rw_pc \<Rightarrow> nat" where
  "bump p c = (if p = Out then c else c(p := Suc (c p)))"

definition count_pcs :: "nat set \<Rightarrow> (nat \<Rightarrow> rw_pc) \<Rightarrow> rw_pc \<Rightarrow> nat" where
  "count_pcs T f p = (if p = Out then 0 else card {t\<in>T. f t = p})"

definition rw_finite :: "(nat \<Rightarrow> rw_pc) \<Rightarrow> bool" where
  "rw_finite f \<longleftrightarrow> finite {t. f t \<noteq> Out}"

lemma rw_finite_upd: "rw_finite f \<Longrightarrow> rw_finite (f(t := p))"
  unfolding rw_finite_def by (rule finite_subset [of _ "insert t {u. f u \<noteq> Out}"]) auto

lemma count_pcs_split:
  assumes "rw_finite f"
  shows "count_pcs UNIV (f(t := p)) = bump p (count_pcs (- {t}) f)"
proof
  fix q
  define B where "B = {u\<in>- {t}. f u = q}"
  have fin: "finite B" if "q \<noteq> Out"
    unfolding B_def by (rule finite_subset [OF _ assms [unfolded rw_finite_def]]) (use that in auto)
  have 1: "count_pcs UNIV (f(t := p)) q = (if q = Out then 0 else card (if q = p then insert t B else B))"
    unfolding count_pcs_def by (rule if_cong) (auto simp: B_def intro!: arg_cong [where f = card])
  have 2: "count_pcs (- {t}) f q = (if q = Out then 0 else card B)" by (simp add: count_pcs_def B_def)
  have "t \<notin> B" by (simp add: B_def)
  then show "count_pcs UNIV (f(t := p)) q = bump p (count_pcs (- {t}) f) q"
    unfolding 1 using fin 2 by (cases "q = p"; cases "q = Out") (simp_all add: bump_def)
qed

lemma count_pcs_at: "rw_finite f \<Longrightarrow> count_pcs UNIV f = bump (f t) (count_pcs (- {t}) f)"
  using count_pcs_split [of f t "f t"] by simp

section \<open>Invariant\<close>

text \<open>
  The threads that have the wait mutex; those that have the access mutex to share, and to themselves; those
  that rely on the type \<^verbatim>\<open>LOCK_RW_WRITER\<close>, and on \<^verbatim>\<open>LOCK_RW_READER\<close>.
\<close>

definition n_wait :: "(rw_pc \<Rightarrow> nat) \<Rightarrow> nat" where
  "n_wait c = c Rd_wait + c Wr_wait + c Wr_try + c Wr_fail + c Rd_access + c Rd_type + c Rd_unwait + c Wr_type + c Wr_unwait"

definition n_shared :: "(rw_pc \<Rightarrow> nat) \<Rightarrow> nat" where
  "n_shared c = c Rd_type + c Rd_unwait + c Rd_hold + c Ex_sub"

definition n_sole :: "(rw_pc \<Rightarrow> nat) \<Rightarrow> nat" where
  "n_sole c = c Wr_type + c Wr_unwait + c Wr_hold + c Ex_type + c Ex_release + c Ug_type + c Dg_add + c Dg_release"

definition n_writer :: "(rw_pc \<Rightarrow> nat) \<Rightarrow> nat" where
  "n_writer c = c Wr_unwait + c Wr_hold"

definition n_reader :: "(rw_pc \<Rightarrow> nat) \<Rightarrow> nat" where
  "n_reader c = c Rd_unwait + c Rd_hold + c Ex_sub + c Dg_add + c Dg_release"

lemmas count_defs = n_wait_def n_shared_def n_sole_def n_writer_def n_reader_def bump_def

lemma bump_counts:
  "n_wait (bump p c) = n_wait c + (if p \<in> {Rd_wait, Wr_wait, Wr_try, Wr_fail, Rd_access, Rd_type, Rd_unwait, Wr_type, Wr_unwait} then 1 else 0)"
  "n_shared (bump p c) = n_shared c + (if p \<in> {Rd_type, Rd_unwait, Rd_hold, Ex_sub} then 1 else 0)"
  "n_sole (bump p c) = n_sole c + (if p \<in> {Wr_type, Wr_unwait, Wr_hold, Ex_type, Ex_release, Ug_type, Dg_add, Dg_release} then 1 else 0)"
  "n_writer (bump p c) = n_writer c + (if p \<in> {Wr_unwait, Wr_hold} then 1 else 0)"
  "n_reader (bump p c) = n_reader c + (if p \<in> {Rd_unwait, Rd_hold, Ex_sub, Dg_add, Dg_release} then 1 else 0)"
  "bump p c Rd_access = c Rd_access + (if p = Rd_access then 1 else 0)"
  "bump p c Dg_release = c Dg_release + (if p = Dg_release then 1 else 0)"
  by (cases p; simp add: count_defs)+

lemma count_bounds:
  "c Rd_access \<le> n_wait c" "n_writer c \<le> n_sole c" "n_reader c \<le> n_shared c + n_sole c" "c Dg_release \<le> n_sole c"
  "c Dg_release \<le> n_reader c" "n_shared c \<le> n_reader c + n_wait c"
  by (simp_all add: count_defs)

lemma held_bounds: "c Wr_hold \<le> n_sole c" "c Rd_hold \<le> n_shared c"
  by (simp_all add: count_defs)

text \<open>
  \<^verbatim>\<open>readers\<close> counts the readers, the first reader that still wants the access mutex, and a downgrading writer. The
  access mutex belongs to one thread or to the readers; it is free among readers only while a downgraded writer
  has left it to the first reader.
\<close>

definition count_inv :: "(rw_pc \<Rightarrow> nat) \<Rightarrow> rw_state \<Rightarrow> bool" where
  "count_inv c s \<longleftrightarrow>
     n_wait c = (if rw_waiting s then 1 else 0) \<and>
     rw_readers s = n_shared c + c Rd_access + c Dg_release \<and>
     n_sole c \<le> 1 \<and>
     (n_sole c = 1 \<longrightarrow> rw_access s \<and> n_shared c = 0) \<and>
     (n_sole c = 0 \<longrightarrow> rw_access s = (0 < n_shared c \<and> c Rd_access = 0)) \<and>
     (0 < c Dg_release \<longrightarrow> 0 < c Rd_access) \<and>
     (0 < n_writer c \<longrightarrow> rw_kind s = Kind_writer) \<and>
     (0 < n_reader c \<longrightarrow> rw_kind s = Kind_reader)"

definition rw_inv :: "rw_state \<Rightarrow> bool" where
  "rw_inv s \<longleftrightarrow> rw_finite (rw_pcs s) \<and> count_inv (count_pcs UNIV (rw_pcs s)) s"

text \<open>A move keeps the invariant when it does so with the counts of the other threads left as they are.\<close>

lemma rw_inv_move:
  assumes "rw_inv s" "rw_pcs r = rw_pcs s"
    "\<And>c. count_inv (bump (rw_pcs s t) c) s \<Longrightarrow> count_inv (bump p c) r"
  shows "rw_inv (goto t p r)"
proof -
  have fin: "rw_finite (rw_pcs s)" using assms(1) by (simp add: rw_inv_def)
  have "count_inv (bump (rw_pcs s t) (count_pcs (- {t}) (rw_pcs s))) s"
    using assms(1) count_pcs_at [OF fin, of t] by (simp add: rw_inv_def)
  from assms(3) [OF this] show ?thesis
    using count_pcs_split [OF fin, of t p] rw_finite_upd [OF fin] assms(2)
    by (simp add: rw_inv_def goto_def count_inv_def)
qed

text \<open>The moves, by the parts of the code they belong to.\<close>

lemma wait_moves:
  "p \<in> {Rd_want, Wr_want} \<Longrightarrow> count_inv (bump Out c) s \<Longrightarrow> count_inv (bump p c) s"
  "count_inv (bump Out c) s \<Longrightarrow> \<not> rw_waiting s \<Longrightarrow> count_inv (bump Wr_try c) (s\<lparr>rw_waiting := True\<rparr>)"
  "count_inv (bump Rd_want c) s \<Longrightarrow> \<not> rw_waiting s \<Longrightarrow> count_inv (bump Rd_wait c) (s\<lparr>rw_waiting := True\<rparr>)"
  "count_inv (bump Wr_want c) s \<Longrightarrow> \<not> rw_waiting s \<Longrightarrow> count_inv (bump Wr_wait c) (s\<lparr>rw_waiting := True\<rparr>)"
  "count_inv (bump Wr_try c) s \<Longrightarrow> count_inv (bump Wr_fail c) s"
  "count_inv (bump Wr_fail c) s \<Longrightarrow> count_inv (bump Out c) (s\<lparr>rw_waiting := False\<rparr>)"
  "count_inv (bump Rd_unwait c) s \<Longrightarrow> count_inv (bump Rd_hold c) (s\<lparr>rw_waiting := False\<rparr>)"
  "count_inv (bump Wr_unwait c) s \<Longrightarrow> count_inv (bump Wr_hold c) (s\<lparr>rw_waiting := False\<rparr>)"
  by (auto simp: count_inv_def bump_counts split: if_splits)

lemma access_moves:
  "p \<in> {Wr_wait, Wr_try} \<Longrightarrow> count_inv (bump p c) s \<Longrightarrow> \<not> rw_access s \<Longrightarrow> count_inv (bump Wr_type c) (s\<lparr>rw_access := True\<rparr>)"
  "count_inv (bump Wr_type c) s \<Longrightarrow> count_inv (bump Wr_unwait c) (s\<lparr>rw_kind := Kind_writer\<rparr>)"
  "count_inv (bump Rd_access c) s \<Longrightarrow> \<not> rw_access s \<Longrightarrow> count_inv (bump Rd_type c) (s\<lparr>rw_access := True\<rparr>)"
  "count_inv (bump Rd_type c) s \<Longrightarrow> count_inv (bump Rd_unwait c) (s\<lparr>rw_kind := Kind_reader\<rparr>)"
  using count_bounds [of c] by (auto simp: count_inv_def bump_counts split: if_splits)

lemma reader_moves:
  "count_inv (bump Rd_wait c) s \<Longrightarrow> rw_readers s = 0 \<Longrightarrow> count_inv (bump Rd_access c) (s\<lparr>rw_readers := Suc 0\<rparr>)"
  "count_inv (bump Rd_wait c) s \<Longrightarrow> 0 < rw_readers s \<Longrightarrow> count_inv (bump Rd_unwait c) (s\<lparr>rw_readers := Suc (rw_readers s)\<rparr>)"
  "count_inv (bump Ex_sub c) s \<Longrightarrow> rw_readers s = 1 \<Longrightarrow> count_inv (bump Ex_type c) (s\<lparr>rw_readers := 0\<rparr>)"
  "count_inv (bump Ex_sub c) s \<Longrightarrow> rw_readers s \<noteq> Suc 0 \<Longrightarrow> count_inv (bump Out c) (s\<lparr>rw_readers := rw_readers s - Suc 0\<rparr>)"
  using count_bounds [of c] by (auto simp: count_inv_def bump_counts split: if_splits)

lemma hold_moves:
  "count_inv (bump Rd_hold c) s \<Longrightarrow> rw_kind s = Kind_reader \<and> count_inv (bump Ex_sub c) s"
  "count_inv (bump Wr_hold c) s \<Longrightarrow> rw_kind s = Kind_writer \<and> count_inv (bump Ex_type c) s"
  "count_inv (bump Rd_hold c) s \<Longrightarrow> rw_readers s = 1 \<Longrightarrow> count_inv (bump Ug_type c) (s\<lparr>rw_readers := 0\<rparr>)"
  "count_inv (bump Wr_hold c) s \<Longrightarrow> count_inv (bump Dg_add c) (s\<lparr>rw_kind := Kind_reader\<rparr>)"
  "count_inv (bump Ex_type c) s \<Longrightarrow> count_inv (bump Ex_release c) (s\<lparr>rw_kind := Kind_unknown\<rparr>)"
  "count_inv (bump Ex_release c) s \<Longrightarrow> count_inv (bump Out c) (s\<lparr>rw_access := False\<rparr>)"
  "count_inv (bump Ug_type c) s \<Longrightarrow> count_inv (bump Wr_hold c) (s\<lparr>rw_kind := Kind_writer\<rparr>)"
  "count_inv (bump Dg_release c) s \<Longrightarrow> count_inv (bump Rd_hold c) (s\<lparr>rw_access := False\<rparr>)"
  "count_inv (bump Dg_add c) s \<Longrightarrow> 0 < rw_readers s \<Longrightarrow> count_inv (bump Dg_release c) (s\<lparr>rw_readers := Suc (rw_readers s)\<rparr>)"
  "count_inv (bump Dg_add c) s \<Longrightarrow> rw_readers s = 0 \<Longrightarrow> count_inv (bump Rd_hold c) (s\<lparr>rw_readers := Suc 0\<rparr>)"
  using count_bounds [of c] by (auto simp: count_inv_def bump_counts split: if_splits)

lemma rw_inv_kind:
  assumes "rw_inv s"
  shows "rw_pcs s t = Rd_hold \<Longrightarrow> rw_kind s = Kind_reader" "rw_pcs s t = Wr_hold \<Longrightarrow> rw_kind s = Kind_writer"
  using assms count_pcs_at [of "rw_pcs s" t] hold_moves(1,2) by (auto simp: rw_inv_def)

lemma rw_inv_step:
  assumes "rw_inv s" "s' \<in> set (rw_next t s)"
  shows "rw_inv s'"
  using assms rw_inv_kind [OF assms(1), of t] by (cases "rw_pcs s t")
    (auto simp: rw_next_def split: if_splits intro!: rw_inv_move [OF assms(1)]
      intro: wait_moves access_moves reader_moves hold_moves hold_moves(1,2) [THEN conjunct2])

lemma rw_reach_inv: "rw_step\<^sup>*\<^sup>* rw_start s \<Longrightarrow> rw_inv s"
proof (induction rule: rtranclp_induct)
  case base
  show ?case by (simp add: rw_inv_def rw_start_def rw_finite_def count_inv_def count_pcs_def count_defs)
next
  case (step s s')
  from step.hyps(2) show ?case using step.IH rw_inv_step by (cases rule: rw_step.cases) blast
qed

section \<open>Exclusion and progress\<close>

lemma count_pos: "0 < count_pcs UNIV f p \<Longrightarrow> \<exists>t. f t = p \<and> p \<noteq> Out"
  by (auto simp: count_pcs_def card_gt_0_iff split: if_splits)

lemma count_other:
  assumes "rw_finite f" "f u = p" "p \<noteq> Out" "u \<noteq> t"
  shows "0 < count_pcs (- {t}) f p"
proof -
  have "finite {x\<in>- {t}. f x = p}"
    by (rule finite_subset [OF _ assms(1) [unfolded rw_finite_def]]) (use assms(3) in auto)
  moreover have "u \<in> {x\<in>- {t}. f x = p}" using assms(2,4) by simp
  ultimately have "0 < card {x\<in>- {t}. f x = p}" by (metis card_gt_0_iff empty_iff)
  then show ?thesis using assms(3) by (simp add: count_pcs_def)
qed

definition in_call :: "rw_pc \<Rightarrow> bool" where
  "in_call p \<longleftrightarrow> p \<notin> {Out, Rd_hold, Wr_hold}"

text \<open>The thread that has the access mutex, and then the one that has the wait mutex, can go on.\<close>

lemma access_progress:
  assumes "rw_inv s" "rw_access s" "\<forall>t. rw_pcs s t \<noteq> Rd_hold \<and> rw_pcs s t \<noteq> Wr_hold"
  shows "\<exists>t. in_call (rw_pcs s t) \<and> rw_next t s \<noteq> []"
proof -
  let ?c = "count_pcs UNIV (rw_pcs s)"
  have "count_inv ?c s" using assms(1) by (simp add: rw_inv_def)
  then have "0 < n_sole ?c + n_shared ?c" using assms(2) by (auto simp: count_inv_def)
  then have "\<exists>p. p \<notin> {Rd_want, Wr_want, Wr_wait, Rd_access} \<and> 0 < ?c p"
    by (auto simp: n_sole_def n_shared_def)
  then obtain p t where "p \<notin> {Rd_want, Wr_want, Wr_wait, Rd_access}" "rw_pcs s t = p" "p \<noteq> Out" using count_pos by blast
  then show ?thesis using assms(3) by (intro exI [of _ t]) (cases p; auto simp: in_call_def rw_next_def)
qed

lemma wait_progress:
  assumes "rw_inv s" "rw_waiting s" "\<not> rw_access s"
  shows "\<exists>t. in_call (rw_pcs s t) \<and> rw_next t s \<noteq> []"
proof -
  let ?c = "count_pcs UNIV (rw_pcs s)"
  have "0 < n_wait ?c" using assms(1,2) by (simp add: rw_inv_def count_inv_def)
  then have "\<exists>p. p \<notin> {Rd_want, Wr_want, Rd_hold, Wr_hold} \<and> 0 < ?c p" by (auto simp: n_wait_def)
  then obtain p t where "p \<notin> {Rd_want, Wr_want, Rd_hold, Wr_hold}" "rw_pcs s t = p" "p \<noteq> Out" using count_pos by blast
  then show ?thesis using assms(3) by (intro exI [of _ t]) (cases p; auto simp: in_call_def rw_next_def)
qed



end
