(* ===== verification/Cv.thy ===== *)
theory Cv
  imports Prelude
begin

text \<open>
  The condition variables of \<^verbatim>\<open>lib/libbmk_rumpuser/rumpuser_synch.c\<close>. Here are the operations on the
  list of waiters; the waits of many threads against signals and the timer are in \<open>Cv_Protocol\<close>.
\<close>

section \<open>Lists of waiters\<close>

text \<open>
  A waiter lives on the stack of its thread; \<open>cv_waiters\<close> holds their addresses. The functions a waiter can be
  woken with are \<^verbatim>\<open>bmk_sched_wake\<close> and \<^verbatim>\<open>bmk_sched_wake_timeq\<close>.
\<close>

datatype wake_fn = SCHED_WAKE | SCHED_WAKE_TIMEQ

record waiter =
  w_thread :: "nat option"
  w_wake :: wake_fn

record rumpuser_cv =
  cv_waiters :: "nat list"

type_synonym waiters = "nat \<Rightarrow> waiter"

definition rumpuser_cv_init :: "nat \<Rightarrow> rumpuser_cv res" where
  "rumpuser_cv_init p = (if p = 0 then Inl (Halt ''cannot allocate a CV'') else Inr \<lparr>cv_waiters = []\<rparr>)"

definition rumpuser_cv_destroy :: "rumpuser_cv \<Rightarrow> unit res" where
  "rumpuser_cv_destroy cv = assertE ''cv->waiters.tqh_first == NULL'' (cv_waiters cv = [])"

definition rumpuser_cv_has_waiters :: "rumpuser_cv \<Rightarrow> bool" where
  "rumpuser_cv_has_waiters cv \<longleftrightarrow> cv_waiters cv \<noteq> []"

text \<open>The part of the three waiting calls before the thread blocks: \<open>w\<close> is its waiter, \<open>t\<close> the thread.\<close>

definition cv_enqueue :: "nat \<Rightarrow> nat \<Rightarrow> wake_fn \<Rightarrow> rumpuser_cv \<times> waiters \<Rightarrow> rumpuser_cv \<times> waiters" where
  "cv_enqueue w t f = (\<lambda>(cv, h). (cv\<lparr>cv_waiters := cv_waiters cv @ [w]\<rparr>, h(w := \<lparr>w_thread = Some t, w_wake = f\<rparr>)))"

text \<open>The end of \<^verbatim>\<open>rumpuser_cv_timedwait\<close>.\<close>

definition cv_dequeue :: "nat \<Rightarrow> rumpuser_cv \<times> waiters \<Rightarrow> rumpuser_cv" where
  "cv_dequeue w = (\<lambda>(cv, h). if w_thread (h w) \<noteq> None then cv\<lparr>cv_waiters := remove1 w (cv_waiters cv)\<rparr> else cv)"

text \<open>
  A signal; \<open>wake\<close> is what a wake-up does to the rest of the system. A waiter without a thread is never in the
  list, and waking one would be a null dereference.
\<close>

definition rumpuser_cv_signal ::
  "(wake_fn \<Rightarrow> nat \<Rightarrow> 's \<Rightarrow> 's res) \<Rightarrow> rumpuser_cv \<times> waiters \<times> 's \<Rightarrow> (rumpuser_cv \<times> waiters \<times> 's) res" where
  "rumpuser_cv_signal wake = (\<lambda>(cv, h, s).
     case cv_waiters cv of
       [] \<Rightarrow> Inr (cv, h, s)
     | w # ws \<Rightarrow>
         (case w_thread (h w) of
            None \<Rightarrow> Inl (Undefined ''null thread'')
          | Some t \<Rightarrow> bindE (wake (w_wake (h w)) t s) (\<lambda>s.
              Inr (cv\<lparr>cv_waiters := ws\<rparr>, h(w := (h w)\<lparr>w_thread := None\<rparr>), s))))"

partial_function (option) cv_broadcast_loop ::
  "(wake_fn \<Rightarrow> nat \<Rightarrow> 's \<Rightarrow> 's res) \<Rightarrow> rumpuser_cv \<times> waiters \<times> 's \<Rightarrow> (rumpuser_cv \<times> waiters \<times> 's) res option" where
  "cv_broadcast_loop wake c =
     (if cv_waiters (fst c) = [] then Some (Inr c)
      else (case rumpuser_cv_signal wake c of Inl e \<Rightarrow> Some (Inl e) | Inr c' \<Rightarrow> cv_broadcast_loop wake c'))"

declare cv_broadcast_loop.simps [code]

definition rumpuser_cv_broadcast ::
  "(wake_fn \<Rightarrow> nat \<Rightarrow> 's \<Rightarrow> 's res) \<Rightarrow> rumpuser_cv \<times> waiters \<times> 's \<Rightarrow> (rumpuser_cv \<times> waiters \<times> 's) res" where
  "rumpuser_cv_broadcast wake c = bindE (loopE (cv_broadcast_loop wake c)) (\<lambda>r. r)"

text \<open>A list is in order when its waiters are different and each has its thread.\<close>

definition cv_ok :: "rumpuser_cv \<Rightarrow> waiters \<Rightarrow> bool" where
  "cv_ok cv h \<longleftrightarrow> distinct (cv_waiters cv) \<and> (\<forall>w\<in>set (cv_waiters cv). w_thread (h w) \<noteq> None)"

definition woken_by :: "waiters \<Rightarrow> nat \<Rightarrow> wake_fn \<times> nat" where
  "woken_by h w = (w_wake (h w), the (w_thread (h w)))"

text \<open>Wake-ups collected in order.\<close>

definition cv_log :: "wake_fn \<Rightarrow> nat \<Rightarrow> (wake_fn \<times> nat) list \<Rightarrow> (wake_fn \<times> nat) list res" where
  "cv_log f t l = Inr (l @ [(f, t)])"

lemma cv_signal_log:
  assumes "cv_ok cv h" "cv_waiters cv = w # ws"
  shows "rumpuser_cv_signal cv_log (cv, h, l) = Inr (cv\<lparr>cv_waiters := ws\<rparr>, h(w := (h w)\<lparr>w_thread := None\<rparr>), l @ [woken_by h w])"
    "cv_ok (cv\<lparr>cv_waiters := ws\<rparr>) (h(w := (h w)\<lparr>w_thread := None\<rparr>))"
    "map (woken_by (h(w := (h w)\<lparr>w_thread := None\<rparr>))) ws = map (woken_by h) ws"
  using assms by (auto simp: rumpuser_cv_signal_def cv_ok_def cv_log_def woken_by_def)

lemma cv_broadcast_log:
  "cv_ok cv h \<Longrightarrow> \<exists>h'. cv_broadcast_loop cv_log (cv, h, l) = Some (Inr (cv\<lparr>cv_waiters := []\<rparr>, h', l @ map (woken_by h) (cv_waiters cv))) \<and>
    (\<forall>w\<in>set (cv_waiters cv). w_thread (h' w) = None) \<and> (\<forall>w. w \<notin> set (cv_waiters cv) \<longrightarrow> h' w = h w)"
proof (induction "cv_waiters cv" arbitrary: cv h l)
  case Nil
  then show ?case by (subst cv_broadcast_loop.simps) auto
next
  case (Cons w ws)
  note sig = cv_signal_log [OF Cons.prems Cons.hyps(2) [symmetric]]
  obtain h' where h': "cv_broadcast_loop cv_log (cv\<lparr>cv_waiters := ws\<rparr>, h(w := (h w)\<lparr>w_thread := None\<rparr>), l @ [woken_by h w]) =
      Some (Inr (cv\<lparr>cv_waiters := []\<rparr>, h', l @ map (woken_by h) (w # ws)))"
    "\<forall>v\<in>set ws. w_thread (h' v) = None" "\<forall>v. v \<notin> set ws \<longrightarrow> h' v = (h(w := (h w)\<lparr>w_thread := None\<rparr>)) v"
    using Cons.hyps(1) [OF _ sig(2), of "l @ [woken_by h w]"] sig(3) by auto
  have "w \<notin> set ws" using Cons.prems Cons.hyps(2) [symmetric] by (simp add: cv_ok_def)
  have "cv_broadcast_loop cv_log (cv, h, l) = Some (Inr (cv\<lparr>cv_waiters := []\<rparr>, h', l @ map (woken_by h) (w # ws)))"
    by (subst cv_broadcast_loop.simps) (simp add: Cons.hyps(2) [symmetric] sig(1) h'(1))
  moreover have "\<forall>v\<in>set (w # ws). w_thread (h' v) = None" using h'(2,3) \<open>w \<notin> set ws\<close> by simp
  moreover have "\<forall>v. v \<notin> set (w # ws) \<longrightarrow> h' v = h v" using h'(3) by simp
  ultimately show ?case unfolding Cons.hyps(2) [symmetric] by blast
qed

text \<open>
  A signal wakes exactly the thread that has waited longest, and a broadcast returns after waking every waiting
  thread once, in the order they came, each with the function its wait has chosen; the waiters are marked as
  taken and the list is empty afterwards.
\<close>

theorem cv_wakes_in_order:
  assumes "cv_ok cv h"
  shows "(\<exists>h'. rumpuser_cv_broadcast cv_log (cv, h, []) = Inr (cv\<lparr>cv_waiters := []\<rparr>, h', map (woken_by h) (cv_waiters cv)) \<and>
      (\<forall>w. w_thread (h' w) = (if w \<in> set (cv_waiters cv) then None else w_thread (h w)))) \<and>
    (case cv_waiters cv of
       [] \<Rightarrow> rumpuser_cv_signal cv_log (cv, h, []) = Inr (cv, h, [])
     | w # ws \<Rightarrow> rumpuser_cv_signal cv_log (cv, h, []) =
         Inr (cv\<lparr>cv_waiters := ws\<rparr>, h(w := (h w)\<lparr>w_thread := None\<rparr>), [woken_by h w]))"
proof -
  obtain h' where "cv_broadcast_loop cv_log (cv, h, []) = Some (Inr (cv\<lparr>cv_waiters := []\<rparr>, h', map (woken_by h) (cv_waiters cv)))"
    "\<forall>w\<in>set (cv_waiters cv). w_thread (h' w) = None" "\<forall>w. w \<notin> set (cv_waiters cv) \<longrightarrow> h' w = h w"
    using cv_broadcast_log [OF assms, of "[]"] by auto
  then have "\<exists>h'. rumpuser_cv_broadcast cv_log (cv, h, []) = Inr (cv\<lparr>cv_waiters := []\<rparr>, h', map (woken_by h) (cv_waiters cv)) \<and>
      (\<forall>w. w_thread (h' w) = (if w \<in> set (cv_waiters cv) then None else w_thread (h w)))"
    by (intro exI [of _ h']) (auto simp: rumpuser_cv_broadcast_def)
  then show ?thesis
    using cv_signal_log(1) [OF assms, of _ _ "[]"] by (auto simp: rumpuser_cv_signal_def split: list.splits)
qed

definition cv_demo :: "rumpuser_cv \<times> waiters" where
  "cv_demo = cv_enqueue 20 2 SCHED_WAKE_TIMEQ (cv_enqueue 10 1 SCHED_WAKE (\<lparr>cv_waiters = []\<rparr>, \<lambda>_. \<lparr>w_thread = None, w_wake = SCHED_WAKE\<rparr>))"

theorem cv_wakes_in_order_witness:
  "\<exists>h'. rumpuser_cv_broadcast cv_log (fst cv_demo, snd cv_demo, []) = Inr (\<lparr>cv_waiters = []\<rparr>, h', [(SCHED_WAKE, 1), (SCHED_WAKE_TIMEQ, 2)])"
  using cv_wakes_in_order [of "fst cv_demo" "snd cv_demo"] by (auto simp: cv_demo_def cv_enqueue_def cv_ok_def woken_by_def)

end
