(* ===== verification/Cv_Protocol.thy ===== *)
theory Cv_Protocol
  imports Cv
begin

text \<open>
  Waits on a condition variable of \<^verbatim>\<open>lib/libbmk_rumpuser/rumpuser_synch.c\<close> by any number of threads, with signals, the
  timer and the mutex that protects the list of waiters. A thread has one waiter, on its stack, which is identified with
  the thread.
\<close>

section \<open>State\<close>

text \<open>
  Program points of a thread: \<open>Cv_out\<close> outside a wait; \<open>Cv_asleep\<close> off its CPU in the block of the wait; \<open>Cv_back\<close> about
  to take the mutex again; \<open>Cv_mutex\<close> blocked on the mutex in \<^verbatim>\<open>cv_mutex_enter\<close>; \<open>Cv_locked\<close> past it. The callback
  of the context switch first puts a timed waiter into the timeout queue, then leaves the mutex. \<open>ct_linked\<close>
  is \<^verbatim>\<open>w.thread != NULL\<close>; \<open>ct_firing\<close>: the timer has taken the thread off the queue and not yet woken it;
  \<open>ct_runnable\<close>: the entries of the thread in a run queue that a signal or the timer has made.
\<close>

datatype cv_pc = Cv_out | Cv_asleep | Cv_back | Cv_mutex | Cv_locked
datatype cv_cb = Cb_insert | Cb_exit | Cb_done

record cv_thread =
  ct_pc :: cv_pc
  ct_cb :: cv_cb
  ct_timed :: bool
  ct_linked :: bool
  ct_timedout :: bool
  ct_on_timeq :: bool
  ct_firing :: bool
  ct_runnable :: nat

text \<open>\<open>cs_signal\<close> is the thread that the owner of the mutex has taken off the list and is about to wake.\<close>

record cv_state =
  cs_thread :: "nat \<Rightarrow> cv_thread"
  cs_list :: "nat list"
  cs_mutex :: "nat option"
  cs_signal :: "nat option"

definition cv_start :: cv_state where
  "cv_start = \<lparr>cs_thread = (\<lambda>_. \<lparr>ct_pc = Cv_out, ct_cb = Cb_done, ct_timed = False, ct_linked = False, ct_timedout = False,
     ct_on_timeq = False, ct_firing = False, ct_runnable = 0\<rparr>), cs_list = [], cs_mutex = None, cs_signal = None\<rparr>"

definition set_thread :: "nat \<Rightarrow> cv_thread \<Rightarrow> cv_state \<Rightarrow> cv_state" where
  "set_thread t x s = s\<lparr>cs_thread := (cs_thread s)(t := x)\<rparr>"

section \<open>Steps\<close>

text \<open>The beginning of a wait, up to the switch; \<^verbatim>\<open>bmk_sched_block\<close> clears \<^verbatim>\<open>bt_timedout\<close>.\<close>

definition ct_wait :: "bool \<Rightarrow> cv_thread \<Rightarrow> cv_thread" where
  "ct_wait timed x = x\<lparr>ct_pc := Cv_asleep, ct_cb := (if timed then Cb_insert else Cb_exit), ct_timed := timed,
     ct_linked := True, ct_timedout := False\<rparr>"

text \<open>The wake-up by a signal: \<^verbatim>\<open>bmk_sched_wake\<close>, or \<^verbatim>\<open>bmk_sched_wake_timeq\<close> for a timed wait.\<close>

definition ct_wake :: "cv_thread \<Rightarrow> cv_thread" where
  "ct_wake x =
     (if ct_timed x
      then (if ct_timedout x then x else x\<lparr>ct_on_timeq := False, ct_runnable := ct_runnable x + 1\<rparr>)
      else x\<lparr>ct_runnable := ct_runnable x + 1\<rparr>)"

text \<open>
  The steps. With \<open>blocking\<close> the mutex is one that blocks, so that a thread that finds it taken calls
  \<^verbatim>\<open>bmk_sched_block\<close> once more; otherwise it spins. With \<open>timeouts\<close> there are timed waits.
\<close>

inductive cv_step :: "bool \<Rightarrow> bool \<Rightarrow> cv_state \<Rightarrow> cv_state \<Rightarrow> bool" for blocking timeouts where
  lock: "cs_mutex s = None \<Longrightarrow> ct_pc (cs_thread s t) = Cv_out \<Longrightarrow> cv_step blocking timeouts s (s\<lparr>cs_mutex := Some t\<rparr>)"
| unlock: "cs_mutex s = Some t \<Longrightarrow> cs_signal s = None \<Longrightarrow> ct_pc (cs_thread s t) = Cv_out \<Longrightarrow>
    cv_step blocking timeouts s (s\<lparr>cs_mutex := None\<rparr>)"
| wait: "cs_mutex s = Some t \<Longrightarrow> cs_signal s = None \<Longrightarrow> ct_pc (cs_thread s t) = Cv_out \<Longrightarrow> (timed \<Longrightarrow> timeouts) \<Longrightarrow>
    cv_step blocking timeouts s (set_thread t (ct_wait timed (cs_thread s t)) (s\<lparr>cs_list := cs_list s @ [t]\<rparr>))"
| callback_insert: "ct_cb (cs_thread s t) = Cb_insert \<Longrightarrow>
    cv_step blocking timeouts s (set_thread t ((cs_thread s t)\<lparr>ct_cb := Cb_exit, ct_on_timeq := True\<rparr>) s)"
| callback_exit: "ct_cb (cs_thread s t) = Cb_exit \<Longrightarrow>
    cv_step blocking timeouts s (set_thread t ((cs_thread s t)\<lparr>ct_cb := Cb_done\<rparr>) (s\<lparr>cs_mutex := None\<rparr>))"
| timer_fire: "ct_on_timeq (cs_thread s t) \<Longrightarrow>
    cv_step blocking timeouts s (set_thread t ((cs_thread s t)\<lparr>ct_on_timeq := False, ct_timedout := True, ct_firing := True\<rparr>) s)"
| timer_wake: "ct_firing (cs_thread s t) \<Longrightarrow>
    cv_step blocking timeouts s (set_thread t ((cs_thread s t)\<lparr>ct_firing := False, ct_runnable := ct_runnable (cs_thread s t) + 1\<rparr>) s)"
| resume: "ct_pc (cs_thread s t) = Cv_asleep \<Longrightarrow> 0 < ct_runnable (cs_thread s t) \<Longrightarrow>
    cv_step blocking timeouts s (set_thread t ((cs_thread s t)\<lparr>ct_pc := Cv_back, ct_runnable := ct_runnable (cs_thread s t) - 1\<rparr>) s)"
| relock: "ct_pc (cs_thread s t) = Cv_back \<Longrightarrow> cs_mutex s = None \<Longrightarrow>
    cv_step blocking timeouts s (set_thread t ((cs_thread s t)\<lparr>ct_pc := Cv_locked\<rparr>) (s\<lparr>cs_mutex := Some t\<rparr>))"
| relock_block: "blocking \<Longrightarrow> ct_pc (cs_thread s t) = Cv_back \<Longrightarrow> cs_mutex s \<noteq> None \<Longrightarrow>
    cv_step blocking timeouts s (set_thread t ((cs_thread s t)\<lparr>ct_pc := Cv_mutex, ct_timedout := False\<rparr>) s)"
| granted: "ct_pc (cs_thread s t) = Cv_mutex \<Longrightarrow> cs_mutex s = None \<Longrightarrow>
    cv_step blocking timeouts s (set_thread t ((cs_thread s t)\<lparr>ct_pc := Cv_locked\<rparr>) (s\<lparr>cs_mutex := Some t\<rparr>))"
| resume_mutex: "ct_pc (cs_thread s t) = Cv_mutex \<Longrightarrow> 0 < ct_runnable (cs_thread s t) \<Longrightarrow>
    cv_step blocking timeouts s (set_thread t ((cs_thread s t)\<lparr>ct_pc := Cv_locked, ct_runnable := ct_runnable (cs_thread s t) - 1\<rparr>) s)"
| finish: "ct_pc (cs_thread s t) = Cv_locked \<Longrightarrow>
    cv_step blocking timeouts s (set_thread t ((cs_thread s t)\<lparr>ct_pc := Cv_out\<rparr>)
      (s\<lparr>cs_list := (if ct_timed (cs_thread s t) \<and> ct_linked (cs_thread s t) then remove1 t (cs_list s) else cs_list s)\<rparr>))"
| signal: "cs_mutex s = Some t \<Longrightarrow> cs_signal s = None \<Longrightarrow> ct_pc (cs_thread s t) = Cv_out \<Longrightarrow> cs_list s = w # ws \<Longrightarrow>
    cv_step blocking timeouts s (set_thread w ((cs_thread s w)\<lparr>ct_linked := False\<rparr>) (s\<lparr>cs_list := ws, cs_signal := Some w\<rparr>))"
| signal_wake: "cs_signal s = Some w \<Longrightarrow>
    cv_step blocking timeouts s (set_thread w (ct_wake (cs_thread s w)) (s\<lparr>cs_signal := None\<rparr>))"

section \<open>Invariant\<close>

text \<open>
  What holds of a thread, given whether its waiter is in the list, whether it owns the mutex, and whether a signal is
  about to wake it. The last lines say that a sleeping thread has exactly one wake-up, pending or to come.
\<close>

definition inside :: "cv_thread \<Rightarrow> bool" where
  "inside x \<longleftrightarrow> ct_pc x \<noteq> Cv_out"

definition thread_ok :: "cv_thread \<Rightarrow> bool \<Rightarrow> bool \<Rightarrow> bool \<Rightarrow> bool" where
  "thread_ok x listed owner signalled \<longleftrightarrow>
     (\<not> inside x \<longrightarrow> \<not> listed \<and> \<not> signalled \<and> ct_cb x = Cb_done \<and> \<not> ct_on_timeq x \<and> \<not> ct_firing x \<and> ct_runnable x = 0) \<and>
     (inside x \<longrightarrow>
        (listed \<longleftrightarrow> ct_linked x) \<and> (signalled \<longrightarrow> \<not> ct_linked x \<and> ct_pc x \<noteq> Cv_locked \<and> ct_cb x = Cb_done) \<and>
        (owner \<longleftrightarrow> ct_cb x \<noteq> Cb_done \<or> ct_pc x = Cv_locked) \<and>
        (ct_cb x \<noteq> Cb_done \<longrightarrow> ct_linked x \<and> ct_pc x \<noteq> Cv_locked) \<and>
        (ct_cb x = Cb_insert \<longrightarrow> ct_timed x \<and> ct_pc x = Cv_asleep \<and> \<not> ct_timedout x) \<and>
        (\<not> ct_timed x \<longrightarrow> \<not> ct_on_timeq x \<and> \<not> ct_firing x) \<and>
        (ct_on_timeq x \<longrightarrow> \<not> ct_timedout x \<and> ct_cb x \<noteq> Cb_insert) \<and> (ct_firing x \<longrightarrow> ct_timedout x) \<and>
        (ct_timed x \<and> \<not> ct_timedout x \<and> (ct_linked x \<or> signalled) \<longrightarrow> ct_cb x = Cb_insert \<or> ct_on_timeq x) \<and>
        (if ct_timed x
         then of_bool (ct_cb x = Cb_insert) + of_bool (ct_on_timeq x) + of_bool (ct_firing x) + ct_runnable x
         else of_bool (ct_linked x) + of_bool signalled + ct_runnable x) = (if ct_pc x = Cv_asleep then 1 else 0))"

text \<open>Timed waits and a blocking mutex exclude each other, which the last line keeps.\<close>

definition cv_inv :: "bool \<Rightarrow> bool \<Rightarrow> cv_state \<Rightarrow> bool" where
  "cv_inv blocking timeouts s \<longleftrightarrow> distinct (cs_list s) \<and>
     (cs_signal s \<noteq> None \<longrightarrow> (\<exists>u. cs_mutex s = Some u \<and> ct_pc (cs_thread s u) = Cv_out)) \<and>
     (\<forall>t. thread_ok (cs_thread s t) (t \<in> set (cs_list s)) (cs_mutex s = Some t) (cs_signal s = Some t) \<and>
        (inside (cs_thread s t) \<longrightarrow> (ct_timed (cs_thread s t) \<longrightarrow> timeouts) \<and> (ct_pc (cs_thread s t) = Cv_mutex \<longrightarrow> blocking)))"

lemma cv_invD:
  assumes "cv_inv blocking timeouts s"
  shows "distinct (cs_list s)" "cs_signal s \<noteq> None \<Longrightarrow> \<exists>u. cs_mutex s = Some u \<and> ct_pc (cs_thread s u) = Cv_out"
    "thread_ok (cs_thread s t) (t \<in> set (cs_list s)) (cs_mutex s = Some t) (cs_signal s = Some t)"
    "inside (cs_thread s t) \<Longrightarrow> ct_timed (cs_thread s t) \<Longrightarrow> timeouts"
    "inside (cs_thread s t) \<Longrightarrow> ct_pc (cs_thread s t) = Cv_mutex \<Longrightarrow> blocking"
  using assms unfolding cv_inv_def by blast+

text \<open>A step that changes one thread keeps the invariant when that thread is in order and the others see no change.\<close>

lemma cv_inv_upd:
  assumes "cv_inv blocking timeouts s" "cs_thread r = cs_thread s" "distinct (cs_list r)"
    "\<And>u. u \<noteq> t \<Longrightarrow> u \<in> set (cs_list r) \<longleftrightarrow> u \<in> set (cs_list s)"
    "\<And>u. u \<noteq> t \<Longrightarrow> cs_mutex r = Some u \<longleftrightarrow> cs_mutex s = Some u"
    "\<And>u. u \<noteq> t \<Longrightarrow> cs_signal r = Some u \<longleftrightarrow> cs_signal s = Some u"
    "cs_signal r \<noteq> None \<Longrightarrow> \<exists>u. u \<noteq> t \<and> cs_mutex r = Some u \<and> ct_pc (cs_thread s u) = Cv_out"
    "thread_ok x (t \<in> set (cs_list r)) (cs_mutex r = Some t) (cs_signal r = Some t)"
    "inside x \<Longrightarrow> ct_timed x \<Longrightarrow> timeouts" "inside x \<Longrightarrow> ct_pc x = Cv_mutex \<Longrightarrow> blocking"
  shows "cv_inv blocking timeouts (set_thread t x r)"
  unfolding cv_inv_def
proof (intro conjI allI impI)
  let ?s = "set_thread t x r"
  show "distinct (cs_list ?s)" using assms(3) by (simp add: set_thread_def)
  show "\<exists>u. cs_mutex ?s = Some u \<and> ct_pc (cs_thread ?s u) = Cv_out" if "cs_signal ?s \<noteq> None"
    using assms(7) that assms(2) by (auto simp: set_thread_def)
  show "thread_ok (cs_thread ?s u) (u \<in> set (cs_list ?s)) (cs_mutex ?s = Some u) (cs_signal ?s = Some u)" for u
    using assms(8) assms(4,5,6) [of u] cv_invD(3) [OF assms(1), of u] assms(2) by (cases "u = t") (simp_all add: set_thread_def)
  show "timeouts" if "inside (cs_thread ?s u)" "ct_timed (cs_thread ?s u)" for u
    using assms(9) cv_invD(4) [OF assms(1), of u] assms(2) that by (cases "u = t") (simp_all add: set_thread_def)
  show "blocking" if "inside (cs_thread ?s u)" "ct_pc (cs_thread ?s u) = Cv_mutex" for u
    using assms(10) cv_invD(5) [OF assms(1), of u] assms(2) that by (cases "u = t") (simp_all add: set_thread_def)
qed

text \<open>The same for a step that leaves list, mutex and signal alone.\<close>

lemma cv_inv_thread:
  assumes "cv_inv blocking timeouts s" "inside (cs_thread s t)" "inside x" "ct_timed x = ct_timed (cs_thread s t)"
    "ct_pc x = Cv_mutex \<Longrightarrow> blocking"
    "thread_ok x (t \<in> set (cs_list s)) (cs_mutex s = Some t) (cs_signal s = Some t)"
  shows "cv_inv blocking timeouts (set_thread t x s)"
proof (rule cv_inv_upd [OF assms(1)])
  show "\<exists>u. u \<noteq> t \<and> cs_mutex s = Some u \<and> ct_pc (cs_thread s u) = Cv_out" if "cs_signal s \<noteq> None"
    using cv_invD(2) [OF assms(1) that] assms(2) by (auto simp: inside_def)
qed (use assms cv_invD(1,4) [OF assms(1)] in auto)

lemma cv_no_signal:
  assumes "cv_inv blocking timeouts s" "cs_mutex s = None \<or> cs_mutex s = Some t \<and> inside (cs_thread s t)"
  shows "cs_signal s = None"
  using cv_invD(2) [OF assms(1)] assms(2) by (cases "cs_signal s") (auto simp: inside_def)

lemmas thread_defs = thread_ok_def inside_def

lemma cv_inv_lock:
  assumes "cv_inv b o' s" "ct_pc (cs_thread s t) = Cv_out" "cs_signal s = None"
    "cs_mutex s = None \<and> m = Some t \<or> cs_mutex s = Some t \<and> m = None"
  shows "cv_inv b o' (s\<lparr>cs_mutex := m\<rparr>)"
proof -
  have "cv_inv b o' (set_thread t (cs_thread s t) (s\<lparr>cs_mutex := m\<rparr>))"
    using assms(2-) cv_invD(1) [OF assms(1)] cv_invD(3) [OF assms(1), of t]
    by (intro cv_inv_upd [OF assms(1)]) (auto simp: thread_defs split: if_splits)
  then show ?thesis by (simp add: set_thread_def)
qed

lemma cv_inv_wait:
  assumes "cv_inv b o' s" "cs_mutex s = Some t" "cs_signal s = None" "ct_pc (cs_thread s t) = Cv_out" "timed \<Longrightarrow> o'"
  shows "cv_inv b o' (set_thread t (ct_wait timed (cs_thread s t)) (s\<lparr>cs_list := cs_list s @ [t]\<rparr>))"
  using assms(2-) cv_invD(1) [OF assms(1)] cv_invD(3) [OF assms(1), of t]
  by (intro cv_inv_upd [OF assms(1)]) (auto simp: thread_defs ct_wait_def split: if_splits)

lemma cv_inv_callback:
  assumes "cv_inv b o' s"
  shows "ct_cb (cs_thread s t) = Cb_insert \<Longrightarrow>
      cv_inv b o' (set_thread t ((cs_thread s t)\<lparr>ct_cb := Cb_exit, ct_on_timeq := True\<rparr>) s)"
    "ct_cb (cs_thread s t) = Cb_exit \<Longrightarrow>
      cv_inv b o' (set_thread t ((cs_thread s t)\<lparr>ct_cb := Cb_done\<rparr>) (s\<lparr>cs_mutex := None\<rparr>))"
proof -
  note ok = cv_invD(3) [OF assms, of t]
  show "cv_inv b o' (set_thread t ((cs_thread s t)\<lparr>ct_cb := Cb_exit, ct_on_timeq := True\<rparr>) s)" if "ct_cb (cs_thread s t) = Cb_insert"
    using that ok by (intro cv_inv_thread [OF assms]) (auto simp: thread_defs split: if_splits)
  assume cb: "ct_cb (cs_thread s t) = Cb_exit"
  then have t: "inside (cs_thread s t)" "cs_mutex s = Some t" using ok by (auto simp: thread_ok_def)
  then have "cs_signal s = None" using cv_no_signal [OF assms] by blast
  then show "cv_inv b o' (set_thread t ((cs_thread s t)\<lparr>ct_cb := Cb_done\<rparr>) (s\<lparr>cs_mutex := None\<rparr>))"
    using cb t ok cv_invD(1,4,5) [OF assms] by (intro cv_inv_upd [OF assms]) (auto simp: thread_defs split: if_splits)
qed

lemma cv_inv_timer:
  assumes "cv_inv b o' s"
  shows "ct_on_timeq (cs_thread s t) \<Longrightarrow>
      cv_inv b o' (set_thread t ((cs_thread s t)\<lparr>ct_on_timeq := False, ct_timedout := True, ct_firing := True\<rparr>) s)"
    "ct_firing (cs_thread s t) \<Longrightarrow>
      cv_inv b o' (set_thread t ((cs_thread s t)\<lparr>ct_firing := False, ct_runnable := ct_runnable (cs_thread s t) + 1\<rparr>) s)"
  using cv_invD(3,5) [OF assms, of t] by (intro cv_inv_thread [OF assms]; auto simp: thread_defs split: if_splits)+

lemma cv_inv_resume:
  assumes "cv_inv b o' s" "ct_pc (cs_thread s t) = Cv_asleep" "0 < ct_runnable (cs_thread s t)"
  shows "cv_inv b o' (set_thread t ((cs_thread s t)\<lparr>ct_pc := Cv_back, ct_runnable := ct_runnable (cs_thread s t) - 1\<rparr>) s)"
  using assms(2,3) cv_invD(3) [OF assms(1), of t] by (intro cv_inv_thread [OF assms(1)]) (auto simp: thread_defs split: if_splits)

lemma cv_inv_relock:
  assumes "cv_inv b o' s" "ct_pc (cs_thread s t) \<in> {Cv_back, Cv_mutex}"
  shows "cs_mutex s = None \<Longrightarrow> cv_inv b o' (set_thread t ((cs_thread s t)\<lparr>ct_pc := Cv_locked\<rparr>) (s\<lparr>cs_mutex := Some t\<rparr>))"
    "b \<Longrightarrow> \<not> o' \<Longrightarrow> ct_pc (cs_thread s t) = Cv_back \<Longrightarrow>
      cv_inv b o' (set_thread t ((cs_thread s t)\<lparr>ct_pc := Cv_mutex, ct_timedout := False\<rparr>) s)"
proof -
  note ok = cv_invD(3) [OF assms(1), of t]
  have ins: "inside (cs_thread s t)" using assms(2) by (auto simp: inside_def)
  show "cv_inv b o' (set_thread t ((cs_thread s t)\<lparr>ct_pc := Cv_mutex, ct_timedout := False\<rparr>) s)"
    if "b" "\<not> o'" "ct_pc (cs_thread s t) = Cv_back"
    using that ok ins cv_invD(4) [OF assms(1) ins] by (intro cv_inv_thread [OF assms(1)]) (auto simp: thread_defs split: if_splits)
  assume m: "cs_mutex s = None"
  then have "cs_signal s = None" using cv_no_signal [OF assms(1)] by blast
  then show "cv_inv b o' (set_thread t ((cs_thread s t)\<lparr>ct_pc := Cv_locked\<rparr>) (s\<lparr>cs_mutex := Some t\<rparr>))"
    using assms(2) m ok ins cv_invD(1,4) [OF assms(1)] by (intro cv_inv_upd [OF assms(1)]) (auto simp: thread_defs split: if_splits)
qed

lemma cv_inv_finish:
  assumes "cv_inv b o' s" "ct_pc (cs_thread s t) = Cv_locked"
  shows "cv_inv b o' (set_thread t ((cs_thread s t)\<lparr>ct_pc := Cv_out\<rparr>)
      (s\<lparr>cs_list := (if ct_timed (cs_thread s t) \<and> ct_linked (cs_thread s t) then remove1 t (cs_list s) else cs_list s)\<rparr>))"
proof -
  note ok = cv_invD(3) [OF assms(1), of t]
  have "cs_mutex s = Some t" using assms(2) ok by (simp add: thread_defs)
  then have "cs_signal s = None" using cv_no_signal [OF assms(1), of t] assms(2) by (simp add: inside_def)
  then show ?thesis using assms(2) ok cv_invD(1) [OF assms(1)]
    by (intro cv_inv_upd [OF assms(1)]) (auto simp: thread_defs split: if_splits)
qed

lemma cv_inv_signal:
  assumes "cv_inv b o' s" "cs_mutex s = Some t" "ct_pc (cs_thread s t) = Cv_out" "cs_list s = w # ws" "cs_signal s = None"
  shows "cv_inv b o' (set_thread w ((cs_thread s w)\<lparr>ct_linked := False\<rparr>) (s\<lparr>cs_list := ws, cs_signal := Some w\<rparr>))"
proof -
  note ok = cv_invD(3) [OF assms(1), of w]
  have ins: "inside (cs_thread s w)" using ok assms(4) by (auto simp: thread_ok_def)
  then have "w \<noteq> t" using assms(3) by (auto simp: inside_def)
  then show ?thesis using assms(2-) ok ins cv_invD(1) [OF assms(1)] cv_invD(4,5) [OF assms(1) ins]
    by (intro cv_inv_upd [OF assms(1)]) (auto simp: thread_defs split: if_splits)
qed

lemma cv_inv_signal_wake:
  assumes "cv_inv b o' s" "cs_signal s = Some w"
  shows "cv_inv b o' (set_thread w (ct_wake (cs_thread s w)) (s\<lparr>cs_signal := None\<rparr>))"
proof -
  note ok = cv_invD(3) [OF assms(1), of w]
  have ins: "inside (cs_thread s w)" using ok assms(2) by (auto simp: thread_ok_def)
  show ?thesis using assms(2) ok ins cv_invD(1) [OF assms(1)] cv_invD(4,5) [OF assms(1) ins]
    by (intro cv_inv_upd [OF assms(1)]) (auto simp: thread_defs ct_wake_def split: if_splits)
qed

lemma cv_inv_step:
  assumes "cv_step b o' s s'" "cv_inv b o' s" "\<not> (b \<and> o')"
  shows "cv_inv b o' s'"
  using assms(1)
proof cases
  case (lock t)
  then have "cs_signal s = None" using cv_no_signal [OF assms(2)] by blast
  then show ?thesis using lock cv_inv_lock [OF assms(2), of t "Some t"] by simp
next
  case (resume_mutex t)
  then have "ct_runnable (cs_thread s t) = 0"
    using cv_invD(3) [OF assms(2), of t] by (auto simp: thread_defs split: if_splits)
  then show ?thesis using resume_mutex by simp
next
  case (unlock t)
  show ?thesis unfolding unlock(1) by (rule cv_inv_lock [OF assms(2) unlock(4,3)]) (use unlock(2) in simp)
next
  case (wait t timed)
  show ?thesis unfolding wait(1) by (rule cv_inv_wait [OF assms(2) wait(2-4)]) (rule wait(5))
next
  case (callback_insert t)
  show ?thesis unfolding callback_insert(1) by (rule cv_inv_callback(1) [OF assms(2) callback_insert(2)])
next
  case (callback_exit t)
  show ?thesis unfolding callback_exit(1) by (rule cv_inv_callback(2) [OF assms(2) callback_exit(2)])
next
  case (timer_fire t)
  show ?thesis unfolding timer_fire(1) by (rule cv_inv_timer(1) [OF assms(2) timer_fire(2)])
next
  case (timer_wake t)
  show ?thesis unfolding timer_wake(1) by (rule cv_inv_timer(2) [OF assms(2) timer_wake(2)])
next
  case (resume t)
  show ?thesis unfolding resume(1) by (rule cv_inv_resume [OF assms(2) resume(2,3)])
next
  case (relock t)
  show ?thesis unfolding relock(1) by (rule cv_inv_relock(1) [OF assms(2) _ relock(3)]) (use relock(2) in simp)
next
  case (relock_block t)
  show ?thesis unfolding relock_block(1) by (rule cv_inv_relock(2) [OF assms(2)]) (use relock_block assms(3) in simp_all)
next
  case (granted t)
  show ?thesis unfolding granted(1) by (rule cv_inv_relock(1) [OF assms(2) _ granted(3)]) (use granted(2) in simp)
next
  case (finish t)
  show ?thesis unfolding finish(1) by (rule cv_inv_finish [OF assms(2) finish(2)])
next
  case (signal t w ws)
  show ?thesis unfolding signal(1) by (rule cv_inv_signal [OF assms(2) signal(2,4,5,3)])
next
  case (signal_wake w)
  show ?thesis unfolding signal_wake(1) by (rule cv_inv_signal_wake [OF assms(2) signal_wake(2)])
qed

lemma thread_tokens:
  assumes "thread_ok x listed owner signalled"
  shows "ct_runnable x \<le> (if ct_pc x = Cv_asleep then 1 else 0)"
    "ct_pc x = Cv_asleep \<Longrightarrow> 0 < ct_runnable x \<or> ct_firing x \<or> signalled \<or>
       (if ct_timed x then ct_on_timeq x \<or> ct_cb x = Cb_insert else listed)"
proof -
  have 1: "\<not> inside x \<Longrightarrow> ct_runnable x = 0" "inside x \<Longrightarrow> listed = ct_linked x"
    "inside x \<Longrightarrow> (if ct_timed x
         then of_bool (ct_cb x = Cb_insert) + of_bool (ct_on_timeq x) + of_bool (ct_firing x) + ct_runnable x
         else of_bool (ct_linked x) + of_bool signalled + ct_runnable x) = (if ct_pc x = Cv_asleep then 1 else 0)"
    using assms unfolding thread_ok_def by blast+
  show "ct_runnable x \<le> (if ct_pc x = Cv_asleep then 1 else 0)"
    using 1(1,3) by (cases "inside x"; cases "ct_timed x"; cases "ct_pc x = Cv_asleep") simp_all
  assume "ct_pc x = Cv_asleep"
  then show "0 < ct_runnable x \<or> ct_firing x \<or> signalled \<or> (if ct_timed x then ct_on_timeq x \<or> ct_cb x = Cb_insert else listed)"
    using 1(2,3) by (cases "ct_timed x") (auto simp: inside_def of_bool_def split: if_splits)
qed

lemma cv_reach_inv: "(cv_step b o')\<^sup>*\<^sup>* cv_start s \<Longrightarrow> \<not> (b \<and> o') \<Longrightarrow> cv_inv b o' s"
proof (induction rule: rtranclp_induct)
  case base
  show ?case by (simp add: cv_inv_def cv_start_def thread_defs)
next
  case (step s s')
  then show ?case using cv_inv_step by blast
qed


lemma cv_wait_reach:
  assumes "timed \<Longrightarrow> timeouts"
  defines "x \<equiv> ct_wait timed (cs_thread cv_start 1)"
  shows "(cv_step blocking timeouts)\<^sup>*\<^sup>* cv_start (set_thread 1 x (cv_start\<lparr>cs_mutex := Some 1, cs_list := [1]\<rparr>))"
proof -
  have "cv_step blocking timeouts cv_start (cv_start\<lparr>cs_mutex := Some 1\<rparr>)" by (rule lock) (simp_all add: cv_start_def)
  moreover have "cv_step blocking timeouts (cv_start\<lparr>cs_mutex := Some 1\<rparr>) (set_thread 1 x (cv_start\<lparr>cs_mutex := Some 1, cs_list := [1]\<rparr>))"
    using wait [of "cv_start\<lparr>cs_mutex := Some 1\<rparr>" 1 timed timeouts blocking] assms(1) by (simp add: x_def cv_start_def)
  ultimately show ?thesis by (meson rtranclp.rtrancl_into_rtrancl rtranclp.rtrancl_refl)
qed


section \<open>Timed waits on a blocking mutex\<close>

text \<open>
  C22. A timed wait on a mutex that blocks can break the mutex. The waiter times out and finds the mutex taken; blocking
  on it clears \<^verbatim>\<open>bt_timedout\<close>. A signal by the owner still finds the waiter in the list, and
  \<^verbatim>\<open>bmk_sched_wake_timeq\<close> takes it for one that has not timed out: it removes it from a timeout queue it is not on and
  puts it into the run queue, so that the waiter leaves \<^verbatim>\<open>cv_mutex_enter\<close> while another thread owns the mutex.
\<close>

theorem cv_timed_wait_breaks_mutex:
  "\<exists>s. (cv_step True True)\<^sup>*\<^sup>* cv_start s \<and> ct_pc (cs_thread s 1) = Cv_locked \<and> cs_mutex s = Some 2 \<and> ct_pc (cs_thread s 2) = Cv_out"
proof -
  define x1 where "x1 = (ct_wait True (cs_thread cv_start 1))\<lparr>ct_cb := Cb_exit, ct_on_timeq := True\<rparr>"
  define x2 where "x2 = x1\<lparr>ct_cb := Cb_done\<rparr>"
  define x3 where "x3 = x2\<lparr>ct_on_timeq := False, ct_timedout := True, ct_firing := True\<rparr>"
  define x4 where "x4 = x3\<lparr>ct_firing := False, ct_runnable := 1\<rparr>"
  define x5 where "x5 = x4\<lparr>ct_pc := Cv_back, ct_runnable := 0\<rparr>"
  define x6 where "x6 = x5\<lparr>ct_pc := Cv_mutex, ct_timedout := False\<rparr>"
  define x7 where "x7 = x6\<lparr>ct_linked := False\<rparr>"
  define x8 where "x8 = ct_wake x7"
  define x9 where "x9 = x8\<lparr>ct_pc := Cv_locked, ct_runnable := 0\<rparr>"
  define S where "S x l m g = set_thread 1 x (cv_start\<lparr>cs_list := l, cs_mutex := m, cs_signal := g\<rparr>)" for x l m g
  note defs = x9_def x8_def x7_def x6_def x5_def x4_def x3_def x2_def x1_def S_def ct_wait_def ct_wake_def set_thread_def cv_start_def
  have s0: "(cv_step True True)\<^sup>*\<^sup>* cv_start (S (ct_wait True (cs_thread cv_start 1)) [1] (Some 1) None)"
    using cv_wait_reach [of True True True] by (simp add: S_def set_thread_def cv_start_def)
  have s1: "cv_step True True (S (ct_wait True (cs_thread cv_start 1)) [1] (Some 1) None) (S x1 [1] (Some 1) None)"
    using callback_insert [of "S (ct_wait True (cs_thread cv_start 1)) [1] (Some 1) None" 1] by (simp add: defs)
  have s2: "cv_step True True (S x1 [1] (Some 1) None) (S x2 [1] None None)"
    using callback_exit [of "S x1 [1] (Some 1) None" 1] by (simp add: defs)
  have s3: "cv_step True True (S x2 [1] None None) (S x3 [1] None None)"
    using timer_fire [of "S x2 [1] None None" 1] by (simp add: defs)
  have s4: "cv_step True True (S x3 [1] None None) (S x4 [1] None None)"
    using timer_wake [of "S x3 [1] None None" 1] by (simp add: defs)
  have s5: "cv_step True True (S x4 [1] None None) (S x5 [1] None None)"
    using resume [of "S x4 [1] None None" 1] by (simp add: defs)
  have s6: "cv_step True True (S x5 [1] None None) (S x5 [1] (Some 2) None)"
    using lock [of "S x5 [1] None None" 2] by (simp add: defs)
  have s7: "cv_step True True (S x5 [1] (Some 2) None) (S x6 [1] (Some 2) None)"
    using relock_block [of True "S x5 [1] (Some 2) None" 1] by (simp add: defs)
  have s8: "cv_step True True (S x6 [1] (Some 2) None) (S x7 [] (Some 2) (Some 1))"
    using signal [of "S x6 [1] (Some 2) None" 2 1 "[]"] by (simp add: defs)
  have s9: "cv_step True True (S x7 [] (Some 2) (Some 1)) (S x8 [] (Some 2) None)"
    using signal_wake [of "S x7 [] (Some 2) (Some 1)" 1] by (simp add: defs)
  have s10: "cv_step True True (S x8 [] (Some 2) None) (S x9 [] (Some 2) None)"
    using resume_mutex [of "S x8 [] (Some 2) None" 1] by (simp add: defs)
  have "(cv_step True True)\<^sup>*\<^sup>* cv_start (S x9 [] (Some 2) None)"
    using s0 s1 s2 s3 s4 s5 s6 s7 s8 s9 s10 by (meson rtranclp.rtrancl_into_rtrancl)
  then show ?thesis by (intro exI [of _ "S x9 [] (Some 2) None"]) (simp add: defs)
qed

end
