(* ===== verification/Clock.thy ===== *)
theory Clock
  imports Prelude
begin

text \<open>
  Dates: \<^verbatim>\<open>platform/hw/clock_subr.c\<close>, on 64-bit words as the code has them, against the days of the
  Gregorian calendar.
\<close>

unbundle bit_operations_syntax

section \<open>Dates\<close>

definition SECS_PER_DAY :: nat where "SECS_PER_DAY = 86400"
definition DAYS_PER_COMMON_YEAR :: u64 where "DAYS_PER_COMMON_YEAR = 365"
definition DAYS_PER_LEAP_YEAR :: u64 where "DAYS_PER_LEAP_YEAR = 366"
definition POSIX_BASE_YEAR :: u64 where "POSIX_BASE_YEAR = 1970"
definition FEBRUARY :: u8 where "FEBRUARY = 2"
definition DAYSTO2000 :: u64 where "DAYSTO2000 = 365 * 30 + 7"
definition DAYS4YEARS :: u64 where "DAYS4YEARS = 365 * 4 + 1"
definition DAYS100YEARS :: u64 where "DAYS100YEARS = 365 * 100 + 24"
definition DAYS400YEARS :: u64 where "DAYS400YEARS = 365 * 400 + 97"

definition days_in_month :: "nat \<Rightarrow> int" where
  "days_in_month m =
     (if m = 2 then 28
      else if m \<in> {4, 6, 9, 11} then 30
      else if m \<in> {1, 3, 5, 7, 8, 10, 12} then 31
      else - 1)"

definition is_leap_year :: "u64 \<Rightarrow> bool" where
  "is_leap_year year = (if year AND 3 \<noteq> 0 then False else if year mod 100 \<noteq> 0 then True else year mod 400 = 0)"

definition days_per_year :: "u64 \<Rightarrow> u64" where
  "days_per_year year = (if is_leap_year year then DAYS_PER_LEAP_YEAR else DAYS_PER_COMMON_YEAR)"

record bmk_clock_ymdhms =
  dt_year :: u64
  dt_mon :: u8
  dt_day :: u8
  dt_hour :: u8
  dt_min :: u8
  dt_sec :: u8

lemma unat_small: "n < 2 ^ 64 \<Longrightarrow> unat (word_of_nat n :: u64) = n"
  by (simp add: unsigned_of_nat take_bit_nat_eq_self)

lemma unat_incr: "i < (y :: u64) \<Longrightarrow> unat (i + 1) = unat i + 1"
  using unsigned_less [of y, where 'a = nat] by (simp add: word_less_nat_alt unat_word_ariths)

text \<open>The two loops over years, and the loop over months, with the days counted so far.\<close>

function years_loop :: "u64 \<Rightarrow> u64 \<Rightarrow> u64 \<Rightarrow> u64" where
  "years_loop i year days = (if i < year then years_loop (i + 1) year (days + days_per_year i) else days)"
  by auto
termination
proof (relation "measure (\<lambda>(i, year, days). unat year - unat i)")
  fix i year days :: u64
  assume "i < year"
  then show "((i + 1, year, days + days_per_year i), (i, year, days)) \<in> measure (\<lambda>(i, year, days). unat year - unat i)"
    using unat_incr [of i year] by (simp add: word_less_nat_alt)
qed simp

declare years_loop.simps [simp del]

fun months_loop :: "nat \<Rightarrow> nat \<Rightarrow> u64 \<Rightarrow> u64" where
  "months_loop i 0 days = days"
| "months_loop i (Suc n) days = months_loop (Suc i) n (days + word_of_int (days_in_month i))"

text \<open>The part of \<^verbatim>\<open>clock_ymdhms_to_secs\<close> that goes through the years; \<open>year0\<close> is \<^verbatim>\<open>dt->dt_year\<close>.\<close>

definition year_part :: "u64 \<Rightarrow> u64 \<Rightarrow> u64" where
  "year_part year0 d0 =
     (if year0 < 2000 then years_loop POSIX_BASE_YEAR year0 d0
      else
        let days = d0 + DAYSTO2000; year = year0 - 2000;
            i = year div 400; days = days + i * DAYS400YEARS; year = year - i * 400;
            i = year div 100; days = days + i * DAYS100YEARS; year = year - i * 100;
            i = year div 4; days = days + i * DAYS4YEARS; year = year - i * 4
        in years_loop (year0 - year) year0 days)"

text \<open>\<^verbatim>\<open>months_loop 1 (mon - 1)\<close> is the loop from 1 up to \<^verbatim>\<open>mon\<close>.\<close>

definition clock_ymdhms_to_secs :: "bmk_clock_ymdhms \<Rightarrow> u64" where
  "clock_ymdhms_to_secs dt =
     (if dt_year dt < POSIX_BASE_YEAR then 0
      else
        let days = (if is_leap_year (dt_year dt) \<and> FEBRUARY < dt_mon dt then 1 else 0);
            days = year_part (dt_year dt) days;
            days = months_loop 1 (unat (dt_mon dt) - 1) days;
            days = days + (ucast (dt_day dt) - 1)
        in ((days * 24 + ucast (dt_hour dt)) * 60 + ucast (dt_min dt)) * 60 + ucast (dt_sec dt))"

subsection \<open>The Gregorian calendar\<close>

text \<open>The macro that the comment on \<^verbatim>\<open>is_leap_year\<close> quotes, and what follows from it.\<close>

definition greg_leap :: "nat \<Rightarrow> bool" where
  "greg_leap y \<longleftrightarrow> y mod 4 = 0 \<and> y mod 100 \<noteq> 0 \<or> y mod 400 = 0"

definition year_len :: "nat \<Rightarrow> nat" where
  "year_len y = (if greg_leap y then 366 else 365)"

definition month_len :: "nat \<Rightarrow> nat \<Rightarrow> nat" where
  "month_len y m = (if m = 2 \<and> greg_leap y then 29 else nat (days_in_month m))"

definition days_since_epoch :: "nat \<Rightarrow> nat \<Rightarrow> nat \<Rightarrow> nat" where
  "days_since_epoch y m d = (\<Sum>i = 1970..<y. year_len i) + (\<Sum>i = 1..<m. month_len y i) + (d - 1)"

text \<open>The years for which \<^verbatim>\<open>clock_ymdhms_to_secs\<close> is one day short.\<close>

definition short_year :: "nat \<Rightarrow> bool" where
  "short_year y \<longleftrightarrow> 2000 \<le> y \<and> y mod 100 < 4 \<and> 100 \<le> y mod 400"

lemma mod_multiple: "n mod 400 = 0 \<Longrightarrow> n mod 100 = (0 :: nat)" "n mod 100 = 0 \<Longrightarrow> n mod 4 = (0 :: nat)"
  using mod_mod_cancel [of "100 :: nat" 400 n] mod_mod_cancel [of "4 :: nat" 100 n] by simp_all

lemma leap_year_eq: "is_leap_year y \<longleftrightarrow> greg_leap (unat y)"
proof -
  have "(y AND 3) = take_bit 2 y" by (simp add: take_bit_eq_mask mask_eq_exp_minus_1)
  then have "y AND 3 = 0 \<longleftrightarrow> unat y mod 4 = 0"
    by (simp add: unat_eq_0 [symmetric] unat_take_bit_mod del: unat_eq_0)
  moreover have "y mod 100 = 0 \<longleftrightarrow> unat y mod 100 = 0" "y mod 400 = 0 \<longleftrightarrow> unat y mod 400 = 0"
    by (simp_all add: unat_mod_distrib unat_eq_0 [symmetric] del: unat_eq_0)
  ultimately show ?thesis using mod_multiple [of "unat y"] unfolding is_leap_year_def greg_leap_def by argo
qed

lemma years_loop_sum: "i \<le> y \<Longrightarrow> years_loop i y d = d + word_of_nat (\<Sum>j = unat i..<unat y. year_len j)"
proof (induction i y d rule: years_loop.induct)
  case (1 i y d)
  show ?case
  proof (cases "i < y")
    case True
    then have "i + 1 \<le> y" "unat i < unat y" using unat_incr [OF True] by (simp_all add: word_le_nat_alt word_less_nat_alt)
    moreover have "days_per_year i = word_of_nat (year_len (unat i))"
      by (simp add: days_per_year_def year_len_def leap_year_eq DAYS_PER_LEAP_YEAR_def DAYS_PER_COMMON_YEAR_def)
    ultimately show ?thesis
      using 1(1) [OF True] True unat_incr [OF True] by (subst years_loop.simps) (simp add: sum.atLeast_Suc_lessThan add.assoc)
  next
    case False
    then show ?thesis using 1(2) by (subst years_loop.simps) simp
  qed
qed

lemma months_loop_sum: "months_loop i n d = d + word_of_int (\<Sum>j = i..<i + n. days_in_month j)"
  by (induction n arbitrary: i d) (simp_all add: sum.atLeast_Suc_lessThan add.assoc)

text \<open>Leap years from 2000 on, and the days of \<open>n\<close> years.\<close>

definition leaps :: "nat \<Rightarrow> int" where
  "leaps n = int ((n + (4 - 1)) div 4) - int ((n + (100 - 1)) div 100) + int ((n + (400 - 1)) div 400)"

lemma ceil_Suc:
  assumes "0 < k"
  shows "(Suc n + (k - 1)) div k = (n + (k - 1)) div k + (if n mod k = 0 then 1 else 0)"
proof -
  have "Suc (n + (k - 1)) = n + k" using assms by simp
  then show ?thesis using div_Suc [of "n + (k - 1)" k] by simp
qed

lemma mod_2000: "(2000 + n) mod 4 = n mod (4 :: nat)" "(2000 + n) mod 100 = n mod (100 :: nat)" "(2000 + n) mod 400 = n mod (400 :: nat)"
  using mod_mult_self3 [of "500 :: nat" 4 n] mod_mult_self3 [of "20 :: nat" 100 n] mod_mult_self3 [of "5 :: nat" 400 n] by simp_all

lemma leaps_Suc: "leaps (Suc n) = leaps n + (if greg_leap (2000 + n) then 1 else 0)"
proof -
  have "(n mod 400 = 0 \<longrightarrow> n mod 100 = 0) \<and> (n mod 100 = 0 \<longrightarrow> n mod 4 = 0)" using mod_multiple [of n] by blast
  then show ?thesis
    unfolding leaps_def greg_leap_def mod_2000 ceil_Suc [OF zero_less_numeral]
    by (cases "n mod 4 = 0"; cases "n mod 100 = 0"; cases "n mod 400 = 0") (simp_all only: if_True if_False, simp_all)
qed

lemma year_days: "int (\<Sum>i = 1970..<2000 + n. year_len i) = 10957 + 365 * int n + leaps n"
proof (induction n)
  case 0
  have "(\<Sum>i = 1970..<2000. year_len i) = sum_list (map year_len [1970..<2000])"
    by (simp only: interv_sum_list_conv_sum_set_nat set_upt)
  also have "\<dots> = 10957" by (simp add: upt_rec_numeral year_len_def greg_leap_def)
  finally have "(\<Sum>i = 1970..<2000. year_len i) = 10957" .
  then show ?case by (simp add: leaps_def)
next
  case (Suc n)
  have "(\<Sum>i = 1970..<2000 + Suc n. year_len i) = (\<Sum>i = 1970..<2000 + n. year_len i) + year_len (2000 + n)"
    using sum.atLeastLessThan_Suc [of 1970 "2000 + n" year_len] by simp
  then show ?case using Suc.IH by (simp only: of_nat_add leaps_Suc) (simp add: year_len_def)
qed

text \<open>The code's split of the years after 2000 into blocks of 400, 100, 4 and single years.\<close>

definition split_days :: "nat \<Rightarrow> nat" where
  "split_days n = 10957 + n div 400 * 146097 + n mod 400 div 100 * 36524 + n mod 400 mod 100 div 4 * 1461 +
     (\<Sum>i = 2000 + n - n mod 400 mod 100 mod 4..<2000 + n. year_len i)"

lemma div_mod_split: "n = k * q + r \<Longrightarrow> r < k \<Longrightarrow> n div k = q \<and> n mod k = (r :: nat)"
  by simp

lemma not_leap: "y mod 4 \<noteq> 0 \<Longrightarrow> \<not> greg_leap y"
  unfolding greg_leap_def by (metis mod_multiple)

lemma rest_years:
  assumes "d < 4" "m = 4 * q"
  shows "(\<Sum>i = m..<m + d. year_len i) = 365 * d + (if 0 < d \<and> greg_leap m then 1 else 0)"
proof -
  have "(m + 1) mod 4 = 1" "(m + 2) mod 4 = 2"
    using div_mod_split [of "m + 1" 4 q 1] div_mod_split [of "m + 2" 4 q 2] assms(2) by simp_all
  then have n: "year_len (m + 1) = 365" "year_len (m + 2) = 365"
    using not_leap [of "m + 1"] not_leap [of "m + 2"] by (simp_all add: year_len_def)
  have s: "(\<Sum>i = m..<m + 1. year_len i) = year_len m" "(\<Sum>i = m..<m + 2. year_len i) = year_len m + year_len (m + 1)"
    "(\<Sum>i = m..<m + 3. year_len i) = year_len m + year_len (m + 1) + year_len (m + 2)"
    by (simp_all add: numeral_eq_Suc)
  have "d = 0 \<or> d = 1 \<or> d = 2 \<or> d = 3" using assms(1) by linarith
  then show ?thesis using s n by (elim disjE) (simp_all add: year_len_def)
qed

lemma ceil_split:
  assumes "n = k * q + r" "r < k"
  shows "(n + (k - 1)) div k = q + (if 0 < r then 1 else (0 :: nat))"
proof (cases "0 < r")
  case True
  then have "n + (k - 1) = k * (q + 1) + (r - 1)" using assms by (simp add: algebra_simps)
  moreover have "r - 1 < k" using assms(2) by simp
  ultimately have "(n + (k - 1)) div k = q + 1" using div_mod_split by blast
  then show ?thesis using True by simp
next
  case False
  then show ?thesis using div_mod_split [of "n + (k - 1)" k q "k - 1"] assms by simp
qed

lemma split_days_eq: "int (split_days n) = int (\<Sum>i = 1970..<2000 + n. year_len i) - (if short_year (2000 + n) then 1 else 0)"
proof -
  define a where "a = n div 400"
  define b where "b = n mod 400 div 100"
  define c where "c = n mod 400 mod 100 div 4"
  define d where "d = n mod 400 mod 100 mod 4"
  note defs = a_def b_def c_def d_def
  have n: "n = 400 * a + (100 * b + (4 * c + d))" unfolding defs by simp
  have bounds: "b < 4" "4 * c + d < 100" "d < 4" "c < 25" unfolding defs by (simp_all add: less_mult_imp_div_less)
  define m where "m = 2000 + (400 * a + (100 * b + 4 * c))"
  have y: "2000 + n = m + d" "2000 + n - d = m" using n by (simp_all add: m_def)
  have rest: "(\<Sum>i = m..<m + d. year_len i) = 365 * d + (if 0 < d \<and> greg_leap m then 1 else 0)"
    by (rule rest_years [OF bounds(3), of _ "500 + 100 * a + 25 * b + c"]) (simp add: m_def)
  have m: "m mod 100 = 4 * c" "m mod 400 = 100 * b + 4 * c" "m mod 4 = 0"
    using div_mod_split [of m 100 "20 + 4 * a + b" "4 * c"] div_mod_split [of m 400 "5 + a" "100 * b + 4 * c"]
      div_mod_split [of m 4 "500 + 100 * a + 25 * b + c" 0] bounds by (simp_all add: m_def)
  have leap: "greg_leap m \<longleftrightarrow> \<not> (c = 0 \<and> 0 < b)" unfolding greg_leap_def m by auto
  have ceil: "(n + (4 - 1)) div 4 = 100 * a + 25 * b + c + (if 0 < d then 1 else 0)"
    by (rule ceil_split) (use n bounds in simp_all)
  have ceil': "(n + (100 - 1)) div 100 = 4 * a + b + (if 0 < 4 * c + d then 1 else 0)"
    by (rule ceil_split) (use n bounds in simp_all)
  have ceil'': "(n + (400 - 1)) div 400 = a + (if 0 < 100 * b + (4 * c + d) then 1 else 0)"
    by (rule ceil_split) (use n bounds in simp_all)
  have y': "(2000 + n) mod 100 = 4 * c + d" "(2000 + n) mod 400 = 100 * b + (4 * c + d)"
    using div_mod_split [of "2000 + n" 100 "20 + 4 * a + b" "4 * c + d"] div_mod_split [of "2000 + n" 400 "5 + a" "100 * b + (4 * c + d)"]
      n bounds by simp_all
  have short: "short_year (2000 + n) \<longleftrightarrow> c = 0 \<and> 0 < b" unfolding short_year_def y' using bounds by auto
  have "split_days n = 10957 + a * 146097 + b * 36524 + c * 1461 + (365 * d + (if 0 < d \<and> greg_leap m then 1 else 0))"
    unfolding split_days_def defs [symmetric] y(1) add_diff_cancel_right' rest ..
  moreover have "int n = 400 * int a + 100 * int b + 4 * int c + int d" using n by simp
  ultimately show ?thesis
    unfolding year_days leaps_def ceil ceil' ceil'' leap short by (cases "c = 0"; cases "b = 0"; cases "d = 0") simp_all
qed

lemma word_div_nat:
  assumes "n < 2 ^ 64"
  shows "(word_of_nat n :: u64) div 400 = word_of_nat (n div 400)" "(word_of_nat n :: u64) div 100 = word_of_nat (n div 100)"
    "(word_of_nat n :: u64) div 4 = word_of_nat (n div 4)"
  using assms le_less_trans [OF div_le_dividend assms]
  by (simp_all add: word_unat_eq_iff unat_div_distrib unsigned_of_nat take_bit_nat_eq_self)

lemma word_mod_nat: "(word_of_nat n :: u64) - word_of_nat (n div numeral k) * numeral k = word_of_nat (n mod numeral k)"
proof -
  have "(word_of_nat n :: u64) = word_of_nat (n div numeral k * numeral k + n mod numeral k)" by simp
  then show ?thesis by (simp only: of_nat_add of_nat_mult of_nat_numeral) simp
qed

text \<open>The days of the years, as the code computes them from 2000 on.\<close>

lemma split_code:
  assumes "2000 \<le> y" "y < 2 ^ 64"
  defines "n \<equiv> y - 2000"
  shows "(let days = d0 + DAYSTO2000; year = word_of_nat y - 2000;
             i = year div 400; days = days + i * DAYS400YEARS; year = year - i * 400;
             i = year div 100; days = days + i * DAYS100YEARS; year = year - i * 100;
             i = year div 4; days = days + i * DAYS4YEARS; year = year - i * 4
         in years_loop (word_of_nat y - year) (word_of_nat y) days) = d0 + word_of_nat (split_days n)"
proof -
  have n: "n < 2 ^ 64" "n mod 400 < 2 ^ 64" "n mod 400 mod 100 < 2 ^ 64" using assms(2)
    by (simp_all add: n_def less_imp_diff_less le_less_trans [OF mod_less_eq_dividend])
  have y: "word_of_nat y - 2000 = (word_of_nat n :: u64)" using assms(1) by (simp add: n_def of_nat_diff)
  define r where "r = n mod 400 mod 100 mod 4"
  have r: "r \<le> y" using assms(1) mod_less_divisor [of 4 "n mod 400 mod 100"] unfolding r_def by linarith
  have "(word_of_nat y - word_of_nat r :: u64) = word_of_nat (y - r)" by (simp add: of_nat_diff [OF r])
  moreover have "unat (word_of_nat y :: u64) = y" "unat (word_of_nat (y - r) :: u64) = y - r"
    using assms(2) by (simp_all add: unat_small)
  ultimately have loop: "years_loop (word_of_nat y - word_of_nat r) (word_of_nat y) e = e + word_of_nat (\<Sum>i = y - r..<y. year_len i)" for e
    using years_loop_sum [of "word_of_nat (y - r)" "word_of_nat y" e] by (simp add: word_le_nat_alt)
  have "y = 2000 + n" using assms(1) by (simp add: n_def)
  then show ?thesis
    unfolding Let_def y word_div_nat [OF n(1)] word_mod_nat word_div_nat [OF n(2)] word_div_nat [OF n(3)] loop [unfolded r_def]
      DAYSTO2000_def DAYS400YEARS_def DAYS100YEARS_def DAYS4YEARS_def split_days_def by (simp add: add.assoc)
qed

lemma month_days:
  assumes "m \<le> 12"
  shows "(\<Sum>j = 1..<m. days_in_month j) = int (\<Sum>j = 1..<m. month_len y j) - (if greg_leap y \<and> 2 < m then 1 else 0)"
proof -
  have "days_in_month j = int (month_len y j) - (if j = 2 then if greg_leap y then 1 else 0 else 0)" if "j \<in> {1..<m}" for j
  proof -
    have u: "[1..<12] = [1, 2, 3, 4, 5, 6, 7, 8, 9, 10, 11 :: nat]" by (simp add: upt_rec)
    have "j \<in> set [1..<12]" using that assms by simp
    then have "j \<in> {1, 2, 3, 4, 5, 6, 7, 8, 9, 10, 11}" unfolding u by simp
    then show ?thesis by (auto simp: days_in_month_def month_len_def)
  qed
  then have "(\<Sum>j = 1..<m. days_in_month j) =
      (\<Sum>j = 1..<m. int (month_len y j) - (if j = 2 then if greg_leap y then 1 else 0 else 0))" by (rule sum.cong [OF refl])
  also have "\<dots> = int (\<Sum>j = 1..<m. month_len y j) - (\<Sum>j = 1..<m. if j = 2 then if greg_leap y then 1 else 0 else 0)"
    by (simp add: sum_subtractf)
  finally show ?thesis by (simp add: sum.delta)
qed

text \<open>The day count of the code, for a date of the calendar.\<close>

definition date_ok :: "bmk_clock_ymdhms \<Rightarrow> bool" where
  "date_ok dt \<longleftrightarrow> 1970 \<le> dt_year dt \<and> dt_year dt < 2 ^ 39 \<and> 1 \<le> dt_mon dt \<and> dt_mon dt \<le> 12 \<and> 1 \<le> dt_day dt"

definition date_secs :: "bmk_clock_ymdhms \<Rightarrow> nat" where
  "date_secs dt = ((days_since_epoch (unat (dt_year dt)) (unat (dt_mon dt)) (unat (dt_day dt)) * 24 + unat (dt_hour dt)) * 60 +
     unat (dt_min dt)) * 60 + unat (dt_sec dt)"

lemma year_len_le: "year_len y \<le> 366"
  by (simp add: year_len_def)

lemma days_le:
  assumes "m \<le> 12"
  shows "days_since_epoch y m d \<le> 366 * (y - 1970) + 372 + (d - 1)"
proof -
  have "(\<Sum>i = 1970..<y. year_len i) \<le> (\<Sum>i = 1970..<y. 366)" by (rule sum_mono) (rule year_len_le)
  moreover have "(\<Sum>i = 1..<m. month_len y i) \<le> (\<Sum>i = 1..<m. 31)"
    by (rule sum_mono) (auto simp: month_len_def days_in_month_def)
  moreover have "(\<Sum>i = 1..<m. 31) \<le> (372 :: nat)" using assms by simp
  ultimately show ?thesis unfolding days_since_epoch_def by simp
qed

lemma days_bound:
  assumes "y < 2 ^ 39" "m \<le> 12" "d < 256"
  shows "days_since_epoch y m d < 366 * 2 ^ 39 + 1000"
  using days_le [OF assms(2), of y d] assms(1,3) by linarith

lemma year_part_days:
  assumes "1970 \<le> y" "y < 2 ^ 64"
  shows "year_part (word_of_nat y) d0 = d0 + word_of_int (int (\<Sum>i = 1970..<y. year_len i) - (if short_year y then 1 else 0))"
proof (cases "y < 2000")
  case True
  have u: "unat (word_of_nat y :: u64) = y" by (rule unat_small [OF assms(2)])
  have "year_part (word_of_nat y) d0 = years_loop 1970 (word_of_nat y) d0"
    using True by (simp add: year_part_def POSIX_BASE_YEAR_def word_less_nat_alt u)
  also have "\<dots> = d0 + word_of_nat (\<Sum>i = 1970..<y. year_len i)"
    using years_loop_sum [of 1970 "word_of_nat y" d0] assms(1) by (simp add: word_le_nat_alt u)
  finally show ?thesis using True by (simp add: short_year_def)
next
  case False
  then have y: "2000 \<le> y" "2000 + (y - 2000) = y" by simp_all
  have u: "unat (word_of_nat y :: u64) = y" by (rule unat_small [OF assms(2)])
  have "year_part (word_of_nat y) d0 = d0 + word_of_nat (split_days (y - 2000))"
    unfolding split_code [OF y(1) assms(2), symmetric] using False by (simp only: year_part_def word_less_nat_alt u) simp
  also have "word_of_nat (split_days (y - 2000)) = (word_of_int (int (split_days (y - 2000))) :: u64)" by simp
  finally show ?thesis unfolding split_days_eq y(2) .
qed

lemma clock_days:
  assumes "date_ok dt"
  defines "y \<equiv> unat (dt_year dt)" and "m \<equiv> unat (dt_mon dt)" and "d \<equiv> unat (dt_day dt)"
  shows "clock_ymdhms_to_secs dt =
    ((word_of_int (int (days_since_epoch y m d) - (if short_year y then 1 else 0)) * 24 + ucast (dt_hour dt)) * 60 + ucast (dt_min dt)) * 60 +
      ucast (dt_sec dt)"
proof -
  let ?l = "if greg_leap y \<and> 2 < m then 1 else 0 :: int"
  have y: "1970 \<le> y" "y < 2 ^ 64" "dt_year dt = word_of_nat y" "\<not> dt_year dt < POSIX_BASE_YEAR"
    using assms(1) unsigned_less [of "dt_year dt", where 'a = nat]
    by (simp_all add: date_ok_def y_def word_le_nat_alt POSIX_BASE_YEAR_def word_less_nat_alt)
  have m: "1 \<le> m" "m \<le> 12" "FEBRUARY < dt_mon dt \<longleftrightarrow> 2 < m" and d: "1 \<le> d"
    using assms(1) by (simp_all add: date_ok_def m_def d_def word_le_nat_alt word_less_nat_alt FEBRUARY_def)
  have d0: "(if is_leap_year (dt_year dt) \<and> FEBRUARY < dt_mon dt then 1 else 0) = (word_of_int ?l :: u64)"
    by (simp add: leap_year_eq m(3) y_def [symmetric])
  have day: "ucast (dt_day dt) - 1 = (word_of_int (int (d - 1)) :: u64)"
  proof -
    have "ucast (dt_day dt) = (word_of_nat d :: u64)" by (simp add: d_def)
    then show ?thesis using d by (simp add: of_nat_diff)
  qed
  have months: "months_loop 1 (m - 1) w = w + word_of_int (int (\<Sum>j = 1..<m. month_len y j) - ?l)" for w
    using m month_days [of m y] by (simp add: months_loop_sum)
  have "months_loop 1 (m - 1) (year_part (dt_year dt) (word_of_int ?l)) + (ucast (dt_day dt) - 1) =
      word_of_int (int (days_since_epoch y m d) - (if short_year y then 1 else 0))"
    unfolding months y(3) year_part_days [OF y(1,2)] day by (simp add: days_since_epoch_def)
  then show ?thesis
    using y(4) unfolding clock_ymdhms_to_secs_def d0 m_def [symmetric] Let_def by simp
qed

lemma short_days: "short_year y \<Longrightarrow> 1 \<le> days_since_epoch y m d"
proof -
  assume "short_year y"
  then have "{1970} \<subseteq> {1970..<y}" by (auto simp: short_year_def)
  then have "(\<Sum>i\<in>{1970}. year_len i) \<le> (\<Sum>i = 1970..<y. year_len i)" by (intro sum_mono2) auto
  then show ?thesis by (simp add: days_since_epoch_def year_len_def split: if_splits)
qed

lemma clock_secs:
  assumes ok: "date_ok dt"
  shows "unat (clock_ymdhms_to_secs dt) = date_secs dt - (if short_year (unat (dt_year dt)) then SECS_PER_DAY else 0)"
proof -
  let ?D = "days_since_epoch (unat (dt_year dt)) (unat (dt_mon dt)) (unat (dt_day dt))"
  let ?s = "if short_year (unat (dt_year dt)) then 1 else 0 :: nat"
  let ?t = "\<lambda>n. ((n * 24 + unat (dt_hour dt)) * 60 + unat (dt_min dt)) * 60 + unat (dt_sec dt)"
  have "?s \<le> ?D" using short_days by simp
  then have "int ?D - (if short_year (unat (dt_year dt)) then 1 else 0) = int (?D - ?s)" by auto
  then have c: "clock_ymdhms_to_secs dt = word_of_nat (?t (?D - ?s))" using clock_days [OF ok] by simp
  have b: "unat (dt_day dt) < 256" "unat (dt_hour dt) < 256" "unat (dt_min dt) < 256" "unat (dt_sec dt) < 256"
    using unsigned_less [of "dt_day dt", where 'a = nat] unsigned_less [of "dt_hour dt", where 'a = nat]
      unsigned_less [of "dt_min dt", where 'a = nat] unsigned_less [of "dt_sec dt", where 'a = nat] by simp_all
  have "?D < 366 * 2 ^ 39 + 1000" using ok b(1) by (intro days_bound) (simp_all add: date_ok_def word_less_nat_alt word_le_nat_alt)
  then have "?t (?D - ?s) < 2 ^ 64" using b by simp
  then have "unat (clock_ymdhms_to_secs dt) = ?t (?D - ?s)" unfolding c by (rule unat_small)
  also have "\<dots> = date_secs dt - (if short_year (unat (dt_year dt)) then SECS_PER_DAY else 0)"
    using \<open>?s \<le> ?D\<close> by (auto simp: date_secs_def SECS_PER_DAY_def diff_mult_distrib)
  finally show ?thesis .
qed


definition demo_date :: bmk_clock_ymdhms where
  "demo_date = \<lparr>dt_year = 1970, dt_mon = 3, dt_day = 1, dt_hour = 1, dt_min = 2, dt_sec = 3\<rparr>"


end
