(* ===== verification/X86_Clock.thy ===== *)
theory X86_Clock
  imports Clock
begin

text \<open>
  Time on x86, from \<^verbatim>\<open>platform/hw/arch/x86/clock.c\<close>: fixed-point scaling, the interval timer's sleep, and the clock
  the hypervisor shares with the guest.
\<close>

unbundle bit_operations_syntax

section \<open>Fixed-point multiplication\<close>

text \<open>
  \<^verbatim>\<open>mul64_32\<close> for x86_64: \<^verbatim>\<open>mul\<close> leaves the 128-bit product in \<^verbatim>\<open>rdx:rax\<close>, \<^verbatim>\<open>shrd\<close> shifts its low 32 bits
  out of \<^verbatim>\<open>rax\<close> and the low bits of \<^verbatim>\<open>rdx\<close> in.
\<close>

definition mul64_32 :: "u64 \<Rightarrow> u32 \<Rightarrow> u64" where
  "mul64_32 a b =
     (let prod = (ucast a :: 128 word) * ucast b;
          rax = ucast prod :: u64; rdx = ucast (drop_bit 64 prod) :: u64
      in drop_bit 32 rax OR push_bit 32 rdx)"

text \<open>
  The version for i386: \<^verbatim>\<open>t1\<close> is the high half of \<^verbatim>\<open>l * b\<close>, which is added to the low half of \<^verbatim>\<open>h * b\<close>, with the
  carry into the high half.
\<close>

definition mul64_32_i386 :: "u64 \<Rightarrow> u32 \<Rightarrow> u64" where
  "mul64_32_i386 a b =
     (let h = ucast (drop_bit 32 a) :: u32; l = ucast a :: u32;
          lb = (ucast l :: u64) * ucast b; t1 = ucast (drop_bit 32 lb) :: u32;
          hb = (ucast h :: u64) * ucast b; eax = ucast hb :: u32; edx = ucast (drop_bit 32 hb) :: u32;
          sum = unat eax + unat t1; carry = (if 2 ^ 32 \<le> sum then 1 else 0)
      in push_bit 32 (ucast (edx + carry)) OR ucast (eax + t1))"

lemma unat_ucast: "unat (ucast (w :: 'a::len word) :: 'b::len word) = unat w mod 2 ^ LENGTH('b)"
  by (simp add: unsigned_ucast_eq take_bit_eq_mod)

lemma unat_drop: "unat (drop_bit n (w :: 'a::len word)) = unat w div 2 ^ n"
  by (simp only: unat_drop_bit_eq) (simp only: drop_bit_eq_div)

lemma or_push:
  assumes "unat x < 2 ^ 32"
  shows "(x :: u64) OR push_bit 32 y = x + push_bit 32 y"
proof -
  have "\<not> bit x n" if "32 \<le> n" for n
  proof -
    have "take_bit 32 x = x" using assms by (simp add: word_unat_eq_iff unat_take_bit_mod)
    then show ?thesis using that by (metis bit_take_bit_iff not_less)
  qed
  then show ?thesis by (intro disjunctive_add [symmetric]) (auto simp: bit_push_bit_iff)
qed

lemma unat_push: "unat y < 2 ^ 32 \<Longrightarrow> unat (push_bit 32 (y :: u64)) = unat y * 2 ^ 32"
  by (simp add: push_bit_eq_mult unat_word_ariths)

lemma unat_of_nat_u32: "unat (word_of_nat n :: u32) = n mod 2 ^ 32"
  by (simp add: unsigned_of_nat take_bit_eq_mod)

lemma unat_u32: "unat (b :: u32) < 2 ^ 32"
  using unsigned_less [of b, where 'a = nat] by simp

lemma unat_u64: "unat (a :: u64) < 2 ^ 64"
  using unsigned_less [of a, where 'a = nat] by simp

lemma div_64_32: "p mod 2 ^ 64 div 2 ^ 32 + p div 2 ^ 64 * 2 ^ 32 = p div (2 ^ 32 :: nat)"
proof -
  have "(2 :: nat) ^ 64 = 2 ^ 32 * 2 ^ 32" by simp
  then have "p = p mod 2 ^ 64 + (p div 2 ^ 64 * 2 ^ 32) * 2 ^ 32" by (metis mod_div_mult_eq mult.assoc)
  then show ?thesis using div_mult_self1 [of "2 ^ 32" "p mod 2 ^ 64" "p div 2 ^ 64 * 2 ^ 32"] by simp
qed

lemma mul64_32_unat: "unat (mul64_32 a b) = unat a * unat b div 2 ^ 32"
proof -
  let ?P = "unat a * unat b"
  define prod :: "128 word" where "prod = ucast a * ucast b"
  define rax :: u64 where "rax = ucast prod"
  define rdx :: u64 where "rdx = ucast (drop_bit 64 prod)"
  have P: "?P < 2 ^ 96" using mult_strict_mono [OF unat_u64 [of a] unat_u32 [of b]] by simp
  have "unat prod = ?P" using P unat_u64 [of a] unat_u32 [of b] by (simp add: prod_def unat_word_ariths unat_ucast)
  then have u: "unat rax = ?P mod 2 ^ 64" "unat rdx = ?P div 2 ^ 64"
    using P by (simp_all add: rax_def rdx_def unat_ucast unat_drop)
  have "unat rdx < 2 ^ 32" using P u(2) by (simp add: less_mult_imp_div_less)
  moreover have "unat (drop_bit 32 rax) < 2 ^ 32" by (simp add: unat_drop u less_mult_imp_div_less)
  moreover have "mul64_32 a b = drop_bit 32 rax OR push_bit 32 rdx" by (simp add: mul64_32_def Let_def prod_def rax_def rdx_def)
  ultimately have "mul64_32 a b = drop_bit 32 rax + push_bit 32 rdx" "unat (push_bit 32 rdx) = ?P div 2 ^ 64 * 2 ^ 32"
    using or_push unat_push u by simp_all
  moreover have "unat (drop_bit 32 rax) + ?P div 2 ^ 64 * 2 ^ 32 = ?P div 2 ^ 32"
    using div_64_32 [of ?P] by (simp only: unat_drop u)
  moreover have "?P div 2 ^ 32 < 2 ^ 64" using P by (simp add: less_mult_imp_div_less)
  ultimately show ?thesis by (simp only: unat_word_ariths) simp
qed

lemma mul64_32_i386_unat: "unat (mul64_32_i386 a b) = unat a * unat b div 2 ^ 32"
proof -
  define h where "h = unat a div 2 ^ 32"
  define l where "l = unat a mod 2 ^ 32"
  define lb where "lb = l * unat b"
  define t1 where "t1 = lb div 2 ^ 32"
  define hb where "hb = h * unat b"
  have l: "l < 2 ^ 32" and h: "h < 2 ^ 32" using unat_u64 [of a] by (simp_all add: l_def h_def less_mult_imp_div_less)
  have bb: "lb \<le> (2 ^ 32 - 1) * (2 ^ 32 - 1)" "hb \<le> (2 ^ 32 - 1) * (2 ^ 32 - 1)"
    unfolding hb_def lb_def by (intro mult_mono; use l h unat_u32 [of b] in simp)+
  then have t1: "t1 < 2 ^ 32" by (simp add: t1_def less_mult_imp_div_less)
  define eax where "eax = hb mod 2 ^ 32"
  define edx where "edx = hb div 2 ^ 32"
  define carry where "carry = (if 2 ^ 32 \<le> eax + t1 then 1 else 0 :: nat)"
  have hl: "(ucast (ucast (drop_bit 32 a) :: u32) :: u64) * ucast b = word_of_nat hb"
    "(ucast (ucast a :: u32) :: u64) * ucast b = word_of_nat lb"
    using bb h unat_u32 [of b] by (simp_all add: word_unat_eq_iff unat_word_ariths unat_ucast unat_drop unat_small h_def l_def hb_def lb_def)
  have parts: "(ucast (word_of_nat hb :: u64) :: u32) = word_of_nat eax" "(ucast (drop_bit 32 (word_of_nat hb :: u64)) :: u32) = word_of_nat edx"
    "(ucast (drop_bit 32 (word_of_nat lb :: u64)) :: u32) = word_of_nat t1"
    using bb t1 by (simp_all add: word_unat_eq_iff unat_ucast unat_drop unat_small unat_of_nat_u32 eax_def edx_def t1_def)
  have w: "mul64_32_i386 a b = push_bit 32 (ucast (word_of_nat edx + word_of_nat carry :: u32)) OR ucast (word_of_nat eax + word_of_nat t1 :: u32)"
    using t1 by (simp add: mul64_32_i386_def Let_def hl parts carry_def unat_of_nat_u32 eax_def)
  have e: "eax < 2 ^ 32" "hb = edx * 2 ^ 32 + eax" by (simp_all add: eax_def edx_def)
  have sum: "hb + t1 = (edx + carry) * 2 ^ 32 + (eax + t1) mod 2 ^ 32"
    using e t1 by (simp add: carry_def le_mod_geq)
  have "hb + t1 < 2 ^ 64" using bb(2) t1 by simp
  then have c: "edx + carry < 2 ^ 32" using sum by simp
  have x: "unat (ucast (word_of_nat eax + word_of_nat t1 :: u32) :: u64) = (eax + t1) mod 2 ^ 32"
    "unat (ucast (word_of_nat edx + word_of_nat carry :: u32) :: u64) = edx + carry"
    using c by (simp_all add: unat_ucast unat_of_nat_u32 flip: of_nat_add)
  let ?lo = "ucast (word_of_nat eax + word_of_nat t1 :: u32) :: u64" and ?hi = "ucast (word_of_nat edx + word_of_nat carry :: u32) :: u64"
  have "mul64_32_i386 a b = ?lo + push_bit 32 ?hi" unfolding w or.commute [of "push_bit 32 ?hi"] by (rule or_push) (simp add: x(1))
  moreover have "unat (push_bit 32 ?hi) = (edx + carry) * 2 ^ 32" using unat_push [of ?hi] x(2) c by simp
  ultimately have "unat (mul64_32_i386 a b) = hb + t1" using x(1) sum \<open>hb + t1 < 2 ^ 64\<close> by (simp add: unat_word_ariths)
  also have "\<dots> = (h * 2 ^ 32 * unat b + l * unat b) div 2 ^ 32" by (simp add: hb_def t1_def lb_def)
  also have "\<dots> = unat a * unat b div 2 ^ 32" by (simp add: h_def l_def flip: add_mult_distrib)
  finally show ?thesis .
qed

text \<open>
  \<^verbatim>\<open>mul64_32\<close> is the exact product shifted right by 32 bits for all arguments, so that it never overflows, and the
  version for i386 from partial products agrees with it.
\<close>

theorem mul64_32_exact: "unat (mul64_32 a b) = unat a * unat b div 2 ^ 32 \<and> mul64_32_i386 a b = mul64_32 a b"
  by (simp add: mul64_32_unat mul64_32_i386_unat word_unat_eq_iff)

section \<open>Sleeping with the interval timer\<close>

definition NSEC_PER_SEC :: u64 where "NSEC_PER_SEC = 1000000000"
definition TIMER_HZ :: u64 where "TIMER_HZ = 1193182"
definition PIT_MIN_DELTA :: u64 where "PIT_MIN_DELTA = 16"

definition pit_mult :: u32 where
  "pit_mult = ucast (push_bit 63 (1 :: u64) div (push_bit 31 NSEC_PER_SEC div TIMER_HZ))"

text \<open>
  What \<^verbatim>\<open>bmk_platform_cpu_block\<close> does, given the clock: return at once, open the interrupts for an instant, or
  write the two bytes to the counter and halt. Times are signed 64-bit numbers.
\<close>

datatype block_action = Late | Spin | Program u32 u32

definition bmk_platform_cpu_block :: "nat \<Rightarrow> int \<Rightarrow> int \<Rightarrow> block_action res" where
  "bmk_platform_cpu_block spldepth now until =
     bindE (assertE ''cpu->spldepth > 0'' (0 < spldepth)) (\<lambda>_.
     if until \<le> now then Inr Late
     else
       let delta_ns = word_of_int (until - now) :: u64; delta_ticks = mul64_32 delta_ns pit_mult in
       if delta_ticks < PIT_MIN_DELTA then Inr Spin
       else
         let ticks = (if 65535 < delta_ticks then 65535 else ucast delta_ticks) :: u32
         in Inr (Program ((ticks - 1) AND 0xff) (drop_bit 8 (ticks - 1))))"

text \<open>The timer interrupts one tick after it has counted down from the number written.\<close>

definition pit_ticks :: "u32 \<Rightarrow> u32 \<Rightarrow> nat" where
  "pit_ticks lo hi = unat lo + 256 * unat hi + 1"

lemma pit_mult_val: "pit_mult = 5124677"
  by (simp add: pit_mult_def NSEC_PER_SEC_def TIMER_HZ_def)

lemma ticks_bytes:
  assumes "1 \<le> n" "n < 2 ^ 16"
  defines "t \<equiv> word_of_nat n - 1 :: u32"
  shows "unat (t AND 0xff) < 256" "unat (drop_bit 8 t) < 256" "pit_ticks (t AND 0xff) (drop_bit 8 t) = n"
proof -
  have t: "t = word_of_nat (n - 1)" using assms(1) by (simp add: t_def of_nat_diff)
  have u: "unat t = n - 1" using assms(2) by (simp add: t unat_of_nat_u32)
  have "t AND 0xff = take_bit 8 t" by (simp add: take_bit_eq_mask mask_eq_exp_minus_1)
  then have b: "unat (t AND 0xff) = (n - 1) mod 256" "unat (drop_bit 8 t) = (n - 1) div 256"
    by (simp_all add: unat_take_bit_mod unat_drop u)
  show "unat (t AND 0xff) < 256" "unat (drop_bit 8 t) < 256" using assms(2) by (simp_all add: b less_mult_imp_div_less)
  show "pit_ticks (t AND 0xff) (drop_bit 8 t) = n" using assms(1) by (simp add: pit_ticks_def b)
qed

text \<open>
  The sleep never lasts beyond the deadline: when \<^verbatim>\<open>bmk_platform_cpu_block\<close> programs the timer, both counter bytes
  fit, the number of ticks is between 16 and 65535, and that many ticks of the timer take at most the time that
  is left. It programs the timer exactly when at least 16 ticks are left, and the only cut is at 65535.
\<close>

theorem cpu_block_not_late:
  assumes "0 < spldepth" "0 \<le> now" "until < 2 ^ 63"
  shows "case bmk_platform_cpu_block spldepth now until of
      Inl e \<Rightarrow> False
    | Inr Late \<Rightarrow> until \<le> now
    | Inr Spin \<Rightarrow> now < until \<and> nat (until - now) * 5124677 div 2 ^ 32 < 16
    | Inr (Program lo hi) \<Rightarrow> now < until \<and> unat lo < 256 \<and> unat hi < 256 \<and>
        pit_ticks lo hi = min 65535 (nat (until - now) * 5124677 div 2 ^ 32) \<and> 16 \<le> pit_ticks lo hi \<and>
        int (pit_ticks lo hi) * uint NSEC_PER_SEC \<le> (until - now) * uint TIMER_HZ"
proof (cases "until \<le> now")
  case True
  then show ?thesis using assms by (simp add: bmk_platform_cpu_block_def)
next
  case False
  define d where "d = nat (until - now)"
  define k where "k = mul64_32 (word_of_int (until - now)) pit_mult"
  define n where "n = min 65535 (unat k)"
  have d: "int d = until - now" "d < 2 ^ 63" using False assms by (simp_all add: d_def)
  have "(word_of_int (until - now) :: u64) = word_of_nat d" by (simp add: d(1) [symmetric])
  then have k: "unat k = d * 5124677 div 2 ^ 32" using d(2) by (simp add: k_def mul64_32_unat pit_mult_val unat_small)
  have ticks: "(if 65535 < k then 65535 else ucast k) = (word_of_nat n :: u32)"
    by (simp add: n_def min_def word_less_nat_alt word_le_nat_alt not_less)
  have n: "n < 2 ^ 16" "n * 2 ^ 32 \<le> d * 5124677"
    using div_times_less_eq_dividend [of "d * 5124677" "2 ^ 32"] by (auto simp: n_def k min_def)
  from n(2) have "n * 4294967296 \<le> d * 5124677" by simp
  then have "int n * 1000000000 \<le> int d * 1193182" by linarith
  then have late: "int n * uint NSEC_PER_SEC \<le> (until - now) * uint TIMER_HZ" by (simp add: d(1) [symmetric] NSEC_PER_SEC_def TIMER_HZ_def)
  have eq: "bmk_platform_cpu_block spldepth now until =
      Inr (if k < PIT_MIN_DELTA then Spin else Program ((word_of_nat n - 1) AND 0xff) (drop_bit 8 (word_of_nat n - 1)))"
    unfolding bmk_platform_cpu_block_def Let_def k_def [symmetric] ticks using False assms(1) by simp
  have less: "k < PIT_MIN_DELTA \<longleftrightarrow> unat k < 16" by (simp add: PIT_MIN_DELTA_def word_less_nat_alt)
  show ?thesis
  proof (cases "unat k < 16")
    case True
    then show ?thesis using False k by (simp add: eq less d_def)
  next
    case False
    then have n16: "16 \<le> n" "1 \<le> n" by (simp_all add: n_def)
    have nk: "min 65535 (nat (until - now) * 5124677 div 2 ^ 32) = n" by (simp only: n_def k d_def)
    note b = ticks_bytes [OF n16(2) n(1)]
    have "bmk_platform_cpu_block spldepth now until = Inr (Program ((word_of_nat n - 1) AND 0xff) (drop_bit 8 (word_of_nat n - 1)))"
      using False eq less by simp
    then show ?thesis unfolding nk using \<open>\<not> until \<le> now\<close> b n16(1) late by (simp only: sum.case block_action.case b) simp
  qed
qed

theorem cpu_block_not_late_witness: "bmk_platform_cpu_block 1 0 1000000 = Inr (Program 168 4) \<and> pit_ticks 168 4 = 1193"
proof -
  have "bmk_platform_cpu_block 1 0 1000000 = Inr (Program 168 4)"
    by (simp add: bmk_platform_cpu_block_def mul64_32_def pit_mult_val PIT_MIN_DELTA_def Let_def)
  then show ?thesis using cpu_block_not_late [of 1 0 1000000] by simp
qed

section \<open>The clock shared with the hypervisor\<close>

record pvclock_vcpu_time_info =
  ti_version :: u32
  tsc_timestamp :: u64
  system_time :: u64
  tsc_to_system_mul :: u32
  tsc_shift :: int

definition scale_delta :: "u64 \<Rightarrow> int \<Rightarrow> int \<Rightarrow> u64" where
  "scale_delta delta shift shift' = (if shift < 0 then drop_bit (nat (- shift')) delta else push_bit (nat shift') delta)"

text \<open>
  \<^verbatim>\<open>_pvclock_monotonic\<close>: the hypervisor may change the structure between any two reads, so that \<open>mem k\<close> is what
  the read number \<open>k\<close> finds, and \<open>tsc k\<close> the time stamp counter around it.
\<close>

partial_function (option) pvclock_loop ::
  "(nat \<Rightarrow> pvclock_vcpu_time_info) \<Rightarrow> (nat \<Rightarrow> u64) \<Rightarrow> nat \<Rightarrow> u64 option" where
  "pvclock_loop mem tsc k =
     (let version = ti_version (mem k);
          delta = tsc (k + 1) - tsc_timestamp (mem (k + 1));
          delta = scale_delta delta (tsc_shift (mem (k + 2))) (tsc_shift (mem (k + 3)));
          time_now = mul64_32 delta (tsc_to_system_mul (mem (k + 4))) + system_time (mem (k + 5))
      in if ti_version (mem (k + 6)) AND 1 \<noteq> 0 \<or> ti_version (mem (k + 7)) \<noteq> version
         then pvclock_loop mem tsc (k + 8)
         else Some time_now)"

declare pvclock_loop.simps [code]

text \<open>The time of one consistent copy of the structure.\<close>

definition pvclock_time :: "pvclock_vcpu_time_info \<Rightarrow> u64 \<Rightarrow> u64" where
  "pvclock_time ti t = mul64_32 (scale_delta (t - tsc_timestamp ti) (tsc_shift ti) (tsc_shift ti)) (tsc_to_system_mul ti) + system_time ti"

text \<open>
  What the hypervisor promises: the version only grows, it is odd during an update, and the structure does not change
  as long as it stays the same even number.
\<close>

definition versioned :: "(nat \<Rightarrow> pvclock_vcpu_time_info) \<Rightarrow> bool" where
  "versioned mem \<longleftrightarrow> (\<forall>i j. i \<le> j \<longrightarrow> ti_version (mem i) \<le> ti_version (mem j) \<and>
     (ti_version (mem i) = ti_version (mem j) \<and> ti_version (mem i) AND 1 = 0 \<longrightarrow> mem i = mem j))"

lemma versionedD:
  assumes "versioned mem" "i \<le> j"
  shows "ti_version (mem i) \<le> ti_version (mem j)"
    "ti_version (mem i) = ti_version (mem j) \<Longrightarrow> ti_version (mem i) AND 1 = 0 \<Longrightarrow> mem i = mem j"
  using assms unfolding versioned_def by blast+

lemma snapshot:
  assumes "versioned mem" "ti_version (mem (k + 7)) = ti_version (mem k)" "ti_version (mem (k + 6)) AND 1 = 0" "i \<le> 7"
  shows "mem (k + i) = mem k" "ti_version (mem k) AND 1 = 0"
proof -
  note le = versionedD(1) [OF assms(1)]
  have v: "ti_version (mem (k + j)) = ti_version (mem k)" if "j \<le> 7" for j
    by (rule order.antisym) (use le [of k "k + j"] le [of "k + j" "k + 7"] assms(2) that in simp_all)
  from v [of 6] show even: "ti_version (mem k) AND 1 = 0" using assms(3) by simp
  show "mem (k + i) = mem k" by (rule versionedD(2) [OF assms(1) le_add1 v [OF assms(4), symmetric] even, symmetric])
qed

lemma pvclock_loop_snapshot:
  assumes "versioned mem" "\<forall>i\<ge>m. mem i = mem m" "ti_version (mem m) AND 1 = 0"
  shows "\<exists>i\<ge>k. ti_version (mem i) AND 1 = 0 \<and> pvclock_loop mem tsc k = Some (pvclock_time (mem i) (tsc (i + 1)))"
proof (induction "m - k" arbitrary: k rule: less_induct)
  case less
  show ?case
  proof (cases "ti_version (mem (k + 6)) AND 1 \<noteq> 0 \<or> ti_version (mem (k + 7)) \<noteq> ti_version (mem k)")
    case True
    have "k < m"
    proof (rule ccontr)
      assume "\<not> k < m"
      then have "mem (k + j) = mem m" for j by (intro assms(2) [rule_format]) simp
      from this [of 0] this [of 6] this [of 7] show False using True assms(3) by simp
    qed
    then have "m - (k + 8) < m - k" by linarith
    from less.hyps [OF this] obtain i
      where "i \<ge> k + 8" "ti_version (mem i) AND 1 = 0" "pvclock_loop mem tsc (k + 8) = Some (pvclock_time (mem i) (tsc (i + 1)))"
      by blast
    moreover have "pvclock_loop mem tsc k = pvclock_loop mem tsc (k + 8)" using True by (subst pvclock_loop.simps) (simp add: Let_def)
    ultimately show ?thesis by (intro exI [of _ i]) simp
  next
    case False
    then have v: "ti_version (mem (k + 7)) = ti_version (mem k)" "ti_version (mem (k + 6)) AND 1 = 0" by simp_all
    note s = snapshot [OF assms(1) v]
    have "pvclock_loop mem tsc k = Some (pvclock_time (mem k) (tsc (k + 1)))"
      using v s(1) [of 1] s(1) [of 2] s(1) [of 3] s(1) [of 4] s(1) [of 5]
      by (subst pvclock_loop.simps) (simp add: Let_def pvclock_time_def)
    then show ?thesis using s(2) [of 0] by (intro exI [of _ k]) simp
  qed
qed

text \<open>
  C29. When the hypervisor keeps its promise and updates stop at some point, \<^verbatim>\<open>_pvclock_monotonic\<close> returns, and its
  result is the time computed from one consistent copy of the shared structure that was not being updated, never from
  a mixture of two.
\<close>

theorem pvclock_reads_snapshot:
  assumes "versioned mem" "\<forall>i\<ge>m. mem i = mem m" "ti_version (mem m) AND 1 = 0"
  shows "\<exists>i\<ge>k. ti_version (mem i) AND 1 = 0 \<and> pvclock_loop mem tsc k = Some (pvclock_time (mem i) (tsc (i + 1)))"
  by (rule pvclock_loop_snapshot [OF assms])

definition demo_ti :: "nat \<Rightarrow> pvclock_vcpu_time_info" where
  "demo_ti i = \<lparr>ti_version = (if i < 3 then 1 else 2), tsc_timestamp = 0, system_time = 5, tsc_to_system_mul = 2, tsc_shift = 31\<rparr>"

theorem pvclock_reads_snapshot_witness: "pvclock_loop demo_ti (\<lambda>_. 10) 0 = Some 15"
proof -
  have "\<exists>i\<ge>0. ti_version (demo_ti i) AND 1 = 0 \<and> pvclock_loop demo_ti (\<lambda>_. 10) 0 = Some (pvclock_time (demo_ti i) 10)"
    by (rule pvclock_reads_snapshot [where m = 3]) (auto simp: versioned_def demo_ti_def)
  then show ?thesis
    by (auto simp: pvclock_time_def scale_delta_def demo_ti_def mul64_32_def)
qed

end
