(* ===== verification/Wall_Clock.thy ===== *)
theory Wall_Clock
  imports X86_Clock
begin

text \<open>
  The wall clock on x86: reading the battery-backed real-time clock, and the time stamp counter's clock, from \<^verbatim>\<open>platform/hw/arch/x86/clock.c\<close>.
\<close>

unbundle bit_operations_syntax

section \<open>The real-time clock\<close>

definition RTC_NMI_DISABLE :: u32 where "RTC_NMI_DISABLE = push_bit 8 1"
definition RTC_SEC :: u8 where "RTC_SEC = 0x00"
definition RTC_MIN :: u8 where "RTC_MIN = 0x02"
definition RTC_HOUR :: u8 where "RTC_HOUR = 0x04"
definition RTC_DAY :: u8 where "RTC_DAY = 0x07"
definition RTC_MONTH :: u8 where "RTC_MONTH = 0x08"
definition RTC_YEAR :: u8 where "RTC_YEAR = 0x09"
definition RTC_STATUS_A :: u8 where "RTC_STATUS_A = 0x0a"
definition RTC_UIP :: u32 where "RTC_UIP = push_bit 7 1"

definition bcdtobin :: "u32 \<Rightarrow> u32" where
  "bcdtobin bcd = (drop_bit 4 bcd AND 0x0f) * 10 + (bcd AND 0x0f)"

text \<open>
  The device answers the read number \<open>k\<close> after the command byte on the index port; \<^verbatim>\<open>outb\<close> takes its value as
  a \<^verbatim>\<open>uint8_t\<close>.
\<close>

type_synonym rtc_device = "nat \<Rightarrow> u8 \<Rightarrow> u8"

definition rtc_command :: "u8 \<Rightarrow> u8" where
  "rtc_command reg = ucast (ucast reg OR RTC_NMI_DISABLE)"

definition rtc_read :: "rtc_device \<Rightarrow> nat \<Rightarrow> u8 \<Rightarrow> u8" where
  "rtc_read dev k reg = dev k (rtc_command reg)"

partial_function (option) rtc_wait :: "rtc_device \<Rightarrow> nat \<Rightarrow> nat option" where
  "rtc_wait dev k = (if ucast (rtc_read dev k RTC_STATUS_A) AND RTC_UIP \<noteq> 0 then rtc_wait dev (k + 1) else Some (k + 1))"

declare rtc_wait.simps [code]

definition rtc_fields :: "rtc_device \<Rightarrow> nat \<Rightarrow> bmk_clock_ymdhms" where
  "rtc_fields dev k =
     \<lparr>dt_year = ucast (bcdtobin (ucast (rtc_read dev (k + 5) RTC_YEAR)) + 2000),
      dt_mon = ucast (bcdtobin (ucast (rtc_read dev (k + 4) RTC_MONTH))),
      dt_day = ucast (bcdtobin (ucast (rtc_read dev (k + 3) RTC_DAY))),
      dt_hour = ucast (bcdtobin (ucast (rtc_read dev (k + 2) RTC_HOUR))),
      dt_min = ucast (bcdtobin (ucast (rtc_read dev (k + 1) RTC_MIN))),
      dt_sec = ucast (bcdtobin (ucast (rtc_read dev k RTC_SEC)))\<rparr>"

definition rtc_gettimeofday :: "rtc_device \<Rightarrow> u64 option" where
  "rtc_gettimeofday dev =
     (case rtc_wait dev 0 of
        None \<Rightarrow> None
      | Some k \<Rightarrow> Some (clock_ymdhms_to_secs (rtc_fields dev k) * NSEC_PER_SEC))"

subsection \<open>What the clock shows\<close>

definition bcd :: "nat \<Rightarrow> u8" where
  "bcd n = word_of_nat (n div 10 * 16 + n mod 10)"

lemma bcdtobin_bcd:
  assumes "n < 100"
  shows "bcdtobin (ucast (bcd n)) = word_of_nat n"
proof -
  define b where "b = n div 10 * 16 + n mod 10"
  have q: "n div 10 < 10" "n mod 10 < 10" using assms by simp_all
  then have b: "b < 256" "b div 16 = n div 10" "b mod 16 = n mod 10" unfolding b_def by simp_all
  have "bcd n = word_of_nat b" by (simp add: bcd_def b_def)
  then have "unat (ucast (bcd n) :: u32) = b" using b(1) by (simp add: unat_ucast unsigned_of_nat take_bit_eq_mod)
  then have u: "unat (drop_bit 4 (ucast (bcd n) :: u32)) = n div 10" "unat (take_bit 4 (ucast (bcd n) :: u32)) = n mod 10"
    by (simp_all add: unat_take_bit_mod unat_drop b)
  have m: "w AND 0x0f = take_bit 4 w" for w :: u32 by (simp add: take_bit_eq_mask mask_eq_exp_minus_1)
  have "take_bit 4 (drop_bit 4 (ucast (bcd n) :: u32)) = word_of_nat (n div 10)" "take_bit 4 (ucast (bcd n) :: u32) = word_of_nat (n mod 10)"
    using u q by (simp_all add: word_unat_eq_iff unat_take_bit_mod unat_of_nat_u32)
  note d = this
  have "bcdtobin (ucast (bcd n)) = word_of_nat (n div 10 * 10 + n mod 10)"
    unfolding bcdtobin_def m d by (simp only: of_nat_add of_nat_mult of_nat_numeral)
  then show ?thesis by simp
qed

lemma rtc_command_drops_nmi: "rtc_command reg = reg"
proof (rule bit_word_eqI)
  fix n assume "n < LENGTH(8)"
  then have "n < 8" by simp
  then have "\<not> bit RTC_NMI_DISABLE n" unfolding RTC_NMI_DISABLE_def bit_push_bit_iff by simp
  then show "bit (rtc_command reg) n = bit reg n"
    using \<open>n < 8\<close> by (simp add: rtc_command_def bit_ucast_iff bit_or_iff)
qed

text \<open>The device shows the date \<open>dt\<close> in binary-coded decimal during the reads from \<open>k\<close> on.\<close>

definition shows_date :: "rtc_device \<Rightarrow> nat \<Rightarrow> bmk_clock_ymdhms \<Rightarrow> bool" where
  "shows_date dev k dt \<longleftrightarrow>
     2000 \<le> dt_year dt \<and> dt_year dt < 2100 \<and> 1 \<le> dt_mon dt \<and> dt_mon dt \<le> 12 \<and> 1 \<le> dt_day dt \<and> dt_day dt \<le> 31 \<and>
     dt_hour dt < 24 \<and> dt_min dt < 60 \<and> dt_sec dt \<le> 60 \<and>
     dev k RTC_SEC = bcd (unat (dt_sec dt)) \<and> dev (k + 1) RTC_MIN = bcd (unat (dt_min dt)) \<and>
     dev (k + 2) RTC_HOUR = bcd (unat (dt_hour dt)) \<and> dev (k + 3) RTC_DAY = bcd (unat (dt_day dt)) \<and>
     dev (k + 4) RTC_MONTH = bcd (unat (dt_mon dt)) \<and> dev (k + 5) RTC_YEAR = bcd (unat (dt_year dt) - 2000)"

definition updating :: "rtc_device \<Rightarrow> nat \<Rightarrow> bool" where
  "updating dev k \<longleftrightarrow> bit (dev k RTC_STATUS_A) 7"

lemma uip_bit: "ucast (rtc_read dev k RTC_STATUS_A) AND RTC_UIP \<noteq> 0 \<longleftrightarrow> updating dev k"
proof -
  have u: "RTC_UIP = 2 ^ 7" by (simp add: RTC_UIP_def)
  have "w AND RTC_UIP \<noteq> 0 \<longleftrightarrow> bit w 7" for w unfolding u by (simp only: and_exp_eq_0_iff_not_bit not_not)
  then show ?thesis by (simp add: rtc_read_def rtc_command_drops_nmi updating_def bit_ucast_iff)
qed

lemma rtc_wait_first:
  assumes "\<not> updating dev n" "\<And>i. k \<le> i \<Longrightarrow> i < n \<Longrightarrow> updating dev i" "k \<le> n"
  shows "rtc_wait dev k = Some (n + 1)"
  using assms(2,3)
proof (induction "n - k" arbitrary: k)
  case 0
  then show ?case using assms(1) by (subst rtc_wait.simps) (simp add: uip_bit)
next
  case (Suc d)
  then have "rtc_wait dev (k + 1) = Some (n + 1)" by simp
  then show ?case using Suc by (subst rtc_wait.simps) (simp add: uip_bit)
qed

lemma rtc_fields_date:
  assumes "shows_date dev k dt"
  shows "rtc_fields dev k = dt"
proof -
  have b: "unat (dt_sec dt) < 100" "unat (dt_min dt) < 100" "unat (dt_hour dt) < 100" "unat (dt_day dt) < 100" "unat (dt_mon dt) < 100"
    using assms by (simp_all add: shows_date_def word_le_nat_alt word_less_nat_alt)
  have y: "2000 \<le> unat (dt_year dt)" "unat (dt_year dt) < 2100" using assms by (simp_all add: shows_date_def word_le_nat_alt word_less_nat_alt)
  have f: "ucast (bcdtobin (ucast (bcd (unat w)))) = w" if "unat w < 100" for w :: u8
    using bcdtobin_bcd [OF that] that by (simp add: word_unat_eq_iff unat_ucast unat_of_nat_u32)
  define n where "n = unat (dt_year dt) - 2000"
  have n: "n < 100" "unat (dt_year dt) = n + 2000" using y by (simp_all add: n_def)
  have "bcdtobin (ucast (bcd n)) + 2000 = word_of_nat (n + 2000)" using bcdtobin_bcd [OF n(1)] by simp
  then have "unat (ucast (bcdtobin (ucast (bcd n)) + 2000) :: u64) = n + 2000"
    using n(1) by (simp only: unat_ucast unat_of_nat_u32) simp
  then have g: "ucast (bcdtobin (ucast (bcd (unat (dt_year dt) - 2000))) + 2000) = dt_year dt"
    by (simp only: word_unat_eq_iff n(2) diff_add_inverse2)
  show ?thesis using assms
    by (simp add: rtc_fields_def shows_date_def rtc_read_def rtc_command_drops_nmi f [OF b(1)] f [OF b(2)] f [OF b(3)] f [OF b(4)] f [OF b(5)] g)
qed

text \<open>
  Once the update bit is down, \<^verbatim>\<open>rtc_gettimeofday\<close> returns, and for a clock that then shows a date of the years
  2000 to 2099 in binary-coded decimal the result is exactly the nanoseconds from the epoch to that date, with no
  overflow of the signed 64-bit time.
\<close>

theorem rtc_gettimeofday_exact:
  assumes "\<not> updating dev n" "\<forall>i<n. updating dev i" "shows_date dev (n + 1) dt"
  shows "\<exists>t. rtc_gettimeofday dev = Some t \<and> unat t = date_secs dt * 10 ^ 9 \<and> unat t < 2 ^ 63"
proof -
  have r: "rtc_gettimeofday dev = Some (clock_ymdhms_to_secs dt * NSEC_PER_SEC)"
    using rtc_wait_first [of dev n 0] assms rtc_fields_date [OF assms(3)] by (simp add: rtc_gettimeofday_def)
  have y: "2000 \<le> unat (dt_year dt)" "unat (dt_year dt) < 2100" "unat (dt_mon dt) \<le> 12" "unat (dt_day dt) \<le> 31"
    "unat (dt_hour dt) < 24" "unat (dt_min dt) < 60" "unat (dt_sec dt) \<le> 60" "date_ok dt"
    using assms(3) by (simp_all add: shows_date_def date_ok_def word_le_nat_alt word_less_nat_alt)
  have "\<not> short_year (unat (dt_year dt))" using y(1,2) by (auto simp: short_year_def le_mod_geq)
  then have s: "unat (clock_ymdhms_to_secs dt) = date_secs dt" using clock_secs [OF y(8)] by simp
  have "days_since_epoch (unat (dt_year dt)) (unat (dt_mon dt)) (unat (dt_day dt)) < 50000"
    using days_le [OF y(3), of "unat (dt_year dt)" "unat (dt_day dt)"] y by linarith
  then have "date_secs dt < 5000000000" using y by (simp add: date_secs_def)
  then have "unat (clock_ymdhms_to_secs dt * NSEC_PER_SEC) = date_secs dt * 10 ^ 9 \<and> date_secs dt * 10 ^ 9 < 2 ^ 63"
    by (simp add: unat_word_ariths s NSEC_PER_SEC_def)
  then show ?thesis using r by simp
qed

definition demo_rtc :: rtc_device where
  "demo_rtc k reg =
     (if reg = RTC_STATUS_A then (if k = 0 then 0x80 else 0)
      else if reg = RTC_YEAR then 0 else if reg = RTC_MONTH \<or> reg = RTC_DAY then 1
      else if reg = RTC_HOUR then 0x12 else if reg = RTC_MIN then 0x34 else 0x56)"

theorem rtc_gettimeofday_exact_witness:
  "\<exists>t. rtc_gettimeofday demo_rtc = Some t \<and>
     unat t = date_secs \<lparr>dt_year = 2000, dt_mon = 1, dt_day = 1, dt_hour = 12, dt_min = 34, dt_sec = 56\<rparr> * 10 ^ 9 \<and> unat t < 2 ^ 63"
  by (rule rtc_gettimeofday_exact [of demo_rtc 1])
    (simp_all add: updating_def demo_rtc_def shows_date_def bcd_def RTC_STATUS_A_def RTC_YEAR_def RTC_MONTH_def RTC_DAY_def
      RTC_HOUR_def RTC_MIN_def RTC_SEC_def)

section \<open>The clock of the time stamp counter\<close>

record cpu_clock =
  tsc_base :: u64
  time_base :: u64

definition tscclock_monotonic :: "u32 \<Rightarrow> u64 \<Rightarrow> cpu_clock \<Rightarrow> u64 \<times> cpu_clock" where
  "tscclock_monotonic tsc_mult tsc_now cpu =
     (let tsc_delta = tsc_now - tsc_base cpu;
          cpu = cpu\<lparr>time_base := time_base cpu + mul64_32 tsc_delta tsc_mult\<rparr>;
          cpu = cpu\<lparr>tsc_base := tsc_now\<rparr>
      in (time_base cpu, cpu))"

text \<open>The state after a series of calls that read the given values of the counter.\<close>

fun tsc_calls :: "u32 \<Rightarrow> u64 list \<Rightarrow> cpu_clock \<Rightarrow> cpu_clock" where
  "tsc_calls tsc_mult [] cpu = cpu"
| "tsc_calls tsc_mult (now # ts) cpu = tsc_calls tsc_mult ts (snd (tscclock_monotonic tsc_mult now cpu))"

lemma tscclock_step:
  assumes "tsc_base cpu \<le> now" "unat (time_base cpu) + (unat now - unat (tsc_base cpu)) * unat m div 2 ^ 32 < 2 ^ 64"
  shows "unat (time_base (snd (tscclock_monotonic m now cpu))) = unat (time_base cpu) + (unat now - unat (tsc_base cpu)) * unat m div 2 ^ 32"
    "tsc_base (snd (tscclock_monotonic m now cpu)) = now"
proof -
  let ?d = "mul64_32 (now - tsc_base cpu) m"
  have "unat ?d = (unat now - unat (tsc_base cpu)) * unat m div 2 ^ 32" by (simp only: mul64_32_unat unat_sub [OF assms(1)])
  moreover have "unat (time_base cpu + ?d) = (unat (time_base cpu) + unat ?d) mod 2 ^ 64" by (simp add: unat_word_ariths)
  ultimately have "unat (time_base cpu + ?d) = unat (time_base cpu) + (unat now - unat (tsc_base cpu)) * unat m div 2 ^ 32"
    using mod_less [OF assms(2)] by simp
  then show "unat (time_base (snd (tscclock_monotonic m now cpu))) = unat (time_base cpu) + (unat now - unat (tsc_base cpu)) * unat m div 2 ^ 32"
    by (simp add: tscclock_monotonic_def Let_def)
  show "tsc_base (snd (tscclock_monotonic m now cpu)) = now" by (simp add: tscclock_monotonic_def Let_def)
qed

lemma div_add_le: "a div n + b div n \<le> (a + b) div (n :: nat)"
proof (cases "n = 0")
  case False
  have "(a div n + b div n) * n \<le> a + b" unfolding add_mult_distrib by (intro add_mono div_times_less_eq_dividend)
  then show ?thesis using False by (simp only: less_eq_div_iff_mult_less_eq neq0_conv)
qed simp

lemma tsc_calls_drift:
  assumes "sorted_wrt (\<le>) (tsc_base cpu # ts)"
    "unat (time_base cpu) + (unat (last (tsc_base cpu # ts)) - unat (tsc_base cpu)) * unat m div 2 ^ 32 < 2 ^ 64"
  defines "r \<equiv> unat (time_base (tsc_calls m ts cpu))"
  defines "exact \<equiv> unat (time_base cpu) * 2 ^ 32 + (unat (last (tsc_base cpu # ts)) - unat (tsc_base cpu)) * unat m"
  shows "r * 2 ^ 32 \<le> exact \<and> exact \<le> (r + length ts) * 2 ^ 32 \<and> unat (time_base cpu) \<le> r"
  using assms(1,2) unfolding r_def exact_def
proof (induction ts arbitrary: cpu)
  case Nil
  show ?case by simp
next
  case (Cons now ts)
  let ?c = "snd (tscclock_monotonic m now cpu)" and ?last = "unat (last (now # ts))" and ?b = "unat (tsc_base cpu)"
  define e where "e = (unat now - ?b) * unat m"
  define f where "f = (?last - unat now) * unat m"
  have "now \<le> last (now # ts)" using Cons.prems(1) by (cases ts) auto
  then have le: "?b \<le> unat now" "unat now \<le> ?last" using Cons.prems(1) by (simp_all add: word_le_nat_alt)
  then have ef: "(?last - ?b) * unat m = e + f" by (simp add: e_def f_def flip: add_mult_distrib)
  then have bound: "unat (time_base cpu) + (e + f) div 2 ^ 32 < 2 ^ 64" using Cons.prems(2) by simp
  then have b: "unat (time_base cpu) + e div 2 ^ 32 + f div 2 ^ 32 < 2 ^ 64" using div_add_le [of e "2 ^ 32" f] by linarith
  have s: "unat (time_base ?c) = unat (time_base cpu) + e div 2 ^ 32" "tsc_base ?c = now"
    using tscclock_step [of cpu now m] le b by (simp_all add: e_def word_le_nat_alt)
  define r where "r = unat (time_base (tsc_calls m ts ?c))"
  define q where "q = e div 2 ^ 32"
  have "r * 2 ^ 32 \<le> (unat (time_base cpu) + q) * 2 ^ 32 + f \<and> (unat (time_base cpu) + q) * 2 ^ 32 + f \<le> (r + length ts) * 2 ^ 32 \<and>
      unat (time_base cpu) + q \<le> r"
    using Cons.IH [of ?c] Cons.prems(1) b by (simp add: s f_def r_def q_def)
  moreover have "q * 2 ^ 32 \<le> e" "e \<le> (q + 1) * 2 ^ 32" by (simp_all add: q_def)
  ultimately have "r * 2 ^ 32 \<le> unat (time_base cpu) * 2 ^ 32 + (e + f) \<and>
      unat (time_base cpu) * 2 ^ 32 + (e + f) \<le> (r + Suc (length ts)) * 2 ^ 32 \<and> unat (time_base cpu) \<le> r"
    by (auto simp: algebra_simps)
  then show ?case using ef by (simp only: r_def tsc_calls.simps last_ConsR list.distinct(2) not_False_eq_True list.size add_0 add_Suc_right add_0_right)
qed

text \<open>
  The clock of the time stamp counter never goes backwards and never runs ahead: after any number of calls with
  readings that do not decrease it shows at most the exact time, and it lags behind by at most one nanosecond per
  call, since every call drops the fraction.
\<close>

theorem tscclock_drift:
  assumes "sorted_wrt (\<le>) (tsc_base cpu # ts)"
    "unat (time_base cpu) + (unat (last (tsc_base cpu # ts)) - unat (tsc_base cpu)) * unat m div 2 ^ 32 < 2 ^ 64"
  shows "unat (time_base cpu) \<le> unat (time_base (tsc_calls m ts cpu)) \<and>
    unat (time_base (tsc_calls m ts cpu)) * 2 ^ 32
      \<le> unat (time_base cpu) * 2 ^ 32 + (unat (last (tsc_base cpu # ts)) - unat (tsc_base cpu)) * unat m \<and>
    unat (time_base cpu) * 2 ^ 32 + (unat (last (tsc_base cpu # ts)) - unat (tsc_base cpu)) * unat m
      \<le> (unat (time_base (tsc_calls m ts cpu)) + length ts) * 2 ^ 32"
  using tsc_calls_drift [OF assms] by simp

theorem tscclock_drift_witness:
  "unat (time_base (tsc_calls (2 ^ 31) [3, 6] \<lparr>tsc_base = 0, time_base = 5\<rparr>)) \<le> 8 \<and>
   6 \<le> unat (time_base (tsc_calls (2 ^ 31) [3, 6] \<lparr>tsc_base = 0, time_base = 5\<rparr>))"
  using tscclock_drift [of "\<lparr>tsc_base = 0, time_base = 5\<rparr>" "[3, 6]" "2 ^ 31"] by simp

end
