(* ===== verification/Monotonic.thy ===== *)
theory Monotonic
  imports Main
begin

text \<open>
  The value that keeps the hypervisor's clock monotonic across CPUs, from \<^verbatim>\<open>pvclock_monotonic\<close> in
  \<^verbatim>\<open>platform/hw/arch/x86/clock.c\<close>.
\<close>

section \<open>One clock for all CPUs\<close>

text \<open>
  \<^verbatim>\<open>pvclock_monotonic\<close> on any number of CPUs, one step per atomic access to \<^verbatim>\<open>monotonic_value\<close>. A call carries the
  time it has read and, for the statement only, the largest value that had been returned when it began.
\<close>

datatype mono_call = M_idle | M_timed int int | M_loaded int int int

record mono_state =
  mono_value :: int
  mono_calls :: "nat \<Rightarrow> mono_call"
  mono_seen :: int

definition mono_start :: mono_state where
  "mono_start = \<lparr>mono_value = 0, mono_calls = (\<lambda>_. M_idle), mono_seen = 0\<rparr>"

text \<open>The compare-and-exchange: whether it succeeds, and the new \<^verbatim>\<open>monotonic_value\<close>.\<close>

definition mono_cas :: "int \<Rightarrow> int \<Rightarrow> int \<Rightarrow> bool \<times> int" where
  "mono_cas value time m = (if m = value then (True, time) else (False, m))"

definition set_call :: "nat \<Rightarrow> mono_call \<Rightarrow> mono_state \<Rightarrow> mono_state" where
  "set_call c x s = s\<lparr>mono_calls := (mono_calls s)(c := x)\<rparr>"

text \<open>A step returns \<open>Some (seen, r)\<close> when a call ends with the result \<open>r\<close>.\<close>

inductive mono_step :: "mono_state \<Rightarrow> (int \<times> int \<times> int) option \<Rightarrow> mono_state \<Rightarrow> bool" where
  mono_begin: "mono_calls s c = M_idle \<Longrightarrow> mono_step s None (set_call c (M_timed time (mono_seen s)) s)"
| mono_load: "mono_calls s c = M_timed time seen \<Longrightarrow> mono_step s None (set_call c (M_loaded (mono_value s) time seen) s)"
| mono_old: "mono_calls s c = M_loaded value time seen \<Longrightarrow> time \<le> value \<Longrightarrow>
    mono_step s (Some (seen, time, value)) (set_call c M_idle (s\<lparr>mono_seen := max (mono_seen s) value\<rparr>))"
| mono_new: "mono_calls s c = M_loaded value time seen \<Longrightarrow> value < time \<Longrightarrow> mono_cas value time (mono_value s) = (True, m) \<Longrightarrow>
    mono_step s (Some (seen, time, time)) (set_call c M_idle (s\<lparr>mono_value := m, mono_seen := max (mono_seen s) time\<rparr>))"
| mono_fail: "mono_calls s c = M_loaded value time seen \<Longrightarrow> value < time \<Longrightarrow>
    mono_step s None (set_call c (M_loaded (mono_value s) time seen) s)"

definition mono_reach :: "mono_state \<Rightarrow> mono_state \<Rightarrow> bool" where
  "mono_reach = (\<lambda>s s'. \<exists>r. mono_step s r s')\<^sup>*\<^sup>*"

fun call_inv :: "int \<Rightarrow> int \<Rightarrow> mono_call \<Rightarrow> bool" where
  "call_inv m g M_idle \<longleftrightarrow> True"
| "call_inv m g (M_timed time seen) \<longleftrightarrow> seen \<le> g"
| "call_inv m g (M_loaded value time seen) \<longleftrightarrow> seen \<le> value \<and> value \<le> m"

definition mono_inv :: "mono_state \<Rightarrow> bool" where
  "mono_inv s \<longleftrightarrow> mono_seen s \<le> mono_value s \<and> (\<forall>c. call_inv (mono_value s) (mono_seen s) (mono_calls s c))"

lemma call_inv_mono: "call_inv m g x \<Longrightarrow> m \<le> m' \<Longrightarrow> g \<le> g' \<Longrightarrow> call_inv m' g' x"
  by (cases x) auto

lemma mono_inv_call: "mono_inv s \<Longrightarrow> call_inv (mono_value s) (mono_seen s) (mono_calls s c)"
  by (simp add: mono_inv_def)

lemma mono_inv_set:
  assumes "mono_inv s" "mono_calls s = mono_calls s'" "mono_value s \<le> mono_value s'" "mono_seen s \<le> mono_seen s'"
    "mono_seen s' \<le> mono_value s'" "call_inv (mono_value s') (mono_seen s') x"
  shows "mono_inv (set_call c x s')"
  using assms call_inv_mono [OF mono_inv_call [OF assms(1)] assms(3,4)] by (auto simp: mono_inv_def set_call_def)

lemma set_call_sel [simp]:
  "mono_value (set_call c x s) = mono_value s" "mono_seen (set_call c x s) = mono_seen s"
  by (simp_all add: set_call_def)

lemma mono_step_inv: "mono_step s r s' \<Longrightarrow> mono_inv s \<Longrightarrow> mono_inv s'"
proof (induction rule: mono_step.induct)
  case (mono_begin s c time)
  then show ?case by (intro mono_inv_set [of s s]) (simp_all add: mono_inv_def)
next
  case (mono_load s c time seen)
  then show ?case using mono_inv_call [of s c] by (intro mono_inv_set [of s s]) (simp_all add: mono_inv_def)
next
  case (mono_old s c v time seen)
  then show ?case using mono_inv_call [of s c] by (intro mono_inv_set [of s]) (simp_all add: mono_inv_def)
next
  case (mono_new s c v time seen m)
  then have "m = time" "mono_value s = v" by (simp_all add: mono_cas_def split: if_splits)
  moreover have "mono_seen s \<le> mono_value s" using mono_new.prems by (simp add: mono_inv_def)
  ultimately show ?case using mono_new.prems mono_new.hyps(2) by (intro mono_inv_set [of s]) simp_all
next
  case (mono_fail s c v time seen)
  then have "seen \<le> mono_value s" using mono_inv_call [of s c] by simp
  moreover have "mono_seen s \<le> mono_value s" using mono_fail.prems by (simp add: mono_inv_def)
  ultimately show ?case using mono_fail.prems by (intro mono_inv_set [of s s]) simp_all
qed

lemma mono_step_result:
  assumes "mono_step s r s'" "mono_inv s"
  shows "mono_value s \<le> mono_value s' \<and> (\<forall>seen time v. r = Some (seen, time, v) \<longrightarrow> seen \<le> v \<and> time \<le> v)"
  using assms
proof (induction rule: mono_step.induct)
  case (mono_old s c v time seen)
  then show ?case using mono_inv_call [of s c] by simp
next
  case (mono_new s c v time seen m)
  then have "m = time" "mono_value s = v" by (simp_all add: mono_cas_def split: if_splits)
  then show ?case using mono_new mono_inv_call [of s c] by simp
qed simp_all

lemma mono_reach_inv: "mono_reach mono_start s \<Longrightarrow> mono_inv s"
  unfolding mono_reach_def
proof (induction rule: rtranclp_induct)
  case base
  show ?case by (simp add: mono_inv_def mono_start_def)
next
  case (step s s')
  then show ?case using mono_step_inv by blast
qed

text \<open>
  C25. The time is monotonic across CPUs whatever the clocks of the single CPUs show: a call of \<^verbatim>\<open>pvclock_monotonic\<close>
  returns at least what every call that had ended before it began returned, and at least the time it has read itself,
  and \<^verbatim>\<open>monotonic_value\<close> never decreases.
\<close>

theorem pvclock_monotonic_across_cpus:
  assumes "mono_reach mono_start s" "mono_step s r s'"
  shows "mono_value s \<le> mono_value s' \<and> (\<forall>seen time v. r = Some (seen, time, v) \<longrightarrow> seen \<le> v \<and> time \<le> v)"
  using mono_step_result [OF assms(2) mono_reach_inv [OF assms(1)]] .

theorem pvclock_monotonic_across_cpus_witness:
  "\<exists>s s'. mono_reach mono_start s \<and> mono_step s (Some (0, 7, 7)) s' \<and> mono_value s \<le> mono_value s'"
proof -
  define s1 where "s1 = set_call 1 (M_timed 7 0) mono_start"
  define s2 where "s2 = set_call 1 (M_loaded 0 7 0) s1"
  define s3 where "s3 = set_call 1 M_idle (s2\<lparr>mono_value := 7, mono_seen := 7\<rparr>)"
  note defs = s3_def s2_def s1_def set_call_def mono_start_def
  let ?R = "\<lambda>s s'. \<exists>r. mono_step s r s'"
  have 1: "?R mono_start s1" using mono_begin [of mono_start 1 7] by (auto simp: defs)
  have 2: "?R s1 s2" using mono_load [of s1 1 7 0] by (auto simp: defs)
  have r: "mono_reach mono_start s2"
    unfolding mono_reach_def by (rule rtranclp.rtrancl_into_rtrancl [OF r_into_rtranclp [of ?R, OF 1] 2])
  have s: "mono_step s2 (Some (0, 7, 7)) s3" using mono_new [of s2 1 0 7 0 7] by (simp add: defs mono_cas_def)
  then show ?thesis using r pvclock_monotonic_across_cpus [OF r s] by blast
qed

end
