(* ===== verification/Netdom.thy ===== *)
theory Netdom
  imports Lfring
begin

text \<open>
  The channel between the network domain and an application domain, from \<^verbatim>\<open>platform/hw/xen/frontend.c\<close>,
  \<^verbatim>\<open>platform/hw/xen/backend.c\<close> and \<^verbatim>\<open>include/xen/network_ring.h\<close>: packets travel through buffers whose indices move
  between a ring of free buffers and a ring of filled ones, and the network domain chooses the receiver of a packet by
  its port. How the receiver sleeps and wakes is in \<open>Netdom_Wake\<close>.
\<close>

unbundle bit_operations_syntax

section \<open>One direction of a channel\<close>

definition NETDOM_DATA_SIZE :: nat where "NETDOM_DATA_SIZE = 9216"

text \<open>
  \<open>nd_len i\<close> and \<open>nd_data i\<close> are \<^verbatim>\<open>slot[0]\<close> and the bytes from \<^verbatim>\<open>slot + 1\<close> on of the buffer with index \<open>i\<close>.
\<close>

record netdom_channel =
  nd_fring :: lfring
  nd_aring :: lfring
  nd_reader_state :: int
  nd_len :: "nat \<Rightarrow> u64"
  nd_data :: "nat \<Rightarrow> nat \<Rightarrow> u8"

text \<open>The rings and \<^verbatim>\<open>readers\<close> as \<^verbatim>\<open>frontend_init_ring\<close> sets them up in fresh pages; the grants are left out.\<close>

definition frontend_init_ring :: "netdom_channel \<Rightarrow> netdom_channel" where
  "frontend_init_ring c =
     (let c = c\<lparr>nd_aring := lfring_init_empty (nd_aring c) NETDOM_RING_ORDER\<rparr>;
          c = c\<lparr>nd_fring := lfring_init_full (nd_fring c) NETDOM_RING_ORDER\<rparr>
      in c\<lparr>nd_reader_state := 0\<rparr>)"

subsection \<open>Sending\<close>

text \<open>A packet is a chain of mbufs, each given by its bytes; \<open>off\<close> is where \<^verbatim>\<open>data\<close> points.\<close>

type_synonym mbuf = "u8 list"

definition splice :: "nat \<Rightarrow> mbuf \<Rightarrow> (nat \<Rightarrow> u8) \<Rightarrow> nat \<Rightarrow> u8" where
  "splice off m f k = (if off \<le> k \<and> k < off + length m then m ! (k - off) else f k)"

definition write_bytes :: "nat \<Rightarrow> nat \<Rightarrow> mbuf \<Rightarrow> netdom_channel \<Rightarrow> netdom_channel" where
  "write_bytes i off m c = c\<lparr>nd_data := (nd_data c)(i := splice off m (nd_data c i))\<rparr>"

fun copy_mbufs :: "nat \<Rightarrow> mbuf list \<Rightarrow> nat \<Rightarrow> netdom_channel \<Rightarrow> netdom_channel res" where
  "copy_mbufs i [] off c = Inr c"
| "copy_mbufs i (m # ms) off c =
     (let c = c\<lparr>nd_len := (nd_len c)(i := nd_len c i + word_of_nat (length m))\<rparr> in
      if word_of_nat (NETDOM_DATA_SIZE - 8) < nd_len c i then Inl (Halt ''frontend_send: a packet is too large'')
      else copy_mbufs i ms (off + length m) (write_bytes i off m c))"

text \<open>The result says whether the other domain is notified.\<close>

definition frontend_send :: "bool \<Rightarrow> mbuf list \<Rightarrow> netdom_channel \<Rightarrow> (bool \<times> netdom_channel) res" where
  "frontend_send connected m0 c =
     (if \<not> connected then Inr (False, c)
      else
        bindE (loopE (lfring_dequeue (nd_fring c) NETDOM_RING_ORDER False)) (\<lambda>(idx, q).
        let c = c\<lparr>nd_fring := q\<rparr> in
        if idx = LFRING_EMPTY then Inr (False, c)
        else
          bindE (copy_mbufs (unat idx) m0 0 (c\<lparr>nd_len := (nd_len c)(unat idx := 0)\<rparr>)) (\<lambda>c.
          bindE (loopE (lfring_enqueue (nd_aring c) NETDOM_RING_ORDER idx False)) (\<lambda>q.
          Inr (nd_reader_state c \<le> 0, c\<lparr>nd_aring := q\<rparr>)))))"

subsection \<open>Receiving\<close>

text \<open>One round of the receiver's loop: the packet that is delivered, if there is one.\<close>

definition packet :: "netdom_channel \<Rightarrow> nat \<Rightarrow> u8 list" where
  "packet c i = map (nd_data c i) [0..<unat (nd_len c i)]"

definition receive_one :: "netdom_channel \<Rightarrow> (u8 list option \<times> netdom_channel) res" where
  "receive_one c =
     bindE (loopE (lfring_dequeue (nd_aring c) NETDOM_RING_ORDER False)) (\<lambda>(idx, q).
     let c = c\<lparr>nd_aring := q\<rparr> in
     if idx = LFRING_EMPTY then Inr (None, c)
     else
       bindE (loopE (lfring_enqueue (nd_fring c) NETDOM_RING_ORDER idx False)) (\<lambda>q.
       Inr (Some (packet c (unat idx)), c\<lparr>nd_fring := q\<rparr>)))"

section \<open>The channel is a queue of packets\<close>

abbreviation free_list :: "netdom_channel \<Rightarrow> u64 list" where
  "free_list c \<equiv> lfring_list NETDOM_RING_ORDER (nd_fring c)"

abbreviation filled :: "netdom_channel \<Rightarrow> u64 list" where
  "filled c \<equiv> lfring_list NETDOM_RING_ORDER (nd_aring c)"

text \<open>Every buffer is in exactly one of the two rings.\<close>

definition nd_wf :: "netdom_channel \<Rightarrow> bool" where
  "nd_wf c \<longleftrightarrow> lfring_wf NETDOM_RING_ORDER (nd_fring c) \<and> lfring_wf NETDOM_RING_ORDER (nd_aring c) \<and>
     distinct (free_list c @ filled c) \<and> set (free_list c @ filled c) = {x. unat x < 512}"

definition nd_queue :: "netdom_channel \<Rightarrow> u8 list list" where
  "nd_queue c = map (\<lambda>x. packet c (unat x)) (filled c)"

lemma free_list_full:
  assumes "nd_wf c"
  shows "length (free_list c) + length (nd_queue c) = 512"
proof -
  have "length (free_list c @ filled c) = card {x :: u64. unat x < 512}"
    using assms distinct_card [of "free_list c @ filled c"] by (simp add: nd_wf_def)
  also have "\<dots> = card (set (full_entries NETDOM_RING_ORDER))"
    using full_entries_set [OF program_orders(1)] by (simp add: NETDOM_RING_ORDER_def)
  also have "\<dots> = 512"
    using distinct_card [OF full_entries_distinct [OF program_orders(1)]] by (simp add: full_entries_def NETDOM_RING_ORDER_def)
  finally show ?thesis by (simp add: nd_queue_def)
qed

lemma index_valid: "unat (x :: u64) < 512 \<Longrightarrow> take_bit (Suc NETDOM_RING_ORDER) x = x"
  by (simp add: word_unat_eq_iff unat_take_bit_mod NETDOM_RING_ORDER_def)

lemma nd_wf_index:
  assumes "nd_wf c" "x \<in> set (free_list c) \<union> set (filled c)"
  shows "unat x < 512" "take_bit (Suc NETDOM_RING_ORDER) x = x"
proof -
  show "unat x < 512" using assms by (auto simp: nd_wf_def)
  then show "take_bit (Suc NETDOM_RING_ORDER) x = x" by (rule index_valid)
qed

subsection \<open>Copying\<close>

lemma splice_append: "splice (off + length m) m' (splice off m f) = splice off (m @ m') f"
  by (rule ext) (auto simp: splice_def nth_append)

lemma splice_Nil: "splice off [] f = f"
  by (rule ext) (auto simp: splice_def)

lemma write_bytes_append: "write_bytes i (off + length m) m' (write_bytes i off m c) = write_bytes i off (m @ m') c"
  by (simp add: write_bytes_def splice_append)

lemma write_bytes_len [simp]:
  "nd_len (write_bytes i off m c) = nd_len c" "write_bytes i off m (c\<lparr>nd_len := l\<rparr>) = (write_bytes i off m c)\<lparr>nd_len := l\<rparr>"
  "nd_aring (write_bytes i off m c) = nd_aring c" "nd_fring (write_bytes i off m c) = nd_fring c"
  "nd_reader_state (write_bytes i off m c) = nd_reader_state c"
  by (simp_all add: write_bytes_def)

lemma write_bytes_Nil [simp]: "write_bytes i off [] c = c"
  by (cases c) (simp add: write_bytes_def splice_Nil)

definition mbufs_ok :: "mbuf list \<Rightarrow> bool" where
  "mbufs_ok ms \<longleftrightarrow> (\<forall>m\<in>set ms. length m < 2 ^ 31)"

lemma unat_len_add: "unat l \<le> 9208 \<Longrightarrow> n < 2 ^ 31 \<Longrightarrow> unat (l + word_of_nat n :: u64) = unat l + n"
  by (simp add: unat_word_ariths unsigned_of_nat take_bit_eq_mod)

lemma copy_mbufs_eq:
  assumes "mbufs_ok ms" "unat (nd_len c i) \<le> 9208"
  shows "copy_mbufs i ms off c =
    (if unat (nd_len c i) + length (concat ms) \<le> 9208
     then Inr (write_bytes i off (concat ms) (c\<lparr>nd_len := (nd_len c)(i := nd_len c i + word_of_nat (length (concat ms)))\<rparr>))
     else Inl (Halt ''frontend_send: a packet is too large''))"
  using assms
proof (induction ms arbitrary: off c)
  case Nil
  have "c\<lparr>nd_len := (nd_len c)(i := nd_len c i)\<rparr> = c" by (cases c) simp
  then show ?case using Nil by simp
next
  case (Cons m ms)
  let ?l = "nd_len c i + word_of_nat (length m)"
  let ?c = "write_bytes i off m (c\<lparr>nd_len := (nd_len c)(i := ?l)\<rparr>)"
  have u: "unat ?l = unat (nd_len c i) + length m" using Cons.prems by (simp add: mbufs_ok_def unat_len_add)
  have cond: "word_of_nat (NETDOM_DATA_SIZE - 8) < ?l \<longleftrightarrow> 9208 < unat (nd_len c i) + length m"
    using u by (simp add: word_less_nat_alt NETDOM_DATA_SIZE_def)
  show ?case
  proof (cases "9208 < unat (nd_len c i) + length m")
    case True
    then show ?thesis using cond by simp
  next
    case False
    have "copy_mbufs i (m # ms) off c = copy_mbufs i ms (off + length m) ?c" using cond False by simp
    also have "\<dots> = (if unat (nd_len c i) + length (concat (m # ms)) \<le> 9208
       then Inr (write_bytes i (off + length m) (concat ms) (?c\<lparr>nd_len := (nd_len ?c)(i := ?l + word_of_nat (length (concat ms)))\<rparr>))
       else Inl (Halt ''frontend_send: a packet is too large''))"
      using Cons.IH [of ?c "off + length m"] Cons.prems False u by (simp add: mbufs_ok_def add.assoc)
    also have "write_bytes i (off + length m) (concat ms) (?c\<lparr>nd_len := (nd_len ?c)(i := ?l + word_of_nat (length (concat ms)))\<rparr>) =
        write_bytes i off (concat (m # ms)) (c\<lparr>nd_len := (nd_len c)(i := nd_len c i + word_of_nat (length (concat (m # ms))))\<rparr>)"
      by (cases c) (simp add: write_bytes_def splice_append add.assoc)
    finally show ?thesis .
  qed
qed

subsection \<open>The two operations\<close>

lemma packet_cong: "nd_len c i = nd_len c' i \<Longrightarrow> nd_data c i = nd_data c' i \<Longrightarrow> packet c i = packet c' i"
  by (simp add: packet_def)

lemma packet_written:
  assumes "length m \<le> 9208"
  shows "packet (write_bytes i 0 m (c\<lparr>nd_len := (nd_len c)(i := word_of_nat (length m))\<rparr>)) i = m"
proof -
  have "unat (word_of_nat (length m) :: u64) = length m" using assms by (simp add: unsigned_of_nat take_bit_eq_mod)
  then show ?thesis by (intro nth_equalityI) (simp_all add: packet_def write_bytes_def splice_def)
qed

lemma unat_neq: "x \<noteq> y \<Longrightarrow> unat (x :: u64) \<noteq> unat y"
  by (simp add: word_unat_eq_iff)

lemma send_drops:
  assumes "nd_wf c" "free_list c = []"
  shows "\<exists>c'. frontend_send True m c = Inr (False, c') \<and> nd_wf c' \<and> nd_queue c' = nd_queue c"
proof -
  obtain q where q: "lfring_dequeue (nd_fring c) NETDOM_RING_ORDER False = Some (LFRING_EMPTY, q)" "lfring_wf NETDOM_RING_ORDER q"
    "lfring_list NETDOM_RING_ORDER q = []"
    using netdom_ring.deq_Nil_law [of "nd_fring c"] assms by (auto simp: nd_wf_def)
  then have "frontend_send True m c = Inr (False, c\<lparr>nd_fring := q\<rparr>)" by (simp add: frontend_send_def)
  moreover have "nd_wf (c\<lparr>nd_fring := q\<rparr>)" "nd_queue (c\<lparr>nd_fring := q\<rparr>) = nd_queue c"
    using q assms by (simp_all add: nd_wf_def nd_queue_def packet_def)
  ultimately show ?thesis by blast
qed

lemma send_puts:
  assumes "nd_wf c" "free_list c = x # xs" "mbufs_ok m"
  shows "if length (concat m) \<le> 9208
    then \<exists>c'. frontend_send True m c = Inr (nd_reader_state c \<le> 0, c') \<and> nd_wf c' \<and> nd_queue c' = nd_queue c @ [concat m] \<and>
      nd_reader_state c' = nd_reader_state c
    else frontend_send True m c = Inl (Halt ''frontend_send: a packet is too large'')"
proof -
  obtain q where q: "lfring_dequeue (nd_fring c) NETDOM_RING_ORDER False = Some (x, q)" "lfring_wf NETDOM_RING_ORDER q"
    "lfring_list NETDOM_RING_ORDER q = xs"
    using netdom_ring.deq_Cons_law [of "nd_fring c" x xs] assms by (auto simp: nd_wf_def)
  note x = nd_wf_index [OF assms(1), of x]
  have ne: "x \<noteq> LFRING_EMPTY" using netdom_ring.empty_mark_law x assms(2) by auto
  define c0 where "c0 = c\<lparr>nd_fring := q, nd_len := (nd_len c)(unat x := 0)\<rparr>"
  define c1 where "c1 = write_bytes (unat x) 0 (concat m) (c0\<lparr>nd_len := (nd_len c0)(unat x := word_of_nat (length (concat m)))\<rparr>)"
  have copy: "copy_mbufs (unat x) m 0 c0 =
      (if length (concat m) \<le> 9208 then Inr c1 else Inl (Halt ''frontend_send: a packet is too large''))"
    using copy_mbufs_eq [OF assms(3), of c0 "unat x" 0] by (simp add: c0_def c1_def)
  have "length (filled c) < 512" using free_list_full [OF assms(1)] assms(2) by (simp add: nd_queue_def)
  then obtain r where r: "lfring_enqueue (nd_aring c) NETDOM_RING_ORDER x False = Some r" "lfring_wf NETDOM_RING_ORDER r"
    "lfring_list NETDOM_RING_ORDER r = filled c @ [x]"
    using netdom_ring.enq_law [of "nd_aring c" x] x assms(1,2) by (auto simp: nd_wf_def NETDOM_RING_ORDER_def)
  let ?c = "c1\<lparr>nd_aring := r\<rparr>"
  have send: "frontend_send True m c =
      (if length (concat m) \<le> 9208 then Inr (nd_reader_state c \<le> 0, ?c) else Inl (Halt ''frontend_send: a packet is too large''))"
    using q(1) ne copy r(1) by (simp add: frontend_send_def c0_def [symmetric]) (simp add: c1_def c0_def)
  show ?thesis
  proof (cases "length (concat m) \<le> 9208")
    case True
    have wf: "nd_wf ?c" using assms q r by (auto simp: nd_wf_def c1_def c0_def)
    have old: "packet ?c (unat y) = packet c (unat y)" if "y \<in> set (filled c)" for y
    proof -
      have "y \<noteq> x" using that assms(1,2) by (auto simp: nd_wf_def)
      then show ?thesis by (intro packet_cong) (simp_all add: c1_def c0_def write_bytes_def unat_neq)
    qed
    have "packet ?c (unat x) = packet c1 (unat x)" by (rule packet_cong) simp_all
    also have "\<dots> = concat m" unfolding c1_def by (rule packet_written [OF True])
    finally have "nd_queue ?c = nd_queue c @ [concat m]" using old r(3) by (simp add: nd_queue_def)
    then show ?thesis using True send wf by (simp add: c1_def c0_def)
  qed (simp add: send)
qed

lemma receive_none:
  assumes "nd_wf c" "filled c = []"
  shows "\<exists>c'. receive_one c = Inr (None, c') \<and> nd_wf c' \<and> nd_queue c' = []"
proof -
  obtain q where q: "lfring_dequeue (nd_aring c) NETDOM_RING_ORDER False = Some (LFRING_EMPTY, q)" "lfring_wf NETDOM_RING_ORDER q"
    "lfring_list NETDOM_RING_ORDER q = []"
    using netdom_ring.deq_Nil_law [of "nd_aring c"] assms by (auto simp: nd_wf_def)
  then have "receive_one c = Inr (None, c\<lparr>nd_aring := q\<rparr>)" by (simp add: receive_one_def)
  moreover have "nd_wf (c\<lparr>nd_aring := q\<rparr>)" "nd_queue (c\<lparr>nd_aring := q\<rparr>) = []"
    using q assms by (simp_all add: nd_wf_def nd_queue_def)
  ultimately show ?thesis by blast
qed

lemma receive_takes:
  assumes "nd_wf c" "filled c = x # xs"
  shows "\<exists>c'. receive_one c = Inr (Some (packet c (unat x)), c') \<and> nd_wf c' \<and> nd_queue c' = tl (nd_queue c)"
proof -
  obtain q where q: "lfring_dequeue (nd_aring c) NETDOM_RING_ORDER False = Some (x, q)" "lfring_wf NETDOM_RING_ORDER q"
    "lfring_list NETDOM_RING_ORDER q = xs"
    using netdom_ring.deq_Cons_law [of "nd_aring c" x xs] assms by (auto simp: nd_wf_def)
  note x = nd_wf_index [OF assms(1), of x]
  have ne: "x \<noteq> LFRING_EMPTY" using netdom_ring.empty_mark_law x assms(2) by auto
  have "length (free_list c) < 512" using free_list_full [OF assms(1)] assms(2) by (simp add: nd_queue_def)
  then obtain r where r: "lfring_enqueue (nd_fring c) NETDOM_RING_ORDER x False = Some r" "lfring_wf NETDOM_RING_ORDER r"
    "lfring_list NETDOM_RING_ORDER r = free_list c @ [x]"
    using netdom_ring.enq_law [of "nd_fring c" x] x assms(1,2) by (auto simp: nd_wf_def NETDOM_RING_ORDER_def)
  have p: "packet (c\<lparr>nd_aring := q\<rparr>) = packet c" "packet (c\<lparr>nd_aring := q, nd_fring := r\<rparr>) = packet c"
    by (simp_all add: packet_def fun_eq_iff)
  have "receive_one c = Inr (Some (packet c (unat x)), c\<lparr>nd_aring := q, nd_fring := r\<rparr>)"
    using q(1) ne r(1) p(1) by (simp add: receive_one_def)
  moreover have "nd_wf (c\<lparr>nd_aring := q, nd_fring := r\<rparr>)" using q r assms by (auto simp: nd_wf_def)
  moreover have "nd_queue (c\<lparr>nd_aring := q, nd_fring := r\<rparr>) = tl (nd_queue c)" using q(3) p(2) assms(2) by (simp add: nd_queue_def)
  ultimately show ?thesis by blast
qed

lemma init_ring_wf:
  assumes "length (lf_array (nd_fring c)) = 1024" "length (lf_array (nd_aring c)) = 1024"
  shows "nd_wf (frontend_init_ring c)" "nd_queue (frontend_init_ring c) = []"
proof -
  have l: "length (lf_array (nd_fring c)) = 2 ^ Suc NETDOM_RING_ORDER" "length (lf_array (nd_aring c)) = 2 ^ Suc NETDOM_RING_ORDER"
    using assms by (simp_all add: NETDOM_RING_ORDER_def)
  note f = lfring_init_full_refines [OF program_orders(1) l(1)] and a = lfring_init_empty_refines [OF program_orders(1) l(2)]
  have "{x :: u64. unat x < 2 ^ NETDOM_RING_ORDER} = {x. unat x < 512}" by (simp add: NETDOM_RING_ORDER_def)
  then show "nd_wf (frontend_init_ring c)" "nd_queue (frontend_init_ring c) = []"
    using f a full_entries_distinct [OF program_orders(1)] full_entries_set [OF program_orders(1)]
    by (simp_all add: nd_wf_def nd_queue_def frontend_init_ring_def Let_def)
qed

subsection \<open>Sequences of operations\<close>

datatype nd_op = Send "mbuf list" | Receive

text \<open>The packets delivered by a sequence of operations, and the same for a bounded queue that drops what does not fit.\<close>

fun run_nd :: "nd_op list \<Rightarrow> netdom_channel \<Rightarrow> (u8 list list \<times> netdom_channel) res" where
  "run_nd [] c = Inr ([], c)"
| "run_nd (Send m # ops) c = bindE (frontend_send True m c) (\<lambda>(_, c). run_nd ops c)"
| "run_nd (Receive # ops) c =
     bindE (receive_one c) (\<lambda>(p, c). bindE (run_nd ops c) (\<lambda>(ps, c). Inr (case p of None \<Rightarrow> ps | Some x \<Rightarrow> x # ps, c)))"

definition put_packet :: "u8 list \<Rightarrow> u8 list list \<Rightarrow> u8 list list" where
  "put_packet p q = (if length q < 512 then q @ [p] else q)"

fun spec_nd :: "nd_op list \<Rightarrow> u8 list list \<Rightarrow> u8 list list \<times> u8 list list" where
  "spec_nd [] q = ([], q)"
| "spec_nd (Send m # ops) q = spec_nd ops (put_packet (concat m) q)"
| "spec_nd (Receive # ops) [] = spec_nd ops []"
| "spec_nd (Receive # ops) (p # q) = (case spec_nd ops q of (ps, r) \<Rightarrow> (p # ps, r))"

definition fits :: "mbuf list \<Rightarrow> bool" where
  "fits m \<longleftrightarrow> mbufs_ok m \<and> length (concat m) \<le> NETDOM_DATA_SIZE - 8"

lemma send_ok:
  assumes "nd_wf c" "fits m"
  shows "\<exists>b c'. frontend_send True m c = Inr (b, c') \<and> nd_wf c' \<and> nd_queue c' = put_packet (concat m) (nd_queue c)"
proof (cases "free_list c")
  case Nil
  then have "\<not> length (nd_queue c) < 512" using free_list_full [OF assms(1)] by simp
  then have "put_packet (concat m) (nd_queue c) = nd_queue c" by (simp add: put_packet_def)
  then show ?thesis using send_drops [OF assms(1) Nil, of m] by metis
next
  case (Cons x xs)
  then have "length (nd_queue c) < 512" using free_list_full [OF assms(1)] by simp
  then show ?thesis using send_puts [OF assms(1) Cons, of m] assms(2)
    by (auto simp: put_packet_def fits_def NETDOM_DATA_SIZE_def)
qed

lemma run_nd_refines:
  assumes "nd_wf c" "\<And>m. Send m \<in> set ops \<Longrightarrow> fits m"
  shows "\<exists>c'. run_nd ops c = Inr (fst (spec_nd ops (nd_queue c)), c') \<and> nd_wf c' \<and> nd_queue c' = snd (spec_nd ops (nd_queue c))"
  using assms
proof (induction ops arbitrary: c)
  case (Cons a ops)
  note IH = Cons.IH and wf = Cons.prems(1) and fit = Cons.prems(2)
  show ?case
  proof (cases a)
    case (Send m)
    then obtain b c' where "frontend_send True m c = Inr (b, c')" "nd_wf c'" "nd_queue c' = put_packet (concat m) (nd_queue c)"
      using send_ok [OF wf, of m] fit by auto
    then show ?thesis using IH [of c'] fit Send by simp
  next
    case Receive
    show ?thesis
    proof (cases "filled c")
      case Nil
      then obtain c' where c': "receive_one c = Inr (None, c')" "nd_wf c'" "nd_queue c' = []"
        using receive_none [OF wf] by blast
      moreover have "nd_queue c = []" using Nil by (simp add: nd_queue_def)
      ultimately show ?thesis using IH [of c'] fit Receive by auto
    next
      case (Cons x xs)
      then obtain c' where c': "receive_one c = Inr (Some (packet c (unat x)), c')" "nd_wf c'" "nd_queue c' = tl (nd_queue c)"
        using receive_takes [OF wf] by blast
      obtain q where q: "nd_queue c = packet c (unat x) # q" using Cons by (simp add: nd_queue_def)
      then obtain c'' where "run_nd ops c' = Inr (fst (spec_nd ops q), c'')" "nd_wf c''" "nd_queue c'' = snd (spec_nd ops q)"
        using IH [of c'] c' fit by auto
      then show ?thesis using c'(1) q Receive by (simp add: split_beta)
    qed
  qed
qed simp

text \<open>
  C2. A channel set up by \<^verbatim>\<open>frontend_init_ring\<close> carries packets like a queue with room for 512 of them: every sequence
  of \<^verbatim>\<open>frontend_send\<close> with packets that fit into a buffer and of the receiver's rounds returns, delivers exactly the
  bytes that were sent, in order and once each, and drops a packet exactly when 512 are on their way; every
  buffer stays in one of the two rings. A packet that does not fit stops the machine before it leaves its buffer.
\<close>

theorem netdom_channel_is_queue:
  assumes "length (lf_array (nd_fring c0)) = 1024" "length (lf_array (nd_aring c0)) = 1024"
    "\<And>m. Send m \<in> set ops \<Longrightarrow> fits m"
  shows "\<exists>c. run_nd ops (frontend_init_ring c0) = Inr (fst (spec_nd ops []), c) \<and> nd_wf c \<and> nd_queue c = snd (spec_nd ops []) \<and>
    (\<forall>m. mbufs_ok m \<and> \<not> fits m \<and> length (nd_queue c) < 512 \<longrightarrow>
       frontend_send True m c = Inl (Halt ''frontend_send: a packet is too large''))"
proof -
  note init = init_ring_wf [OF assms(1,2)]
  obtain c where c: "run_nd ops (frontend_init_ring c0) = Inr (fst (spec_nd ops []), c)" "nd_wf c" "nd_queue c = snd (spec_nd ops [])"
    using run_nd_refines [OF init(1), of ops] assms(3) init(2) by auto
  have "frontend_send True m c = Inl (Halt ''frontend_send: a packet is too large'')"
    if m: "mbufs_ok m" "\<not> fits m" "length (nd_queue c) < 512" for m
  proof -
    obtain x xs where "free_list c = x # xs" using free_list_full [OF c(2)] m(3) by (cases "free_list c") simp_all
    from send_puts [OF c(2) this m(1)] show ?thesis using m by (simp add: fits_def NETDOM_DATA_SIZE_def)
  qed
  then show ?thesis using c by blast
qed

definition raw_channel :: netdom_channel where
  "raw_channel = (let r = \<lparr>lf_head = 0, lf_threshold = 0, lf_tail = 0, lf_array = replicate 1024 0\<rparr> in
     \<lparr>nd_fring = r, nd_aring = r, nd_reader_state = 0, nd_len = (\<lambda>_. 0), nd_data = (\<lambda>_ _. 0)\<rparr>)"

theorem netdom_channel_is_queue_witness:
  "\<exists>c. run_nd [Send [[1, 2], [3]], Receive, Receive] (frontend_init_ring raw_channel) = Inr ([[1, 2, 3]], c)"
proof -
  let ?ops = "[Send [[1, 2], [3]], Receive, Receive]"
  have f: "fits m" if "Send m \<in> set ?ops" for m using that by (auto simp: fits_def mbufs_ok_def NETDOM_DATA_SIZE_def)
  have "spec_nd ?ops [] = ([[1, 2, 3]], [])" by (simp add: put_packet_def)
  then show ?thesis
    using netdom_channel_is_queue [of raw_channel ?ops, OF _ _ f] by (auto simp: raw_channel_def Let_def)
qed

end
