(* ===== verification/Netdom_Route.thy ===== *)
theory Netdom_Route
  imports Netdom
begin

text \<open>
  How the network domain hands a received packet to the application domains: \<^verbatim>\<open>backend_receive\<close> and what it calls in
  \<^verbatim>\<open>platform/hw/xen/backend.c\<close>. The tables that map ports to domains are filled by the hypervisor.
\<close>

unbundle bit_operations_syntax

definition RUMPRUN_NUM_OF_APPS :: nat where "RUMPRUN_NUM_OF_APPS = 16"
definition BMK_ENOENT :: int where "BMK_ENOENT = 2"
definition BMK_EINVAL :: int where "BMK_EINVAL = 22"

definition ETHERTYPE_SWAP :: "u16 \<Rightarrow> u16" where
  "ETHERTYPE_SWAP x = push_bit 8 x OR drop_bit 8 x"

definition ETHERTYPE_IP :: u16 where "ETHERTYPE_IP = ETHERTYPE_SWAP 0x0800"
definition ETHERTYPE_ARP :: u16 where "ETHERTYPE_ARP = ETHERTYPE_SWAP 0x0806"

text \<open>A load of 16 bits on the little-endian host.\<close>

definition load16 :: "u8 list \<Rightarrow> nat \<Rightarrow> u16" where
  "load16 data i = ucast (data ! i) OR push_bit 8 (ucast (data ! (i + 1)))"

section \<open>Connections\<close>

text \<open>The number that \<^verbatim>\<open>backend_connect\<close> gives to a new application domain, and the number of domains afterwards.\<close>

definition connect_dom :: "nat \<Rightarrow> (nat \<times> nat) res" where
  "connect_dom frontend_dom =
     (let dom = frontend_dom in
      if RUMPRUN_NUM_OF_APPS < dom then Inl (Halt ''Too many frontend domains'') else Inr (dom, frontend_dom + 1))"

text \<open>On a reconnection the port decides; \<open>None\<close> is the result \<^verbatim>\<open>-1\<close>.\<close>

fun get_dom_loop :: "u32 \<Rightarrow> nat \<Rightarrow> u32 list \<Rightarrow> nat option" where
  "get_dom_loop port i [] = None"
| "get_dom_loop port i (p # ports) = (if p = port then Some i else get_dom_loop port (i + 1) ports)"

definition get_dom :: "u32 \<Rightarrow> u32 list \<Rightarrow> nat option" where
  "get_dom port reconnect_welcome_port = get_dom_loop port 0 reconnect_welcome_port"

section \<open>Forwarding\<close>

text \<open>The channels to the application domains; \<open>None\<close> is a null \<^verbatim>\<open>tx_fring[dom]\<close>.\<close>

type_synonym channels = "nat \<Rightarrow> netdom_channel option"

definition backend_forward_send :: "nat \<Rightarrow> mbuf list \<Rightarrow> channels \<Rightarrow> channels res" where
  "backend_forward_send d m0 tx =
     (if RUMPRUN_NUM_OF_APPS \<le> d then Inl (Undefined ''tx_fring[dom]'')
      else case tx d of
        None \<Rightarrow> Inr tx
      | Some c \<Rightarrow> bindE (frontend_send True m0 c) (\<lambda>(notify, c). Inr (tx(d \<mapsto> c))))"

fun forward_all :: "nat \<Rightarrow> nat \<Rightarrow> mbuf list \<Rightarrow> channels \<Rightarrow> channels res" where
  "forward_all i 0 m0 tx = Inr tx"
| "forward_all i (Suc n) m0 tx = bindE (backend_forward_send i m0 tx) (forward_all (i + 1) n m0)"

text \<open>\<open>forward_all 0 count\<close> is the loop from 0 up to \<^verbatim>\<open>count\<close>. The first mbuf of \<open>m0\<close> holds the headers.\<close>

definition backend_receive :: "(u16 \<Rightarrow> u32) \<Rightarrow> (u16 \<Rightarrow> u32) \<Rightarrow> nat \<Rightarrow> mbuf list \<Rightarrow> channels \<Rightarrow> (int \<times> channels) res" where
  "backend_receive tcp_portmap udp_portmap frontend_dom m0 tx =
     (let data = hd m0 in
      if length data < 38 then Inr (BMK_EINVAL, tx)
      else
        let type = load16 data 12 in
        if type = ETHERTYPE_IP then
          if data ! 23 \<noteq> 0x06 \<and> data ! 23 \<noteq> 0x11 then Inr (BMK_ENOENT, tx)
          else
            let portmap = (if data ! 23 = 0x06 then tcp_portmap else udp_portmap); port = load16 data 36 in
            if port = 0 \<or> port = 0xFFFF then
              bindE (forward_all 0 frontend_dom m0 tx) (\<lambda>tx. Inr (BMK_ENOENT, tx))
            else if portmap port = - 1 then Inr (BMK_ENOENT, tx)
            else bindE (backend_forward_send (unat (portmap port)) m0 tx) (\<lambda>tx. Inr (0, tx))
        else if type = ETHERTYPE_ARP then
          bindE (forward_all 0 frontend_dom m0 tx) (\<lambda>tx. Inr (BMK_ENOENT, tx))
        else Inr (BMK_ENOENT, tx))"

section \<open>Specification\<close>

text \<open>A number in network byte order.\<close>

definition net16 :: "u8 list \<Rightarrow> nat \<Rightarrow> nat" where
  "net16 data i = 256 * unat (data ! i) + unat (data ! (i + 1))"

text \<open>The domains a packet is for, with \<open>owner proto port\<close> the domain that has bound a port.\<close>

definition destinations :: "(nat \<Rightarrow> nat \<Rightarrow> nat option) \<Rightarrow> nat \<Rightarrow> u8 list \<Rightarrow> nat set" where
  "destinations owner count data =
     (if length data < 38 then {}
      else if net16 data 12 = 0x0806 then {..<count}
      else if net16 data 12 = 0x0800 \<and> unat (data ! 23) \<in> {6, 17} then
        if net16 data 36 \<in> {0, 0xFFFF} then {..<count} else set_option (owner (unat (data ! 23)) (net16 data 36))
      else {})"

text \<open>The tables hold the domains under the port number as it is in the packet.\<close>

definition port_owner :: "(u16 \<Rightarrow> u32) \<Rightarrow> (u16 \<Rightarrow> u32) \<Rightarrow> nat \<Rightarrow> nat \<Rightarrow> nat option" where
  "port_owner tcp udp proto port =
     (let d = (if proto = 6 then tcp else udp) (ETHERTYPE_SWAP (word_of_nat port)) in if d = - 1 then None else Some (unat d))"

lemma load16_swap:
  shows "load16 data i = ETHERTYPE_SWAP (word_of_nat (net16 data i))"
proof -
  let ?a = "ucast (data ! i) :: u16" and ?b = "ucast (data ! (i + 1)) :: u16"
  have "(word_of_nat (net16 data i) :: u16) = push_bit 8 ?a + ?b"
    by (simp add: net16_def push_bit_eq_mult)
  also have "\<dots> = push_bit 8 ?a OR ?b"
    by (rule disjunctive_add) (auto simp: bit_push_bit_iff bit_ucast_iff dest: bit_imp_le_length)
  finally have n: "(word_of_nat (net16 data i) :: u16) = push_bit 8 ?a OR ?b" .
  show ?thesis unfolding n load16_def ETHERTYPE_SWAP_def
    by (rule bit_word_eqI) (auto simp: bit_or_iff bit_push_bit_iff bit_drop_bit_eq bit_ucast_iff dest: bit_imp_le_length)
qed

lemma swap_swap: "ETHERTYPE_SWAP (ETHERTYPE_SWAP x) = x"
  unfolding ETHERTYPE_SWAP_def by (rule bit_word_eqI) (auto simp: bit_or_iff bit_push_bit_iff bit_drop_bit_eq dest: bit_imp_le_length)

lemma net16_bound: "net16 data i < 2 ^ 16"
proof -
  have "unat (data ! i) < 256" "unat (data ! (i + 1)) < 256"
    using unsigned_less [of "data ! i", where 'a = nat] unsigned_less [of "data ! (i + 1)", where 'a = nat] by simp_all
  then show ?thesis by (simp add: net16_def)
qed

lemma load16_eq: "n < 2 ^ 16 \<Longrightarrow> load16 data i = ETHERTYPE_SWAP (word_of_nat n) \<longleftrightarrow> net16 data i = n"
proof -
  assume n: "n < 2 ^ 16"
  have "load16 data i = ETHERTYPE_SWAP (word_of_nat n) \<longleftrightarrow> (word_of_nat (net16 data i) :: u16) = word_of_nat n"
    unfolding load16_swap by (metis swap_swap)
  also have "\<dots> \<longleftrightarrow> net16 data i = n" using n net16_bound [of data i] by (simp add: word_unat_eq_iff unsigned_of_nat take_bit_eq_mod)
  finally show ?thesis .
qed

section \<open>What forwarding does to the queues\<close>

definition channels_ok :: "channels \<Rightarrow> bool" where
  "channels_ok tx \<longleftrightarrow> (\<forall>d c. tx d = Some c \<longrightarrow> nd_wf c)"

definition queues :: "channels \<Rightarrow> nat \<Rightarrow> u8 list list option" where
  "queues tx d = map_option nd_queue (tx d)"

definition put_to :: "nat set \<Rightarrow> u8 list \<Rightarrow> (nat \<Rightarrow> u8 list list option) \<Rightarrow> nat \<Rightarrow> u8 list list option" where
  "put_to D p q d = (if d \<in> D then map_option (put_packet p) (q d) else q d)"

lemma put_to_empty [simp]: "put_to {} p q = q"
  by (rule ext) (simp add: put_to_def)

lemma put_to_insert: "d \<notin> D \<Longrightarrow> put_to D p (put_to {d} p q) = put_to (insert d D) p q"
  by (rule ext) (auto simp: put_to_def)

lemma forward_send_ok:
  assumes "channels_ok tx" "fits m" "d < RUMPRUN_NUM_OF_APPS"
  shows "\<exists>tx'. backend_forward_send d m tx = Inr tx' \<and> channels_ok tx' \<and> queues tx' = put_to {d} (concat m) (queues tx)"
proof (cases "tx d")
  case None
  then have "queues tx = put_to {d} (concat m) (queues tx)" by (auto simp: put_to_def queues_def fun_eq_iff)
  then show ?thesis using None assms by (simp add: backend_forward_send_def)
next
  case (Some c)
  then have "nd_wf c" using assms(1) by (simp add: channels_ok_def)
  from send_ok [OF this assms(2)] obtain b c' where c': "frontend_send True m c = Inr (b, c')" "nd_wf c'"
    "nd_queue c' = put_packet (concat m) (nd_queue c)" by blast
  have "backend_forward_send d m tx = Inr (tx(d \<mapsto> c'))" using Some c'(1) assms(3) by (simp add: backend_forward_send_def)
  moreover have "channels_ok (tx(d \<mapsto> c'))" using assms(1) c'(2) by (simp add: channels_ok_def)
  moreover have "queues (tx(d \<mapsto> c')) = put_to {d} (concat m) (queues tx)"
    using Some c'(3) by (auto simp: put_to_def queues_def fun_eq_iff)
  ultimately show ?thesis by blast
qed

lemma forward_all_ok:
  assumes "channels_ok tx" "fits m" "i + n \<le> RUMPRUN_NUM_OF_APPS"
  shows "\<exists>tx'. forward_all i n m tx = Inr tx' \<and> channels_ok tx' \<and> queues tx' = put_to {i..<i + n} (concat m) (queues tx)"
  using assms(1,3)
proof (induction n arbitrary: i tx)
  case (Suc n)
  obtain tx1 where tx1: "backend_forward_send i m tx = Inr tx1" "channels_ok tx1" "queues tx1 = put_to {i} (concat m) (queues tx)"
    using forward_send_ok [OF Suc.prems(1) assms(2), of i] Suc.prems(2) by auto
  obtain tx2 where tx2: "forward_all (i + 1) n m tx1 = Inr tx2" "channels_ok tx2"
    "queues tx2 = put_to {i + 1..<i + 1 + n} (concat m) (queues tx1)"
    using Suc.IH [OF tx1(2), of "i + 1"] Suc.prems(2) by auto
  have "insert i {i + 1..<i + 1 + n} = {i..<i + Suc n}" by auto
  then have "queues tx2 = put_to {i..<i + Suc n} (concat m) (queues tx)"
    using tx2(3) tx1(3) put_to_insert [of i "{i + 1..<i + 1 + n}"] by simp
  then show ?case using tx1(1) tx2 by auto
qed simp

definition unicast :: "(nat \<Rightarrow> nat \<Rightarrow> nat option) \<Rightarrow> u8 list \<Rightarrow> bool" where
  "unicast owner data \<longleftrightarrow> net16 data 12 = 0x0800 \<and> unat (data ! 23) \<in> {6, 17} \<and> net16 data 36 \<notin> {0, 0xFFFF} \<and>
     owner (unat (data ! 23)) (net16 data 36) \<noteq> None"

lemma type_conv:
  "load16 data i = ETHERTYPE_IP \<longleftrightarrow> net16 data i = 0x0800" "load16 data i = ETHERTYPE_ARP \<longleftrightarrow> net16 data i = 0x0806"
  "load16 data i = 0 \<longleftrightarrow> net16 data i = 0" "load16 data i = 0xFFFF \<longleftrightarrow> net16 data i = 0xFFFF"
proof -
  show "load16 data i = ETHERTYPE_IP \<longleftrightarrow> net16 data i = 0x0800" "load16 data i = ETHERTYPE_ARP \<longleftrightarrow> net16 data i = 0x0806"
    using load16_eq [of 2048 data i] load16_eq [of 2054 data i] by (simp_all add: ETHERTYPE_IP_def ETHERTYPE_ARP_def)
  have "ETHERTYPE_SWAP 0 = 0" "ETHERTYPE_SWAP 65535 = 65535" by (simp_all add: ETHERTYPE_SWAP_def)
  then show "load16 data i = 0 \<longleftrightarrow> net16 data i = 0" "load16 data i = 0xFFFF \<longleftrightarrow> net16 data i = 0xFFFF"
    using load16_eq [of 0 data i] load16_eq [of 65535 data i] by simp_all
qed

lemma proto_conv: "(w :: u8) = 0x06 \<longleftrightarrow> unat w = 6" "(w :: u8) = 0x11 \<longleftrightarrow> unat w = 17"
  by (simp_all add: word_unat_eq_iff)

lemma receive_ip:
  assumes "channels_ok tx" "fits m0" "frontend_dom \<le> RUMPRUN_NUM_OF_APPS"
    "\<And>proto port d. port_owner tcp udp proto port = Some d \<Longrightarrow> d < RUMPRUN_NUM_OF_APPS"
    and ip: "\<not> length (hd m0) < 38" "net16 (hd m0) 12 = 0x0800" "unat (hd m0 ! 23) \<in> {6, 17}" "net16 (hd m0) 36 \<notin> {0, 0xFFFF}"
  shows "\<exists>err tx'. backend_receive tcp udp frontend_dom m0 tx = Inr (err, tx') \<and> channels_ok tx' \<and>
    queues tx' = put_to (destinations (port_owner tcp udp) frontend_dom (hd m0)) (concat m0) (queues tx) \<and>
    err = (if unicast (port_owner tcp udp) (hd m0) then 0 else BMK_ENOENT)"
proof -
  let ?d = "hd m0" and ?owner = "port_owner tcp udp"
  define pm where "pm = (if unat (?d ! 23) = 6 then tcp else udp)"
  have own: "?owner (unat (?d ! 23)) (net16 ?d 36) = (if pm (load16 ?d 36) = - 1 then None else Some (unat (pm (load16 ?d 36))))"
    by (simp add: port_owner_def load16_swap pm_def Let_def)
  have eq: "backend_receive tcp udp frontend_dom m0 tx =
      (if pm (load16 ?d 36) = - 1 then Inr (BMK_ENOENT, tx)
       else bindE (backend_forward_send (unat (pm (load16 ?d 36))) m0 tx) (\<lambda>tx. Inr (0, tx)))"
    using ip by (auto simp: backend_receive_def type_conv proto_conv Let_def pm_def)
  show ?thesis
  proof (cases "pm (load16 ?d 36) = - 1")
    case True
    then show ?thesis using ip eq own assms(1) by (simp add: destinations_def unicast_def)
  next
    case False
    let ?o = "unat (pm (load16 ?d 36))"
    have o: "?owner (unat (?d ! 23)) (net16 ?d 36) = Some ?o" using own False by simp
    obtain tx2 where "backend_forward_send ?o m0 tx = Inr tx2" "channels_ok tx2" "queues tx2 = put_to {?o} (concat m0) (queues tx)"
      using forward_send_ok [OF assms(1,2) assms(4) [OF o]] by blast
    moreover have "destinations ?owner frontend_dom ?d = {?o}" using ip o by (simp add: destinations_def)
    moreover have "unicast ?owner ?d" using ip o by (simp add: unicast_def)
    ultimately show ?thesis using False eq by simp
  qed
qed


definition demo_packet :: "u8 list" where
  "demo_packet = replicate 12 0 @ [0x08, 0x00] @ replicate 9 0 @ [0x06] @ replicate 12 0 @ [0, 80]"

definition demo_ports :: "u16 \<Rightarrow> u32" where
  "demo_ports p = (if p = ETHERTYPE_SWAP 80 then 3 else - 1)"

definition demo_channels :: channels where
  "demo_channels d = (if d < 4 then Some (frontend_init_ring raw_channel) else None)"

lemma demo_channels_ok: "channels_ok demo_channels" "queues demo_channels 3 = Some []"
  using init_ring_wf [of raw_channel] by (auto simp: channels_ok_def demo_channels_def queues_def raw_channel_def Let_def split: if_splits)


section \<open>One domain too many\<close>

lemma forward_all_split: "forward_all i (n + k) m tx = bindE (forward_all i n m tx) (forward_all (i + n) k m)"
proof (induction n arbitrary: i tx)
  case (Suc n)
  show ?case by (cases "backend_forward_send i m tx") (simp_all add: Suc.IH)
qed simp

text \<open>
  C28. The bound on the number of application domains is off by one: after sixteen connections the seventeenth is accepted
  and gets the number 16, beyond the end of all the arrays, and then the next ARP packet that arrives makes
  \<^verbatim>\<open>backend_receive\<close> read \<^verbatim>\<open>tx_fring\<close> outside its bounds.
\<close>

theorem backend_accepts_too_many:
  assumes "channels_ok tx" "fits m0" "\<not> length (hd m0) < 38" "net16 (hd m0) 12 = 0x0806"
  shows "connect_dom 16 = Inr (16, 17) \<and> backend_receive tcp udp 17 m0 tx = Inl (Undefined ''tx_fring[dom]'')"
proof -
  obtain tx1 where "forward_all 0 16 m0 tx = Inr tx1"
    using forward_all_ok [OF assms(1,2), of 0 16] by (auto simp: RUMPRUN_NUM_OF_APPS_def)
  moreover have "forward_all 16 1 m0 tx1 = Inl (Undefined ''tx_fring[dom]'')"
    by (simp add: backend_forward_send_def RUMPRUN_NUM_OF_APPS_def)
  ultimately have "forward_all 0 17 m0 tx = Inl (Undefined ''tx_fring[dom]'')" using forward_all_split [of 0 16 1 m0 tx] by simp
  then show ?thesis using assms(3,4) by (simp add: connect_dom_def RUMPRUN_NUM_OF_APPS_def backend_receive_def type_conv Let_def)
qed

theorem backend_accepts_too_many_witness:
  "backend_receive (\<lambda>_. - 1) (\<lambda>_. - 1) 17 [demo_packet[13 := 0x06]] demo_channels = Inl (Undefined ''tx_fring[dom]'')"
proof -
  let ?p = "demo_packet[13 := 0x06]"
  have "fits [?p]" by (simp add: fits_def mbufs_ok_def demo_packet_def NETDOM_DATA_SIZE_def)
  moreover have "\<not> length ?p < 38" "net16 ?p 12 = 0x0806"
    by (simp_all add: demo_packet_def net16_def nth_append nth_Cons' nth_list_update list_update_append)
  ultimately show ?thesis using backend_accepts_too_many [OF demo_channels_ok(1), of "[?p]"] by simp
qed

end
