(* ===== verification/Netdom_Wake.thy ===== *)
theory Netdom_Wake
  imports Main
begin

text \<open>
  How a receiver of the channel between the network domain and an application domain goes to sleep and is woken, from
  \<^verbatim>\<open>platform/hw/xen/backend.c\<close> and \<^verbatim>\<open>platform/hw/xen/frontend.c\<close>, one step per atomic access. Any number of senders
  put packets into the ring; the event channel keeps one pending bit.
\<close>

section \<open>State\<close>

text \<open>
  Program points of the receiver: \<open>R_new\<close> created and not yet running, \<open>R_poll n\<close> about to look into the ring after \<open>n\<close>
  failures, \<open>R_stop\<close> about to store \<open>- 1\<close>, \<open>R_last\<close> about to look once more, \<open>R_switch\<close> about to run the callback of
  the switch, \<open>R_off\<close> off its CPU, \<open>R_done\<close> returned. \<open>nd_loading\<close> senders have put a packet in and not yet read
  \<^verbatim>\<open>readers\<close>, \<open>nd_notifying\<close> have found it not positive. \<open>nd_waking\<close> handlers have exchanged a 0 and not yet called
  \<^verbatim>\<open>bmk_sched_wake\<close>; \<open>nd_runnable\<close> counts the entries of the receiver in a run queue.
\<close>

datatype recv_pc = R_new | R_poll nat | R_stop | R_last | R_switch | R_off | R_done
datatype term_pc = T_none | T_stored | T_called

record nd_state =
  nd_readers :: int
  nd_packets :: nat
  nd_pc :: recv_pc
  nd_loading :: nat
  nd_notifying :: nat
  nd_pending :: bool
  nd_waking :: nat
  nd_runnable :: nat
  nd_terminating :: term_pc

text \<open>After \<^verbatim>\<open>frontend_init_ring\<close> and the creation of the receiver; and once the receiver has announced itself.\<close>

definition nd_created :: nd_state where
  "nd_created = \<lparr>nd_readers = 0, nd_packets = 0, nd_pc = R_new, nd_loading = 0, nd_notifying = 0, nd_pending = False,
     nd_waking = 0, nd_runnable = 1, nd_terminating = T_none\<rparr>"

definition nd_started :: nd_state where
  "nd_started = nd_created\<lparr>nd_readers := 1, nd_pc := R_poll 0, nd_runnable := 0\<rparr>"

section \<open>Atomic operations\<close>

text \<open>The interrupt handler: the exchange, and whether it goes on to wake the receiver.\<close>

definition interrupt_exchange :: "int \<Rightarrow> int \<times> bool" where
  "interrupt_exchange readers = (1, readers = 0)"

text \<open>The callback of the switch: the compare-and-exchange, and whether the receiver is woken at once.\<close>

definition receiver_callback :: "int \<Rightarrow> int \<times> bool" where
  "receiver_callback readers = (if readers = - 1 then (0, False) else (readers, True))"

definition sender_notifies :: "int \<Rightarrow> bool" where
  "sender_notifies readers \<longleftrightarrow> readers \<le> 0"

text \<open>What the receiver does next when the ring was empty.\<close>

definition receiver_fail :: "nat \<Rightarrow> recv_pc" where
  "receiver_fail fails = (if fails + 1 < 256 then R_poll (fails + 1) else R_stop)"

section \<open>Steps\<close>

text \<open>\<open>frontend\<close>: the receiver is the one of the application domain, which can be told to terminate.\<close>

inductive nd_step :: "bool \<Rightarrow> nd_state \<Rightarrow> nd_state \<Rightarrow> bool" for frontend where
  send: "nd_step frontend s (s\<lparr>nd_packets := nd_packets s + 1, nd_loading := nd_loading s + 1\<rparr>)"
| send_load: "0 < nd_loading s \<Longrightarrow> nd_step frontend s (s\<lparr>nd_loading := nd_loading s - 1,
    nd_notifying := nd_notifying s + (if sender_notifies (nd_readers s) then 1 else 0)\<rparr>)"
| send_notify: "0 < nd_notifying s \<Longrightarrow>
    nd_step frontend s (s\<lparr>nd_notifying := nd_notifying s - 1, nd_pending := True\<rparr>)"
| interrupt: "nd_pending s \<Longrightarrow> interrupt_exchange (nd_readers s) = (r, wakes) \<Longrightarrow>
    nd_step frontend s (s\<lparr>nd_pending := False, nd_readers := r, nd_waking := nd_waking s + (if wakes then 1 else 0)\<rparr>)"
| interrupt_wake: "0 < nd_waking s \<Longrightarrow>
    nd_step frontend s (s\<lparr>nd_waking := nd_waking s - 1, nd_runnable := nd_runnable s + 1\<rparr>)"
| start: "nd_pc s = R_new \<Longrightarrow> 0 < nd_runnable s \<Longrightarrow> \<not> (frontend \<and> nd_terminating s \<noteq> T_none) \<Longrightarrow>
    nd_step frontend s (s\<lparr>nd_pc := R_poll 0, nd_readers := 1, nd_runnable := nd_runnable s - 1\<rparr>)"
| start_done: "nd_pc s = R_new \<Longrightarrow> 0 < nd_runnable s \<Longrightarrow> frontend \<Longrightarrow> nd_terminating s \<noteq> T_none \<Longrightarrow>
    nd_step frontend s (s\<lparr>nd_pc := R_done, nd_runnable := nd_runnable s - 1\<rparr>)"
| take: "nd_pc s = R_poll fails \<Longrightarrow> 0 < nd_packets s \<Longrightarrow>
    nd_step frontend s (s\<lparr>nd_pc := R_poll 0, nd_packets := nd_packets s - 1\<rparr>)"
| fail: "nd_pc s = R_poll fails \<Longrightarrow> nd_packets s = 0 \<Longrightarrow> nd_step frontend s (s\<lparr>nd_pc := receiver_fail fails\<rparr>)"
| stop: "nd_pc s = R_stop \<Longrightarrow> nd_step frontend s (s\<lparr>nd_pc := R_last, nd_readers := - 1\<rparr>)"
| last_take: "nd_pc s = R_last \<Longrightarrow> 0 < nd_packets s \<Longrightarrow>
    nd_step frontend s (s\<lparr>nd_pc := R_poll 0, nd_packets := nd_packets s - 1\<rparr>)"
| last_fail: "nd_pc s = R_last \<Longrightarrow> nd_packets s = 0 \<Longrightarrow> nd_step frontend s (s\<lparr>nd_pc := R_switch\<rparr>)"
| callback: "nd_pc s = R_switch \<Longrightarrow> receiver_callback (nd_readers s) = (r, wakes) \<Longrightarrow>
    nd_step frontend s (s\<lparr>nd_pc := R_off, nd_readers := r, nd_runnable := nd_runnable s + (if wakes then 1 else 0)\<rparr>)"
| resume: "nd_pc s = R_off \<Longrightarrow> 0 < nd_runnable s \<Longrightarrow>
    nd_step frontend s (s\<lparr>nd_pc := (if frontend \<and> nd_terminating s \<noteq> T_none then R_done else R_poll 0),
      nd_runnable := nd_runnable s - 1\<rparr>)"
| terminate_store: "frontend \<Longrightarrow> nd_terminating s = T_none \<Longrightarrow> nd_step frontend s (s\<lparr>nd_terminating := T_stored\<rparr>)"
| terminate_exchange: "nd_terminating s = T_stored \<Longrightarrow> interrupt_exchange (nd_readers s) = (r, wakes) \<Longrightarrow>
    nd_step frontend s (s\<lparr>nd_terminating := T_called, nd_readers := r, nd_waking := nd_waking s + (if wakes then 1 else 0)\<rparr>)"

section \<open>Invariant\<close>

text \<open>
  A receiver that runs has no wake-up on its way, and one that is off its CPU has one exactly when \<^verbatim>\<open>readers\<close> is 1.
\<close>

definition wakes_ok :: "nd_state \<Rightarrow> bool" where
  "wakes_ok s \<longleftrightarrow>
     (if nd_pc s = R_off then (nd_readers s = 0 \<and> nd_waking s + nd_runnable s = 0 \<or> nd_readers s = 1 \<and> nd_waking s + nd_runnable s = 1)
      else if nd_pc s = R_done then nd_readers s = 1 \<and> nd_waking s + nd_runnable s = 0
      else nd_pc s \<noteq> R_new \<and> (nd_readers s = 1 \<or> nd_readers s = - 1) \<and> nd_waking s + nd_runnable s = 0)"

text \<open>A packet that the receiver will not look for is followed by a sender or an event.\<close>

definition coming :: "nd_state \<Rightarrow> bool" where
  "coming s \<longleftrightarrow> 0 < nd_loading s \<or> 0 < nd_notifying s \<or> nd_pending s"

definition packets_ok :: "nd_state \<Rightarrow> bool" where
  "packets_ok s \<longleftrightarrow> (nd_pc s = R_switch \<or> nd_pc s = R_off) \<and> nd_readers s \<le> 0 \<and> 0 < nd_packets s \<longrightarrow> coming s"

lemmas nd_defs = wakes_ok_def packets_ok_def coming_def interrupt_exchange_def receiver_callback_def sender_notifies_def receiver_fail_def

lemma nd_step_inv: "nd_step frontend s s' \<Longrightarrow> wakes_ok s \<and> packets_ok s \<Longrightarrow> wakes_ok s' \<and> packets_ok s'"
  by (induction rule: nd_step.induct) (auto simp: nd_defs split: if_splits)

lemma nd_reach_inv: "(nd_step frontend)\<^sup>*\<^sup>* nd_started s \<Longrightarrow> wakes_ok s \<and> packets_ok s"
proof (induction rule: rtranclp_induct)
  case base
  show ?case by (simp add: nd_started_def nd_created_def nd_defs)
next
  case (step s s')
  then show ?case using nd_step_inv by blast
qed

section \<open>Properties\<close>



text \<open>
  C26. Before that the receiver can be woken although it is not asleep. \<^verbatim>\<open>readers\<close> is 0 when the receiver is created,
  which also means asleep: an event that arrives before the receiver runs for the first time puts it into the run queue
  a second time, and then it runs while it is still queued, so that another CPU can run it at the same time.
\<close>

theorem netdom_start_wakes_twice:
  "\<exists>s s'. (nd_step frontend)\<^sup>*\<^sup>* nd_created s \<and> nd_pc s = R_new \<and> nd_runnable s = 2 \<and>
     nd_step frontend s s' \<and> nd_pc s' = R_poll 0 \<and> nd_runnable s' = 1"
proof -
  define s1 where "s1 = nd_created\<lparr>nd_packets := 1, nd_loading := 1\<rparr>"
  define s2 where "s2 = s1\<lparr>nd_loading := 0, nd_notifying := 1\<rparr>"
  define s3 where "s3 = s2\<lparr>nd_notifying := 0, nd_pending := True\<rparr>"
  define s4 where "s4 = s3\<lparr>nd_pending := False, nd_readers := 1, nd_waking := 1\<rparr>"
  define s5 where "s5 = s4\<lparr>nd_waking := 0, nd_runnable := 2\<rparr>"
  define s6 where "s6 = s5\<lparr>nd_pc := R_poll 0, nd_readers := 1, nd_runnable := 1\<rparr>"
  note d = s6_def s5_def s4_def s3_def s2_def s1_def nd_created_def interrupt_exchange_def sender_notifies_def
  have "nd_step frontend nd_created s1" using nd_step.send [of frontend nd_created] by (simp add: d)
  moreover have "nd_step frontend s1 s2" using nd_step.send_load [of s1 frontend] by (simp add: d)
  moreover have "nd_step frontend s2 s3" using nd_step.send_notify [of s2 frontend] by (simp add: d)
  moreover have "nd_step frontend s3 s4" using nd_step.interrupt [of s3 1 True frontend] by (simp add: d)
  moreover have "nd_step frontend s4 s5" using nd_step.interrupt_wake [of s4 frontend] by (simp add: d numeral_2_eq_2)
  ultimately have "(nd_step frontend)\<^sup>*\<^sup>* nd_created s5" by (meson converse_rtranclp_into_rtranclp rtranclp.rtrancl_refl)
  moreover have "nd_step frontend s5 s6" using nd_step.start [of s5 frontend] by (simp add: d numeral_2_eq_2)
  ultimately show ?thesis by (intro exI [of _ s5] exI [of _ s6]) (simp add: d)
qed

lemma poll_fails:
  assumes "nd_pc s = R_poll 0" "nd_packets s = 0" "n < 256"
  shows "(nd_step frontend)\<^sup>*\<^sup>* s (s\<lparr>nd_pc := R_poll n\<rparr>)"
  using assms(3)
proof (induction n)
  case 0
  have "s\<lparr>nd_pc := R_poll 0\<rparr> = s" using assms(1) by (cases s) simp
  then show ?case by simp
next
  case (Suc n)
  let ?s = "s\<lparr>nd_pc := R_poll n\<rparr>"
  have "nd_step frontend ?s (s\<lparr>nd_pc := R_poll (Suc n)\<rparr>)"
    using nd_step.fail [of ?s n frontend] assms(2) Suc.prems by (simp add: receiver_fail_def)
  then show ?case using Suc by (simp add: rtranclp.rtrancl_into_rtrancl)
qed

text \<open>
  C27. \<^verbatim>\<open>frontend_terminate\<close> can go unnoticed: when it runs while the receiver polls, the exchange finds no sleeper, the
  receiver does not look at \<^verbatim>\<open>frontend_terminating\<close> before it goes to sleep, and then nothing can happen any more
  except that a packet arrives, so that without one \<^verbatim>\<open>frontend_join\<close> waits for ever.
\<close>

theorem netdom_terminate_lost:
  "\<exists>s. (nd_step True)\<^sup>*\<^sup>* nd_started s \<and> nd_terminating s = T_called \<and> nd_pc s = R_off \<and>
     (\<forall>s'. nd_step True s s' \<longleftrightarrow> s' = s\<lparr>nd_packets := nd_packets s + 1, nd_loading := nd_loading s + 1\<rparr>)"
proof -
  let ?R = "nd_step True"
  define s1 where "s1 = nd_started\<lparr>nd_terminating := T_stored\<rparr>"
  define s2 where "s2 = s1\<lparr>nd_terminating := T_called\<rparr>"
  define s3 where "s3 = s2\<lparr>nd_pc := R_poll 255\<rparr>"
  define s4 where "s4 = s2\<lparr>nd_pc := R_stop\<rparr>"
  define s5 where "s5 = s2\<lparr>nd_pc := R_last, nd_readers := - 1\<rparr>"
  define s6 where "s6 = s5\<lparr>nd_pc := R_switch\<rparr>"
  define s7 where "s7 = s5\<lparr>nd_pc := R_off, nd_readers := 0\<rparr>"
  note d = s7_def s6_def s5_def s4_def s3_def s2_def s1_def nd_started_def nd_created_def interrupt_exchange_def receiver_fail_def receiver_callback_def
  have "?R nd_started s1" using nd_step.terminate_store [of True nd_started] by (simp add: d)
  moreover have "?R s1 s2" using nd_step.terminate_exchange [of s1 1 False True] by (simp add: d)
  ultimately have "?R\<^sup>*\<^sup>* nd_started s2" by (meson converse_rtranclp_into_rtranclp rtranclp.rtrancl_refl)
  also have "?R\<^sup>*\<^sup>* s2 s3" unfolding s3_def by (rule poll_fails) (simp_all add: d)
  finally have "?R\<^sup>*\<^sup>* nd_started s3" .
  moreover have "?R s3 s4" using nd_step.fail [of s3 255 True] by (simp add: d)
  moreover have "?R s4 s5" using nd_step.stop [of s4 True] by (simp add: d)
  moreover have "?R s5 s6" using nd_step.last_fail [of s5 True] by (simp add: d)
  moreover have "?R s6 s7" using nd_step.callback [of s6 0 False True] by (simp add: d)
  ultimately have "?R\<^sup>*\<^sup>* nd_started s7" by (meson rtranclp.rtrancl_into_rtrancl)
  moreover have "?R s7 s' \<longleftrightarrow> s' = s7\<lparr>nd_packets := nd_packets s7 + 1, nd_loading := nd_loading s7 + 1\<rparr>" for s'
    by (subst nd_step.simps) (simp add: d)
  ultimately show ?thesis by (intro exI [of _ s7]) (simp add: d)
qed

end
