(* ===== verification/Spec2Isabelle.thy ===== *)
theory Spec2Isabelle
  imports Lfring Memalloc_Correct Printf_Correct Jsmn Sched_Safety Join Lwp Rwlock Rw_Protocol Cv_Protocol Wall_Clock Monotonic Netdom_Route Netdom_Wake
begin

text \<open>
  \<^bold>\<open>The program.\<close> The sources are those of a library operating system that runs a NetBSD network stack as a server for
  other domains of a Xen host. At the bottom is a core library (\<^verbatim>\<open>lib/libbmk_core\<close>, \<^verbatim>\<open>include/bmk-core\<close>) with a page
  allocator, a byte allocator, a thread scheduler, strings, a formatter and a JSON tokenizer. \<^verbatim>\<open>lib/libbmk_rumpuser\<close>
  builds the locks of the rump kernel on the scheduler, \<^verbatim>\<open>lib/librumprun_base\<close> the LWPs of the C library.
  \<^verbatim>\<open>platform/hw\<close> has the clocks and the network channel: a backend in the network domain and a frontend in every
  application domain exchange packets over shared rings.

  \<^bold>\<open>Conventions.\<close> \<open>Prelude\<close> has the machine types and the result type: a call returns \<open>Inr\<close> of its result and the new state,
  or \<open>Inl\<close> of the reason why it does not return (\<^verbatim>\<open>bmk_platform_halt\<close>, a failed assertion, an operation without defined
  behaviour, a loop that does not end). State is passed explicitly in records. A loop without a bound of its own is a
  partial function with an optional result, and the theorems show that it returns. Integers are 64-bit (or narrower)
  words where the code relies on their width, and numbers with explicit reduction or a bound shown by a theorem
  elsewhere. Code that runs on several CPUs at once is an inductive step relation with one step per atomic instruction
  or section under a lock, with sequentially consistent memory; what holds is proved of all reachable states.

  \<^bold>\<open>Data structures.\<close>
  \<^item> \<open>Index_Queue\<close> states the contract of a bounded queue of indices as the locale \<open>index_queue\<close>. \<open>Lfring\<close> models
    \<^verbatim>\<open>include/bmk-core/lfring.h\<close> bit by bit, describes every entry of a well-formed ring and interprets the locale for
    the three orders the program uses (9, 15 and 17). Scheduler and network channel use the ring through these facts only.
  \<^item> \<open>Lfqueue\<close> models \<^verbatim>\<open>include/bmk-core/lfqueue.h\<close>, \<open>Block_Queue\<close> the block queues of \<^verbatim>\<open>sched.c\<close> on top of it, which refine
    a counting semaphore with a queue of waiters.

  \<^bold>\<open>Memory.\<close>
  \<^item> \<open>Pgalloc\<close> and \<open>Pgalloc_Correct\<close> model \<^verbatim>\<open>pgalloc.c\<close>: bitmap, headers and free lists agree, blocks partition the managed
    range, allocation is complete, calls return. \<open>Page_Source\<close> is the contract for clients (locale \<open>page_source\<close>), which
    the allocator interprets.
  \<^item> \<open>Memalloc\<close> and \<open>Memalloc_Correct\<close> model \<^verbatim>\<open>memalloc.c\<close> over pages: live areas are disjoint and keep their contents,
    allocation, reallocation and zeroed allocation do what they promise, and the size computation wraps.

  \<^bold>\<open>Threads.\<close>
  \<^item> \<open>Sched\<close>, \<open>Sched_Inv\<close>, \<open>Sched_Correct\<close> and \<open>Sched_Safety\<close> model \<^verbatim>\<open>sched.c\<close>: a thread is an index into the array of
    threads, the queues are rings, stacks are pages. The invariant puts every slot in exactly one place; calls return,
    run queues are served in order, timeouts expire exactly, and the nodes of exited threads are never given back. The
    locales \<open>timeout_wake\<close> and \<open>switch_callback\<close> are the contracts of the functions a block hands to the scheduler, with
    an interpretation for each function in \<^verbatim>\<open>sched.c\<close>.
  \<^item> \<open>Join\<close> is the handshake between a joining and an exiting thread, \<open>Lwp\<close> the parking of LWPs in \<^verbatim>\<open>_lwp.c\<close>, where a timed
    park can lose a wake-up.
  \<^item> \<open>Mutex\<close>, \<open>Rwlock\<close>, \<open>Rw_Protocol\<close>, \<open>Cv\<close> and \<open>Cv_Protocol\<close> model \<^verbatim>\<open>rumpuser_synch.c\<close>: mutual exclusion and progress
    under every interleaving, the whole calls in sequence, and two errors (a reader that is counted twice, and a timed
    wait that goes on without its mutex). The protocols use the mutex as a lock that is free or held, which is what the
    theorem on mutexes shows.

  \<^bold>\<open>Text.\<close> \<open>Bmk_String\<close> models \<^verbatim>\<open>bmk_string.c\<close> and \<^verbatim>\<open>strtoul.c\<close> over byte-addressed memory, \<open>Printf\<close> and \<open>Printf_Correct\<close>
  \<^verbatim>\<open>subr_prf.c\<close>: output stays in its buffer, and printed numbers are read back by \<^verbatim>\<open>bmk_strtoul\<close>. \<open>Jsmn\<close> models \<^verbatim>\<open>jsmn.c\<close>: the
  parser ends, counting predicts the number of tokens, and the tokens are nested as the brackets are.

  \<^bold>\<open>Time.\<close> \<open>Clock\<close> compares \<^verbatim>\<open>clock_subr.c\<close> with the Gregorian calendar. \<open>X86_Clock\<close>, \<open>Wall_Clock\<close> and \<open>Monotonic\<close> are
  \<^verbatim>\<open>arch/x86/clock.c\<close>: fixed-point scaling, sleeping, consistent reads of the structure the hypervisor updates (whose
  promise is the predicate \<open>versioned\<close>), the real-time clock, and one monotonic clock for all CPUs.

  \<^bold>\<open>Network channel.\<close> \<open>Netdom\<close> is the data path of \<^verbatim>\<open>frontend.c\<close> and \<^verbatim>\<open>backend.c\<close>, a queue of 512 packets; \<open>Netdom_Route\<close> is
  \<^verbatim>\<open>backend_receive\<close>, which finds the domain of a packet with the tables the hypervisor fills; \<open>Netdom_Wake\<close> is the protocol
  by which receivers sleep and wake, correct once the receiver has started, with two errors before and after.

  \<^bold>\<open>Bounds.\<close> Ring orders are between 4 and 60. Page addresses are below \<open>2 ^ 64\<close>. JSON texts are shorter than \<open>2 ^ 31\<close> bytes.
  Dates are before the year \<open>2 ^ 39\<close>, so that the seconds fit into 64 bits. One mbuf is shorter than \<open>2 ^ 31\<close> bytes, the
  range of its length field. There is no fuel: loops are shown to end.

  \<^bold>\<open>Not modelled.\<close> The rings and queues are modelled with one caller at a time, not the retries of their
  compare-and-exchange loops. Weak memory is not modelled. Left out are: assembly (context switches, boot, traps);
  hypercalls and what only sets up pages shared with the hypervisor (grants, event channels, Xen drivers, Mini-OS); device
  registers; code over structures of the NetBSD kernel, which is not part of the sources (virtual interfaces, system call
  proxy, memory mapping, run-time configuration); the interrupt threads of \<^verbatim>\<open>intr.c\<close>; ifconfig, which is
  a tool of NetBSD; wrappers and tests.
\<close>

end
